(* ===== verification/Prelude.thy ===== *)
theory Prelude
  imports Main "HOL-Library.Word" "HOL-Library.AList"
begin

text \<open>
  Shared vocabulary of the development: machine words, Rust's panics as error values,
  the decimal rendering used by \<open>format!\<close>, checked indexing, and the model of
  \<open>std::collections::HashMap\<close> as an association list together with the interface
  (a locale) through which the components use it. The lemma collections
  \<open>hm_simps\<close> and \<open>idx_simps\<close> carry the component proofs.
\<close>

section \<open>Machine words\<close>

type_synonym u8 = "8 word"
type_synonym u16 = "16 word"
type_synonym u32 = "32 word"
type_synonym u64 = "64 word"
type_synonym i32 = "32 word"
type_synonym i64 = "64 word"

section \<open>Panics and checked indexing\<close>

text \<open>A Rust panic aborts the call. A fallible step of the model is a value of \<open>panic + 'a\<close>.
  The last constructor stands for an unchecked access outside its slice in \<open>unsafe\<close> code.\<close>

datatype panic = Index_Out_Of_Bounds | Arithmetic_Overflow | Unwrap_None | Assertion_Failed
  | Undefined_Behaviour

named_theorems idx_simps "checked indexing"
named_theorems hm_simps "hash maps as association lists"

text \<open>\<open>v.get(i)\<close> and \<open>v[i]\<close> of a Rust slice.\<close>

definition slice_get :: "'a list \<Rightarrow> nat \<Rightarrow> 'a option" where
  "slice_get xs i = (if i < length xs then Some (xs ! i) else None)"

definition slice_index :: "'a list \<Rightarrow> nat \<Rightarrow> panic + 'a" where
  "slice_index xs i = (if i < length xs then Inr (xs ! i) else Inl Index_Out_Of_Bounds)"

lemma slice_get_Some [idx_simps]: "slice_get xs i = Some x \<longleftrightarrow> i < length xs \<and> xs ! i = x"
  by (auto simp: slice_get_def)

lemma slice_get_None [idx_simps]: "slice_get xs i = None \<longleftrightarrow> length xs \<le> i"
  by (auto simp: slice_get_def)

lemma slice_index_Inr [idx_simps]: "slice_index xs i = Inr x \<longleftrightarrow> i < length xs \<and> xs ! i = x"
  by (auto simp: slice_index_def)

text \<open>Sequencing of fallible steps: the first panic ends the call.\<close>

definition bind_panic :: "panic + 'a \<Rightarrow> ('a \<Rightarrow> panic + 'b) \<Rightarrow> panic + 'b" where
  "bind_panic m f = (case m of Inl e \<Rightarrow> Inl e | Inr x \<Rightarrow> f x)"

fun map_panic :: "('a \<Rightarrow> panic + 'b) \<Rightarrow> 'a list \<Rightarrow> panic + 'b list" where
  "map_panic f [] = Inr []"
| "map_panic f (x # xs) =
     bind_panic (f x) (\<lambda>y. bind_panic (map_panic f xs) (\<lambda>ys. Inr (y # ys)))"

lemma bind_panic_simps [simp]:
  "bind_panic (Inl e) f = Inl e" "bind_panic (Inr x) f = f x"
  by (simp_all add: bind_panic_def)

lemma bind_panic_Inr: "bind_panic m f = Inr y \<longleftrightarrow> (\<exists>x. m = Inr x \<and> f x = Inr y)"
  by (cases m) auto

lemma map_panic_total: "(\<And>x. x \<in> set xs \<Longrightarrow> f x = Inr (g x)) \<Longrightarrow> map_panic f xs = Inr (map g xs)"
  by (induction xs) auto

lemma bind_panic_cong [fundef_cong]:
  "m = m' \<Longrightarrow> (\<And>x. m' = Inr x \<Longrightarrow> f x = f' x) \<Longrightarrow> bind_panic m f = bind_panic m' f'"
  by (cases m') auto

text \<open>A loop over a list, and the loop rule for a counted loop.\<close>

fun fold_panic :: "('a \<Rightarrow> 's \<Rightarrow> panic + 's) \<Rightarrow> 'a list \<Rightarrow> 's \<Rightarrow> panic + 's" where
  "fold_panic f [] s = Inr s"
| "fold_panic f (x # xs) s = bind_panic (f x s) (fold_panic f xs)"

lemma fold_panic_append: "fold_panic f (xs @ ys) s = bind_panic (fold_panic f xs s) (fold_panic f ys)"
proof (induction xs arbitrary: s)
  case (Cons x xs)
  then show ?case by (cases "f x s") auto
qed simp

lemma fold_panic_upt:
  assumes "a \<le> b" "I a s"
    and "\<And>i s. a \<le> i \<Longrightarrow> i < b \<Longrightarrow> I i s \<Longrightarrow> \<exists>s'. f i s = Inr s' \<and> I (Suc i) s'"
  shows "\<exists>s'. fold_panic f [a..<b] s = Inr s' \<and> I b s'"
  using assms
proof (induction b)
  case (Suc b)
  show ?case
  proof (cases "a \<le> b")
    case True
    then obtain s1 where "fold_panic f [a..<b] s = Inr s1" "I b s1"
      using Suc.IH Suc.prems by fastforce
    then show ?thesis
      using Suc.prems(3) [OF True, of s1] True by (auto simp: fold_panic_append)
  next
    case False
    then show ?thesis using Suc.prems by (simp add: le_Suc_eq)
  qed
qed simp

lemma fold_panic_total:
  "(\<And>x s. x \<in> set xs \<Longrightarrow> f x s = Inr (g x s)) \<Longrightarrow> fold_panic f xs s = Inr (fold g xs s)"
  by (induction xs arbitrary: s) auto

text \<open>Writes through a checked index, and the unchecked accesses of \<open>unsafe\<close> code.\<close>

definition slice_set :: "'a list \<Rightarrow> nat \<Rightarrow> 'a \<Rightarrow> panic + 'a list" where
  "slice_set xs i v = (if i < length xs then Inr (xs[i := v]) else Inl Index_Out_Of_Bounds)"

definition slice_range :: "'a list \<Rightarrow> nat \<Rightarrow> nat \<Rightarrow> panic + 'a list" where
  "slice_range xs a b =
     (if a \<le> b \<and> b \<le> length xs then Inr (drop a (take b xs)) else Inl Index_Out_Of_Bounds)"

definition get_unchecked :: "'a list \<Rightarrow> nat \<Rightarrow> panic + 'a" where
  "get_unchecked xs i = (if i < length xs then Inr (xs ! i) else Inl Undefined_Behaviour)"

definition set_unchecked :: "'a list \<Rightarrow> nat \<Rightarrow> 'a \<Rightarrow> panic + 'a list" where
  "set_unchecked xs i v = (if i < length xs then Inr (xs[i := v]) else Inl Undefined_Behaviour)"

definition load_lanes :: "nat \<Rightarrow> 'a list \<Rightarrow> nat \<Rightarrow> panic + 'a list" where
  "load_lanes w xs i = (if i + w \<le> length xs then Inr (take w (drop i xs)) else Inl Undefined_Behaviour)"

definition store_lanes :: "'a list \<Rightarrow> nat \<Rightarrow> 'a list \<Rightarrow> panic + 'a list" where
  "store_lanes xs i v =
     (if i + length v \<le> length xs then Inr (take i xs @ v @ drop (i + length v) xs)
      else Inl Undefined_Behaviour)"

lemma slice_access_ok [idx_simps]:
  "i < length xs \<Longrightarrow> slice_index xs i = Inr (xs ! i)"
  "i < length xs \<Longrightarrow> slice_set xs i v = Inr (xs[i := v])"
  "a \<le> b \<Longrightarrow> b \<le> length xs \<Longrightarrow> slice_range xs a b = Inr (drop a (take b xs))"
  "i < length xs \<Longrightarrow> get_unchecked xs i = Inr (xs ! i)"
  "i < length xs \<Longrightarrow> set_unchecked xs i v = Inr (xs[i := v])"
  "i + w \<le> length xs \<Longrightarrow> load_lanes w xs i = Inr (take w (drop i xs))"
  "i + length vs \<le> length xs \<Longrightarrow> store_lanes xs i vs = Inr (take i xs @ vs @ drop (i + length vs) xs)"
  by (simp_all add: slice_index_def slice_set_def slice_range_def get_unchecked_def set_unchecked_def
      load_lanes_def store_lanes_def)

text \<open>\<open>v.last_mut()\<close> of a non-empty vector, rewritten by \<open>f\<close>.\<close>

definition update_last :: "('a \<Rightarrow> 'a) \<Rightarrow> 'a list \<Rightarrow> 'a list" where
  "update_last f xs = butlast xs @ [f (last xs)]"

lemma list_all2_sets:
  "list_all2 P xs ys \<Longrightarrow> (\<forall>x \<in> set xs. \<exists>y \<in> set ys. P x y) \<and> (\<forall>y \<in> set ys. \<exists>x \<in> set xs. P x y)"
  by (induction rule: list_all2_induct) auto

section \<open>Counters of type u64\<close>

text \<open>Identifiers drawn from a u64 counter are natural numbers; the increment is kept at its width.\<close>

definition u64_bound :: nat where
  "u64_bound = 2 ^ 64"

definition u64_inc :: "nat \<Rightarrow> nat" where
  "u64_inc n = (n + 1) mod u64_bound"

lemma u64_inc_Suc: "n + 1 < u64_bound \<Longrightarrow> u64_inc n = Suc n"
  by (simp add: u64_inc_def)

section \<open>Little-endian bytes\<close>

text \<open>\<open>from_le_bytes\<close> and \<open>to_le_bytes\<close>, and the chunks and the remainder of \<open>chunks_exact\<close>.\<close>

fun from_le_bytes :: "u8 list \<Rightarrow> 'a::len word" where
  "from_le_bytes [] = 0"
| "from_le_bytes (b # bs) = or (ucast b) (push_bit 8 (from_le_bytes bs))"

definition to_le_bytes :: "nat \<Rightarrow> 'a::len word \<Rightarrow> u8 list" where
  "to_le_bytes n w = map (\<lambda>i. ucast (drop_bit (8 * i) w)) [0..<n]"

function chunks_exact :: "nat \<Rightarrow> 'a list \<Rightarrow> 'a list list" where
  "chunks_exact k xs = (if 0 < k \<and> k \<le> length xs then take k xs # chunks_exact k (drop k xs) else [])"
  by auto
termination
  by (relation "measure (\<lambda>(k, xs). length xs)") auto

declare chunks_exact.simps [simp del]

definition chunks_remainder :: "nat \<Rightarrow> 'a list \<Rightarrow> 'a list" where
  "chunks_remainder k xs = drop (length xs div k * k) xs"

lemma bit_from_le_bytes:
  "bit (from_le_bytes bs :: 'a::len word) k \<longleftrightarrow> k < LENGTH('a) \<and> k div 8 < length bs \<and> bit (bs ! (k div 8)) (k mod 8)"
proof (induction bs arbitrary: k)
  case (Cons b bs)
  show ?case
  proof (cases "k < 8")
    case True
    then show ?thesis by (auto simp: bit_or_iff bit_push_bit_iff bit_ucast_iff dest: bit_imp_le_length)
  next
    case False
    then have "\<not> bit (ucast b :: 'a word) k"
      by (auto simp: bit_ucast_iff dest: bit_imp_le_length)
    moreover have "(b # bs) ! (k div 8) = bs ! ((k - 8) div 8)" "k mod 8 = (k - 8) mod 8" "k div 8 = Suc ((k - 8) div 8)"
      using False by (simp_all add: nth_Cons' div_if [of k] le_mod_geq)
    ultimately show ?thesis
      using False Cons.IH [of "k - 8"] by (auto simp: bit_or_iff bit_push_bit_iff)
  qed
qed simp

lemma from_to_le_bytes: "8 * n = LENGTH('a) \<Longrightarrow> from_le_bytes (to_le_bytes n w) = (w :: 'a::len word)"
  by (rule bit_word_eqI) (auto simp: bit_from_le_bytes to_le_bytes_def bit_ucast_iff bit_drop_bit_eq less_mult_imp_div_less)

lemma to_from_le_bytes:
  assumes "length bs = n" "8 * n = LENGTH('a)"
  shows "to_le_bytes n (from_le_bytes bs :: 'a::len word) = bs"
proof (rule nth_equalityI)
  fix i
  assume "i < length (to_le_bytes n (from_le_bytes bs :: 'a word))"
  then have i: "i < n"
    by (simp add: to_le_bytes_def)
  have "bit (ucast (drop_bit (8 * i) (from_le_bytes bs :: 'a word)) :: u8) k = bit (bs ! i) k" if "k < 8" for k
    using that i assms by (auto simp: bit_ucast_iff bit_drop_bit_eq bit_from_le_bytes)
  then have "ucast (drop_bit (8 * i) (from_le_bytes bs :: 'a word)) = bs ! i"
    by (intro bit_word_eqI) simp
  then show "to_le_bytes n (from_le_bytes bs :: 'a word) ! i = bs ! i"
    using i by (simp add: to_le_bytes_def)
qed (simp add: to_le_bytes_def assms)

section \<open>Decimal rendering\<close>

text \<open>\<open>Display\<close> of an unsigned integer: decimal digits, most significant first.\<close>

definition digit_char :: "nat \<Rightarrow> char" where
  "digit_char d = char_of (48 + d)"

fun show_nat :: "nat \<Rightarrow> string" where
  "show_nat n = (if n < 10 then [digit_char n] else show_nat (n div 10) @ [digit_char (n mod 10)])"

declare show_nat.simps [simp del]

section \<open>Finding the newest match\<close>

text \<open>\<open>xs.iter().rev().find(p)\<close>\<close>

definition find_rev :: "('a \<Rightarrow> bool) \<Rightarrow> 'a list \<Rightarrow> 'a option" where
  "find_rev p xs = List.find p (rev xs)"

lemma find_append: "List.find p (xs @ ys) =
    (case List.find p xs of None \<Rightarrow> List.find p ys | Some x \<Rightarrow> Some x)"
  by (induction xs) auto

lemma find_rev_simps [simp]:
  "find_rev p [] = None"
  "find_rev p (xs @ [x]) = (if p x then Some x else find_rev p xs)"
  "find_rev p (x # xs) = (case find_rev p xs of None \<Rightarrow> (if p x then Some x else None) | Some y \<Rightarrow> Some y)"
  by (auto simp: find_rev_def find_append split: option.split)

lemma find_rev_SomeD: "find_rev p xs = Some x \<Longrightarrow> x \<in> set xs \<and> p x"
  by (induction xs) (auto split: if_splits option.splits)

lemma find_rev_None: "find_rev p xs = None \<longleftrightarrow> (\<forall>x\<in>set xs. \<not> p x)"
  by (auto simp: find_rev_def find_None_iff)

lemma find_rev_filter:
  assumes "\<And>x. x \<in> set xs \<Longrightarrow> p x \<Longrightarrow> q x"
  shows "find_rev p (filter q xs) = find_rev p xs"
  using assms by (induction xs) (auto split: option.split simp: find_rev_None)

lemma find_rev_map:
  assumes "\<And>x. x \<in> set xs \<Longrightarrow> p (f x) = q x"
  shows "find_rev p (map f xs) = map_option f (find_rev q xs)"
  using assms by (induction xs) (auto split: option.split)

lemma find_rev_cong:
  assumes "\<And>x. x \<in> set xs \<Longrightarrow> p x = q x"
  shows "find_rev p xs = find_rev q xs"
  using find_rev_map [of xs p "\<lambda>x. x" q] assms by (simp add: option.map_ident)

section \<open>Hash maps\<close>

text \<open>
  A \<open>HashMap<K, V>\<close> is an association list with distinct keys (\<open>hm_ok\<close>); the order of
  its entries stands for the unspecified iteration order of the Rust map.
\<close>

type_synonym ('k, 'v) hash_map = "('k \<times> 'v) list"

definition hm_ok :: "('k, 'v) hash_map \<Rightarrow> bool" where
  "hm_ok m \<longleftrightarrow> distinct (map fst m)"

definition hm_new :: "('k, 'v) hash_map" where
  "hm_new = []"

definition hm_get :: "('k, 'v) hash_map \<Rightarrow> 'k \<Rightarrow> 'v option" where
  "hm_get m k = map_of m k"

definition hm_insert :: "('k, 'v) hash_map \<Rightarrow> 'k \<Rightarrow> 'v \<Rightarrow> ('k, 'v) hash_map" where
  "hm_insert m k v = AList.update k v m"

definition hm_remove :: "('k, 'v) hash_map \<Rightarrow> 'k \<Rightarrow> ('k, 'v) hash_map" where
  "hm_remove m k = AList.delete k m"

definition hm_retain :: "('k \<Rightarrow> 'v \<Rightarrow> bool) \<Rightarrow> ('k, 'v) hash_map \<Rightarrow> ('k, 'v) hash_map" where
  "hm_retain p m = filter (\<lambda>(k, v). p k v) m"

text \<open>What a client relies on: the laws of lookup, insertion, removal and retention.\<close>

locale map_interface =
  fixes ok :: "'m \<Rightarrow> bool"
    and new :: "'m"
    and get :: "'m \<Rightarrow> 'k \<Rightarrow> 'v option"
    and insert :: "'m \<Rightarrow> 'k \<Rightarrow> 'v \<Rightarrow> 'm"
    and remove :: "'m \<Rightarrow> 'k \<Rightarrow> 'm"
    and retain :: "('k \<Rightarrow> 'v \<Rightarrow> bool) \<Rightarrow> 'm \<Rightarrow> 'm"
  assumes ok_new: "ok new"
    and ok_insert: "ok m \<Longrightarrow> ok (insert m k v)"
    and ok_remove: "ok m \<Longrightarrow> ok (remove m k)"
    and ok_retain: "ok m \<Longrightarrow> ok (retain p m)"
    and get_new: "get new k = None"
    and get_insert: "get (insert m k v) k' = (if k' = k then Some v else get m k')"
    and get_remove: "get (remove m k) k' = (if k' = k then None else get m k')"
    and get_retain: "ok m \<Longrightarrow> get (retain p m) k =
      (case get m k of None \<Rightarrow> None | Some v \<Rightarrow> (if p k v then Some v else None))"
begin

lemma insert_twice: "get (insert (insert m k v) k w) = get (insert m k w)"
  by (rule ext) (simp add: get_insert)

lemma insert_remove: "get (remove (insert m k v) k) = get (remove m k)"
  by (rule ext) (simp add: get_insert get_remove)

lemma insert_commute: "k \<noteq> k' \<Longrightarrow> get (insert (insert m k v) k' w) = get (insert (insert m k' w) k v)"
  by (rule ext) (simp add: get_insert)

end

lemma hm_get_retain:
  "hm_ok m \<Longrightarrow> hm_get (hm_retain p m) k =
     (case hm_get m k of None \<Rightarrow> None | Some v \<Rightarrow> (if p k v then Some v else None))"
  by (induction m)
     (force simp: hm_get_def hm_retain_def hm_ok_def split: option.split dest: map_of_SomeD)+

interpretation hm: map_interface hm_ok hm_new hm_get hm_insert hm_remove hm_retain
proof (unfold_locales, goal_cases)
  case 1 show ?case by (simp add: hm_ok_def hm_new_def)
next
  case 2 thus ?case by (simp add: hm_ok_def hm_insert_def distinct_update)
next
  case 3 thus ?case by (simp add: hm_ok_def hm_remove_def distinct_delete)
next
  case 4 thus ?case
    by (auto simp: hm_ok_def hm_retain_def distinct_map_filter)
next
  case 5 show ?case by (simp add: hm_get_def hm_new_def)
next
  case 6 show ?case by (simp add: hm_get_def hm_insert_def update_conv')
next
  case 7 show ?case by (simp add: hm_get_def hm_remove_def delete_conv')
next
  case 8 thus ?case by (rule hm_get_retain)
qed

lemmas hm_laws [hm_simps] = hm.get_new hm.get_insert hm.get_remove hm.get_retain
lemmas hm_ok_laws [hm_simps] = hm.ok_new hm.ok_insert hm.ok_remove hm.ok_retain

lemma hm_get_in: "hm_ok m \<Longrightarrow> hm_get m k = Some v \<longleftrightarrow> (k, v) \<in> set m"
  by (simp add: hm_get_def hm_ok_def)

end
