(* ===== verification/Mvcc.thy ===== *)
theory Mvcc
  imports Prelude
begin

text \<open>
  The MVCC transaction manager, \<^verbatim>\<open>src/txn/mvcc.rs\<close>: row versions, version chains,
  the manager's counters and state maps, the visibility rules, first-committer-wins
  conflict detection and VACUUM. Transaction and commit identifiers are naturals whose
  increment wraps at $2^{64}$ (\<open>u64_inc\<close>); hash maps and the hash set of active
  transactions are the association lists of \<open>Prelude\<close>.
\<close>

section \<open>Row versions and version chains\<close>

type_synonym txn_id = nat

datatype txn_state = InProgress | Committed txn_id | Aborted

record row_version =
  xmin :: txn_id
  xmax :: "txn_id option"
  row_values :: "u64 list"
  deleted :: bool

definition row_version_new :: "txn_id \<Rightarrow> u64 list \<Rightarrow> row_version" where
  "row_version_new txn vals = \<lparr>xmin = txn, xmax = None, row_values = vals, deleted = False\<rparr>"

definition row_version_new_delete :: "txn_id \<Rightarrow> row_version" where
  "row_version_new_delete txn = \<lparr>xmin = txn, xmax = None, row_values = [], deleted = True\<rparr>"

definition row_version_delete :: "row_version \<Rightarrow> txn_id \<Rightarrow> row_version" where
  "row_version_delete v txn = v\<lparr>xmax := Some txn\<rparr>"

definition row_version_is_deleted :: "row_version \<Rightarrow> bool" where
  "row_version_is_deleted v \<longleftrightarrow> xmax v \<noteq> None"

type_synonym version_chain = "row_version list"

record mvcc_table =
  mt_name :: string
  mt_column_names :: "string list"
  mt_rows :: "version_chain list"

definition mvcc_table_new :: "string \<Rightarrow> string list \<Rightarrow> mvcc_table" where
  "mvcc_table_new name cols = \<lparr>mt_name = name, mt_column_names = cols, mt_rows = []\<rparr>"

definition mvcc_table_insert :: "mvcc_table \<Rightarrow> txn_id \<Rightarrow> u64 list \<Rightarrow> mvcc_table \<times> nat" where
  "mvcc_table_insert t txn vals =
     (let row_idx = length (mt_rows t)
      in (t\<lparr>mt_rows := mt_rows t @ [[row_version_new txn vals]]\<rparr>, row_idx))"

definition mvcc_table_delete :: "mvcc_table \<Rightarrow> txn_id \<Rightarrow> nat \<Rightarrow> mvcc_table \<times> bool" where
  "mvcc_table_delete t txn row_idx =
     (case slice_get (mt_rows t) row_idx of
        None \<Rightarrow> (t, False)
      | Some chain \<Rightarrow>
          (if chain = [] then (t, False)
           else if xmax (last chain) = None
           then (t\<lparr>mt_rows := (mt_rows t)[row_idx :=
                   update_last (\<lambda>v. row_version_delete v txn) chain]\<rparr>, True)
           else (t, False)))"

definition mvcc_table_update :: "mvcc_table \<Rightarrow> txn_id \<Rightarrow> nat \<Rightarrow> u64 list \<Rightarrow> mvcc_table \<times> bool" where
  "mvcc_table_update t txn row_idx new_values =
     (case slice_get (mt_rows t) row_idx of
        None \<Rightarrow> (t, False)
      | Some chain \<Rightarrow>
          (if chain = [] then (t, False)
           else if xmax (last chain) = None
           then (t\<lparr>mt_rows := (mt_rows t)[row_idx :=
                   update_last (\<lambda>v. row_version_delete v txn) chain
                     @ [row_version_new txn new_values]]\<rparr>, True)
           else (t, False)))"

definition mvcc_row_versions :: "mvcc_table \<Rightarrow> nat \<Rightarrow> version_chain" where
  "mvcc_row_versions t row_idx = (case slice_get (mt_rows t) row_idx of None \<Rightarrow> [] | Some c \<Rightarrow> c)"

definition mvcc_row_count :: "mvcc_table \<Rightarrow> nat" where
  "mvcc_row_count t = length (mt_rows t)"

section \<open>Transactions and the manager\<close>

datatype isolation_level = ReadUncommitted | ReadCommitted | RepeatableRead | Serializable

definition default_isolation_level :: isolation_level where
  "default_isolation_level = RepeatableRead"

record mvcc_transaction =
  txn_ident :: txn_id
  snapshot_id :: txn_id
  txn_status :: txn_state
  isolation_level :: isolation_level

record conflict_error =
  message :: string
  conflicting_txn :: txn_id

record mvcc_txn_manager =
  next_txn_id :: txn_id
  commit_id :: txn_id
  txn_states :: "(txn_id, txn_state) hash_map"
  active :: "txn_id list"
  active_snapshots :: "(txn_id, txn_id) hash_map"
  current_active :: "mvcc_transaction option"

definition mvcc_new :: mvcc_txn_manager where
  "mvcc_new = \<lparr>next_txn_id = 1, commit_id = 0, txn_states = hm_new, active = [],
               active_snapshots = hm_new, current_active = None\<rparr>"

definition begin_with_isolation ::
  "mvcc_txn_manager \<Rightarrow> isolation_level \<Rightarrow> mvcc_txn_manager \<times> mvcc_transaction" where
  "begin_with_isolation m level =
     (let ident = next_txn_id m;
          snap = commit_id m;
          txn = \<lparr>txn_ident = ident, snapshot_id = snap, txn_status = InProgress,
                 isolation_level = level\<rparr>
      in (m\<lparr>next_txn_id := u64_inc ident,
            txn_states := hm_insert (txn_states m) ident InProgress,
            active := List.insert ident (active m),
            active_snapshots := hm_insert (active_snapshots m) ident snap,
            current_active := Some txn\<rparr>, txn))"

definition mvcc_begin :: "mvcc_txn_manager \<Rightarrow> mvcc_txn_manager \<times> mvcc_transaction" where
  "mvcc_begin m = begin_with_isolation m default_isolation_level"

text \<open>The tail shared by \<open>commit\<close> and \<open>rollback\<close>: forget the active transaction.\<close>

definition clear_active :: "mvcc_txn_manager \<Rightarrow> txn_id \<Rightarrow> mvcc_txn_manager" where
  "clear_active m txn =
     m\<lparr>active := removeAll txn (active m),
       active_snapshots := hm_remove (active_snapshots m) txn,
       current_active := (case current_active m of
           None \<Rightarrow> None
         | Some a \<Rightarrow> (if txn_ident a = txn then None else Some a))\<rparr>"

definition mvcc_commit :: "mvcc_txn_manager \<Rightarrow> txn_id \<Rightarrow> mvcc_txn_manager \<times> txn_id" where
  "mvcc_commit m txn =
     (let cid = u64_inc (commit_id m)
      in (clear_active (m\<lparr>commit_id := cid,
            txn_states := hm_insert (txn_states m) txn (Committed cid)\<rparr>) txn, cid))"

definition mvcc_rollback :: "mvcc_txn_manager \<Rightarrow> txn_id \<Rightarrow> mvcc_txn_manager" where
  "mvcc_rollback m txn =
     clear_active (m\<lparr>txn_states := hm_insert (txn_states m) txn Aborted\<rparr>) txn"

text \<open>The single-transaction interface of the engine. \<open>current_active.take()\<close> empties the slot first.\<close>

definition begin_compat :: "mvcc_txn_manager \<Rightarrow> string + (mvcc_txn_manager \<times> txn_id)" where
  "begin_compat m =
     (if current_active m \<noteq> None then Inl ''a transaction is already active''
      else let (m', txn) = mvcc_begin m in Inr (m', txn_ident txn))"

definition commit_compat :: "mvcc_txn_manager \<Rightarrow> string + (mvcc_txn_manager \<times> txn_id)" where
  "commit_compat m =
     (case current_active m of
        None \<Rightarrow> Inl ''no active transaction''
      | Some txn \<Rightarrow> Inr (mvcc_commit (m\<lparr>current_active := None\<rparr>) (txn_ident txn)))"

definition rollback_compat :: "mvcc_txn_manager \<Rightarrow> string + (mvcc_txn_manager \<times> txn_id)" where
  "rollback_compat m =
     (case current_active m of
        None \<Rightarrow> Inl ''no active transaction''
      | Some txn \<Rightarrow> Inr (mvcc_rollback (m\<lparr>current_active := None\<rparr>) (txn_ident txn), txn_ident txn))"

definition is_active :: "mvcc_txn_manager \<Rightarrow> bool" where
  "is_active m \<longleftrightarrow> current_active m \<noteq> None"

definition active_id :: "mvcc_txn_manager \<Rightarrow> txn_id option" where
  "active_id m = map_option txn_ident (current_active m)"

definition active_snapshot_id :: "mvcc_txn_manager \<Rightarrow> txn_id option" where
  "active_snapshot_id m = map_option snapshot_id (current_active m)"

definition active_isolation_level :: "mvcc_txn_manager \<Rightarrow> isolation_level option" where
  "active_isolation_level m = map_option isolation_level (current_active m)"

definition current_commit_id :: "mvcc_txn_manager \<Rightarrow> txn_id" where
  "current_commit_id m = commit_id m"

definition cleanup_aborted :: "mvcc_txn_manager \<Rightarrow> mvcc_txn_manager \<times> nat" where
  "cleanup_aborted m =
     (let before = length (txn_states m);
          kept = hm_retain (\<lambda>_ state. state \<noteq> Aborted) (txn_states m)
      in (m\<lparr>txn_states := kept\<rparr>, before - length kept))"

definition txn_state_of :: "mvcc_txn_manager \<Rightarrow> txn_id \<Rightarrow> txn_state" where
  "txn_state_of m txn = (case hm_get (txn_states m) txn of None \<Rightarrow> Aborted | Some s \<Rightarrow> s)"

definition oldest_active_snapshot :: "mvcc_txn_manager \<Rightarrow> txn_id" where
  "oldest_active_snapshot m =
     fold (\<lambda>(tid, snap) oldest.
             if hm_get (txn_states m) tid = Some InProgress then min oldest snap else oldest)
          (active_snapshots m) (commit_id m)"

definition oldest_active_snapshot_or_current :: "mvcc_txn_manager \<Rightarrow> txn_id" where
  "oldest_active_snapshot_or_current m = oldest_active_snapshot m"

section \<open>Visibility\<close>

definition is_visible_with_snapshot ::
  "mvcc_txn_manager \<Rightarrow> row_version \<Rightarrow> txn_id \<Rightarrow> txn_id \<Rightarrow> bool" where
  "is_visible_with_snapshot m v snap active_txn_id =
     (if xmin v \<noteq> active_txn_id \<and>
         (case txn_state_of m (xmin v) of Committed cid \<Rightarrow> \<not> cid \<le> snap | _ \<Rightarrow> True)
      then False
      else (case xmax v of
              None \<Rightarrow> True
            | Some x \<Rightarrow>
                (if x = active_txn_id then False
                 else (case txn_state_of m x of Committed cid \<Rightarrow> \<not> cid \<le> snap | _ \<Rightarrow> True))))"

definition is_row_visible_to_active :: "mvcc_txn_manager \<Rightarrow> row_version \<Rightarrow> bool" where
  "is_row_visible_to_active m v =
     (let aid = (case active_id m of None \<Rightarrow> 0 | Some i \<Rightarrow> i);
          xmin_visible = (xmin v = aid \<or>
            (case txn_state_of m (xmin v) of Committed _ \<Rightarrow> True | _ \<Rightarrow> False))
      in if \<not> xmin_visible then False
         else (case xmax v of
                 None \<Rightarrow> True
               | Some x \<Rightarrow>
                   (if x = aid then False
                    else (case txn_state_of m x of Committed _ \<Rightarrow> False | _ \<Rightarrow> True))))"

definition txn_visible_to_snapshot :: "mvcc_txn_manager \<Rightarrow> txn_id \<Rightarrow> txn_id \<Rightarrow> bool" where
  "txn_visible_to_snapshot m author snap =
     (case hm_get (txn_states m) author of Some (Committed cid) \<Rightarrow> cid \<le> snap | _ \<Rightarrow> False)"

definition visible :: "mvcc_txn_manager \<Rightarrow> row_version \<Rightarrow> mvcc_transaction \<Rightarrow> bool" where
  "visible m v txn =
     (let xmin_visible = (xmin v = txn_ident txn \<or>
            (case isolation_level txn of
               ReadUncommitted \<Rightarrow>
                 (case hm_get (txn_states m) (xmin v) of
                    Some InProgress \<Rightarrow> True | Some (Committed _) \<Rightarrow> True | _ \<Rightarrow> False)
             | _ \<Rightarrow> txn_visible_to_snapshot m (xmin v) (snapshot_id txn)))
      in if \<not> xmin_visible then False
         else (case xmax v of
                 None \<Rightarrow> True
               | Some x \<Rightarrow>
                   (if x = txn_ident txn then False
                    else \<not> txn_visible_to_snapshot m x (snapshot_id txn))))"

definition scan_visible ::
  "mvcc_txn_manager \<Rightarrow> mvcc_table \<Rightarrow> mvcc_transaction \<Rightarrow> row_version list" where
  "scan_visible m t txn =
     List.map_filter (\<lambda>chain. find_rev (\<lambda>v. visible m v txn) chain) (mt_rows t)"

section \<open>Write-write conflicts\<close>

definition check_write_conflict ::
  "mvcc_txn_manager \<Rightarrow> mvcc_table \<Rightarrow> mvcc_transaction \<Rightarrow> nat \<Rightarrow> conflict_error + unit" where
  "check_write_conflict m t txn row_idx =
     (case slice_get (mt_rows t) row_idx of
        None \<Rightarrow> Inr ()
      | Some chain \<Rightarrow>
          (case find_rev (\<lambda>v. visible m v txn) chain of
             None \<Rightarrow> Inr ()
           | Some v \<Rightarrow>
               (case xmax v of
                  None \<Rightarrow> Inr ()
                | Some x \<Rightarrow>
                    (if x = txn_ident txn then Inr ()
                     else (case hm_get (txn_states m) x of
                        Some InProgress \<Rightarrow>
                          Inl \<lparr>message = ''write-write conflict: row '' @ show_nat row_idx
                                 @ '' is being modified by active transaction '' @ show_nat x,
                               conflicting_txn = x\<rparr>
                      | Some (Committed cid) \<Rightarrow>
                          (if snapshot_id txn < cid
                           then Inl \<lparr>message = ''write-write conflict: row '' @ show_nat row_idx
                                  @ '' was modified by transaction '' @ show_nat x
                                  @ '' (committed after our snapshot)'',
                                conflicting_txn = x\<rparr>
                           else Inl \<lparr>message = ''write-write conflict: row '' @ show_nat row_idx
                                  @ '' was already deleted before our snapshot'',
                                conflicting_txn = x\<rparr>)
                      | Some Aborted \<Rightarrow> Inr ()
                      | None \<Rightarrow> Inr ())))))"

definition update_with_conflict_check ::
  "mvcc_txn_manager \<Rightarrow> mvcc_table \<Rightarrow> mvcc_transaction \<Rightarrow> nat \<Rightarrow> u64 list \<Rightarrow> conflict_error + mvcc_table" where
  "update_with_conflict_check m t txn row_idx new_values =
     (case check_write_conflict m t txn row_idx of
        Inl e \<Rightarrow> Inl e
      | Inr _ \<Rightarrow> Inr (fst (mvcc_table_update t (txn_ident txn) row_idx new_values)))"

definition delete_with_conflict_check ::
  "mvcc_txn_manager \<Rightarrow> mvcc_table \<Rightarrow> mvcc_transaction \<Rightarrow> nat \<Rightarrow> conflict_error + mvcc_table" where
  "delete_with_conflict_check m t txn row_idx =
     (case check_write_conflict m t txn row_idx of
        Inl e \<Rightarrow> Inl e
      | Inr _ \<Rightarrow> Inr (fst (mvcc_table_delete t (txn_ident txn) row_idx)))"

section \<open>VACUUM\<close>

text \<open>The closure of \<open>chain.retain\<close> in \<open>vacuum\<close>.\<close>

definition vacuum_keep :: "mvcc_txn_manager \<Rightarrow> txn_id \<Rightarrow> row_version \<Rightarrow> bool" where
  "vacuum_keep m oldest v =
     (if hm_get (txn_states m) (xmin v) = Some Aborted then False
      else (case xmax v of
              None \<Rightarrow> True
            | Some x \<Rightarrow>
                (case hm_get (txn_states m) x of
                   Some (Committed cid) \<Rightarrow> (if cid \<le> oldest then False else True)
                 | _ \<Rightarrow> True)))"

definition vacuum_chains ::
  "(row_version \<Rightarrow> bool) \<Rightarrow> version_chain list \<Rightarrow> version_chain list \<times> nat" where
  "vacuum_chains keep cs =
     (map (filter keep) cs,
      sum_list (map (\<lambda>c. length c - length (filter keep c)) cs))"

definition vacuum :: "mvcc_txn_manager \<Rightarrow> mvcc_table list \<Rightarrow> mvcc_table list \<times> nat" where
  "vacuum m tables =
     (let oldest = oldest_active_snapshot m
      in (map (\<lambda>t. t\<lparr>mt_rows := fst (vacuum_chains (vacuum_keep m oldest) (mt_rows t))\<rparr>) tables,
          sum_list (map (\<lambda>t. snd (vacuum_chains (vacuum_keep m oldest) (mt_rows t))) tables)))"

section \<open>Readers and dead versions\<close>

text \<open>
  The contract between a reader and garbage collection: a version the collector calls dead
  is never one the reader would be shown. Under it, what a reader is shown of a chain, and
  of a whole table, does not depend on whether the collector has run.
\<close>

locale version_reader =
  fixes sees :: "'m \<Rightarrow> 'r \<Rightarrow> row_version \<Rightarrow> bool"
    and keep :: "'m \<Rightarrow> row_version \<Rightarrow> bool"
    and reader_ok :: "'m \<Rightarrow> 'r \<Rightarrow> bool"
  assumes seen_kept: "reader_ok m r \<Longrightarrow> sees m r v \<Longrightarrow> keep m v"
begin

lemma newest_after_gc:
  "reader_ok m r \<Longrightarrow> find_rev (sees m r) (filter (keep m) c) = find_rev (sees m r) c"
  by (rule find_rev_filter) (rule seen_kept)

lemma scan_after_gc:
  "reader_ok m r \<Longrightarrow>
   List.map_filter (find_rev (sees m r)) (map (filter (keep m)) cs) =
   List.map_filter (find_rev (sees m r)) cs"
  by (induction cs) (simp_all add: List.map_filter_simps newest_after_gc split: option.split)

end

text \<open>A transaction handle may be used with the manager while its snapshot is not overtaken.\<close>

definition txn_reader_ok :: "mvcc_txn_manager \<Rightarrow> mvcc_transaction \<Rightarrow> bool" where
  "txn_reader_ok m txn \<longleftrightarrow> oldest_active_snapshot m \<le> snapshot_id txn \<and>
     hm_get (txn_states m) (txn_ident txn) \<noteq> Some Aborted"

lemma vacuum_keep_iff:
  "vacuum_keep m oldest v \<longleftrightarrow> hm_get (txn_states m) (xmin v) \<noteq> Some Aborted \<and>
     (\<forall>x. xmax v = Some x \<longrightarrow> \<not> txn_visible_to_snapshot m x oldest)"
  by (auto simp: vacuum_keep_def txn_visible_to_snapshot_def split: option.splits txn_state.splits)

lemma visibleD:
  assumes "visible m v txn"
  shows "xmin v = txn_ident txn \<or> hm_get (txn_states m) (xmin v) \<noteq> Some Aborted"
    and "xmax v = Some x \<Longrightarrow> x \<noteq> txn_ident txn \<and> \<not> txn_visible_to_snapshot m x (snapshot_id txn)"
  using assms
  by (cases "isolation_level txn";
      auto simp: visible_def txn_visible_to_snapshot_def Let_def split: if_splits option.splits)+

lemma txn_visible_mono:
  "txn_visible_to_snapshot m x s \<Longrightarrow> s \<le> s' \<Longrightarrow> txn_visible_to_snapshot m x s'"
  by (auto simp: txn_visible_to_snapshot_def split: option.splits txn_state.splits)

lemma visible_kept:
  "txn_reader_ok m txn \<Longrightarrow> visible m v txn \<Longrightarrow> vacuum_keep m (oldest_active_snapshot m) v"
  using visibleD [of m v txn] txn_visible_mono [of m _ "oldest_active_snapshot m" "snapshot_id txn"]
  by (auto simp: txn_reader_ok_def vacuum_keep_iff)

interpretation txn_reader: version_reader
  "\<lambda>m txn v. visible m v txn" "\<lambda>m. vacuum_keep m (oldest_active_snapshot m)" txn_reader_ok
  by unfold_locales (rule visible_kept)

section \<open>The oldest active snapshot\<close>

lemma fold_min_le:
  "fold (\<lambda>(k, s) acc. if p k then min acc s else acc) xs a \<le> (a::nat)"
proof (induction xs arbitrary: a)
  case (Cons x xs)
  obtain k s where x: "x = (k, s)" by (cases x)
  show ?case
    using Cons.IH [of "if p k then min a s else a"] unfolding x by (auto split: if_splits)
qed simp

lemma fold_min_lower:
  "(k, s) \<in> set xs \<Longrightarrow> p k \<Longrightarrow>
   fold (\<lambda>(k, s) acc. if p k then min acc s else acc) xs (a::nat) \<le> s"
proof (induction xs arbitrary: a)
  case (Cons x xs)
  show ?case
  proof (cases "x = (k, s)")
    case True
    with Cons.prems show ?thesis
      using fold_min_le [of p xs "min a s"] by simp
  next
    case False
    with Cons show ?thesis by (auto split: prod.splits)
  qed
qed simp

lemma fold_min_attained:
  "fold (\<lambda>(k, s) acc. if p k then min acc s else acc) xs (a::nat) = a \<or>
   (\<exists>k s. (k, s) \<in> set xs \<and> p k \<and>
      fold (\<lambda>(k, s) acc. if p k then min acc s else acc) xs a = s)"
proof (induction xs arbitrary: a)
  case (Cons x xs)
  obtain k s where x: "x = (k, s)" by (cases x)
  show ?case
    using Cons.IH [of "if p k then min a s else a"] unfolding x
    by (auto simp: min_def split: if_splits)
qed simp

lemma oldest_le_commit: "oldest_active_snapshot m \<le> commit_id m"
  unfolding oldest_active_snapshot_def by (rule fold_min_le)

lemma oldest_le_active:
  assumes "hm_ok (active_snapshots m)" "hm_get (active_snapshots m) t = Some s"
    and "hm_get (txn_states m) t = Some InProgress"
  shows "oldest_active_snapshot m \<le> s"
  unfolding oldest_active_snapshot_def
  by (rule fold_min_lower [of t]) (use assms in \<open>auto simp: hm_get_in\<close>)

section \<open>The manager's invariant\<close>

definition mgr_inv :: "mvcc_txn_manager \<Rightarrow> bool" where
  "mgr_inv m \<longleftrightarrow>
     hm_ok (txn_states m) \<and> hm_ok (active_snapshots m) \<and> distinct (active m) \<and> 0 < next_txn_id m \<and>
     (\<forall>t s. hm_get (txn_states m) t = Some s \<longrightarrow> 0 < t \<and> t < next_txn_id m) \<and>
     (\<forall>t c. hm_get (txn_states m) t = Some (Committed c) \<longrightarrow> 0 < c \<and> c \<le> commit_id m) \<and>
     (\<forall>t t' c. hm_get (txn_states m) t = Some (Committed c) \<longrightarrow>
        hm_get (txn_states m) t' = Some (Committed c) \<longrightarrow> t = t') \<and>
     (\<forall>t. hm_get (txn_states m) t = Some InProgress \<longleftrightarrow> t \<in> set (active m)) \<and>
     (\<forall>t. t \<in> set (active m) \<longleftrightarrow> hm_get (active_snapshots m) t \<noteq> None) \<and>
     (\<forall>t s. hm_get (active_snapshots m) t = Some s \<longrightarrow> s \<le> commit_id m) \<and>
     (\<forall>a. current_active m = Some a \<longrightarrow>
        hm_get (active_snapshots m) (txn_ident a) = Some (snapshot_id a))"

lemma mgr_invI:
  assumes "hm_ok (txn_states m)" "hm_ok (active_snapshots m)" "distinct (active m)" "0 < next_txn_id m"
    and "\<And>t s. hm_get (txn_states m) t = Some s \<Longrightarrow> 0 < t \<and> t < next_txn_id m"
    and "\<And>t c. hm_get (txn_states m) t = Some (Committed c) \<Longrightarrow> 0 < c \<and> c \<le> commit_id m"
    and "\<And>t t' c. hm_get (txn_states m) t = Some (Committed c) \<Longrightarrow>
        hm_get (txn_states m) t' = Some (Committed c) \<Longrightarrow> t = t'"
    and "\<And>t. hm_get (txn_states m) t = Some InProgress \<longleftrightarrow> t \<in> set (active m)"
    and "\<And>t. t \<in> set (active m) \<longleftrightarrow> hm_get (active_snapshots m) t \<noteq> None"
    and "\<And>t s. hm_get (active_snapshots m) t = Some s \<Longrightarrow> s \<le> commit_id m"
    and "\<And>a. current_active m = Some a \<Longrightarrow>
        hm_get (active_snapshots m) (txn_ident a) = Some (snapshot_id a)"
  shows "mgr_inv m"
  unfolding mgr_inv_def using assms by blast

lemma mgr_invD:
  assumes "mgr_inv m"
  shows "hm_ok (txn_states m)" "hm_ok (active_snapshots m)" "distinct (active m)" "0 < next_txn_id m"
    and "hm_get (txn_states m) t = Some s \<Longrightarrow> 0 < t \<and> t < next_txn_id m"
    and "hm_get (txn_states m) t = Some (Committed c) \<Longrightarrow> 0 < c \<and> c \<le> commit_id m"
    and "hm_get (txn_states m) t = Some (Committed c) \<Longrightarrow>
        hm_get (txn_states m) t' = Some (Committed c) \<Longrightarrow> t = t'"
    and "hm_get (txn_states m) t = Some InProgress \<longleftrightarrow> t \<in> set (active m)"
    and "t \<in> set (active m) \<longleftrightarrow> hm_get (active_snapshots m) t \<noteq> None"
    and "hm_get (active_snapshots m) t = Some s' \<Longrightarrow> s' \<le> commit_id m"
    and "current_active m = Some a \<Longrightarrow>
        hm_get (active_snapshots m) (txn_ident a) = Some (snapshot_id a)"
  using assms unfolding mgr_inv_def by blast+

lemma mgr_inv_new: "mgr_inv mvcc_new"
  by (auto simp: mgr_inv_def mvcc_new_def hm_simps)

lemma mgr_inv_begin:
  assumes inv: "mgr_inv m" and room: "next_txn_id m + 1 < u64_bound"
  shows "mgr_inv (fst (begin_with_isolation m level))"
proof -
  note D = mgr_invD [OF inv]
  have fresh: "hm_get (txn_states m) (next_txn_id m) = None"
    using D(5) [of "next_txn_id m"] by fastforce
  have inact: "next_txn_id m \<notin> set (active m)"
    using D(8) [of "next_txn_id m"] fresh by simp
  have inc: "u64_inc (next_txn_id m) = Suc (next_txn_id m)"
    using room by (rule u64_inc_Suc)
  show ?thesis
  proof (rule mgr_invI, goal_cases)
    case (5 t s) thus ?case
      using D(4) D(5) [of t] by (auto simp: begin_with_isolation_def Let_def hm_simps inc split: if_splits)
  next
    case (6 t c) thus ?case
      using D(6) [of t c] by (auto simp: begin_with_isolation_def Let_def hm_simps split: if_splits)
  next
    case (7 t t' c) thus ?case
      using D(7) [of t c t'] by (auto simp: begin_with_isolation_def Let_def hm_simps split: if_splits)
  next
    case (8 t) show ?case
      using D(8) [of t] by (auto simp: begin_with_isolation_def Let_def hm_simps)
  next
    case (9 t) show ?case
      using D(9) [of t] by (auto simp: begin_with_isolation_def Let_def hm_simps)
  next
    case (10 t s) thus ?case
      using D(10) [of t] by (auto simp: begin_with_isolation_def Let_def hm_simps split: if_splits)
  qed (use D inc in \<open>auto simp: begin_with_isolation_def Let_def hm_simps\<close>)
qed

lemma mgr_inv_clear_active:
  assumes inv: "mgr_inv m" and act: "hm_get (txn_states m) t = Some InProgress"
    and st: "s \<noteq> InProgress" "\<And>c. s = Committed c \<Longrightarrow> commit_id m < c \<and> c \<le> cid"
    and cid: "commit_id m \<le> cid"
  shows "mgr_inv (clear_active (m\<lparr>commit_id := cid, txn_states := hm_insert (txn_states m) t s\<rparr>) t)"
proof -
  note D = mgr_invD [OF inv]
  show ?thesis
  proof (rule mgr_invI, goal_cases)
    case (5 u v) thus ?case
      using D(5) [of u] D(5) [of t] act by (auto simp: clear_active_def hm_simps split: if_splits)
  next
    case (6 u c) thus ?case
      using D(6) [of u c] st(2) [of c] cid by (auto simp: clear_active_def hm_simps split: if_splits)
  next
    case (7 u u' c) thus ?case
      using D(6) [of u c] D(6) [of u' c] D(7) [of u c u'] st(2) [of c]
      by (auto simp: clear_active_def hm_simps split: if_splits)
  next
    case (8 u) show ?case
      using D(8) [of u] st(1) by (auto simp: clear_active_def hm_simps)
  next
    case (9 u) show ?case
      using D(9) [of u] by (auto simp: clear_active_def hm_simps)
  next
    case (10 u v) thus ?case
      using D(10) [of u] cid by (fastforce simp: clear_active_def hm_simps split: if_splits)
  next
    case (11 a) thus ?case
      using D(11) by (auto simp: clear_active_def hm_simps split: if_splits option.splits)
  qed (use D in \<open>auto simp: clear_active_def hm_simps distinct_removeAll\<close>)
qed

lemma mgr_inv_commit:
  assumes "mgr_inv m" "hm_get (txn_states m) t = Some InProgress" "commit_id m + 1 < u64_bound"
  shows "mgr_inv (fst (mvcc_commit m t))"
  using mgr_inv_clear_active [OF assms(1,2), of "Committed (u64_inc (commit_id m))" "u64_inc (commit_id m)"]
    u64_inc_Suc [OF assms(3)]
  by (simp add: mvcc_commit_def Let_def)

lemma mgr_inv_rollback:
  assumes "mgr_inv m" "hm_get (txn_states m) t = Some InProgress"
  shows "mgr_inv (mvcc_rollback m t)"
  using mgr_inv_clear_active [OF assms, of Aborted "commit_id m"]
  by (simp add: mvcc_rollback_def)

lemma mgr_inv_cleanup:
  assumes inv: "mgr_inv m"
  shows "mgr_inv (fst (cleanup_aborted m))"
proof -
  note D = mgr_invD [OF inv]
  have get: "hm_get (hm_retain (\<lambda>_ state. state \<noteq> Aborted) (txn_states m)) t = Some s \<longleftrightarrow>
      hm_get (txn_states m) t = Some s \<and> s \<noteq> Aborted" for t s
    by (auto simp: hm.get_retain [OF D(1)] split: option.splits)
  show ?thesis
    by (rule mgr_invI) (use D in \<open>auto simp: cleanup_aborted_def Let_def get hm_ok_laws\<close>)
qed

lemmas mgr_inv_ops = mgr_inv_new mgr_inv_begin mgr_inv_commit mgr_inv_rollback mgr_inv_cleanup

end
