(* ===== verification/Mvcc_Isolation.thy ===== *)
theory Mvcc_Isolation
  imports Mvcc
begin

text \<open>
  What the MVCC manager guarantees to its clients, over all interleavings of its public
  operations. A database state is the manager with its tables; \<open>db_step\<close> has one rule
  per call of the interface (\<^verbatim>\<open>src/txn/mvcc.rs\<close>), labelled with the transaction that
  makes it. The guards are the protocol of the callers: a transaction is finished once, a
  writer holds the handle \<open>begin\<close> gave it, and the u64 counters have room.
\<close>

section \<open>Steps of the transaction interface\<close>

record db =
  mgr :: mvcc_txn_manager
  tables :: "mvcc_table list"

definition in_progress :: "mvcc_txn_manager \<Rightarrow> txn_id \<Rightarrow> bool" where
  "in_progress m u \<longleftrightarrow> hm_get (txn_states m) u = Some InProgress"

definition live_handle :: "mvcc_txn_manager \<Rightarrow> mvcc_transaction \<Rightarrow> bool" where
  "live_handle m txn \<longleftrightarrow> in_progress m (txn_ident txn) \<and>
     hm_get (active_snapshots m) (txn_ident txn) = Some (snapshot_id txn)"

inductive db_step :: "txn_id option \<Rightarrow> db \<Rightarrow> db \<Rightarrow> bool" where
  step_begin: "next_txn_id (mgr d) + 1 < u64_bound \<Longrightarrow>
     db_step None d (d\<lparr>mgr := fst (begin_with_isolation (mgr d) level)\<rparr>)"
| step_commit: "in_progress (mgr d) u \<Longrightarrow> commit_id (mgr d) + 1 < u64_bound \<Longrightarrow>
     db_step (Some u) d (d\<lparr>mgr := fst (mvcc_commit (mgr d) u)\<rparr>)"
| step_rollback: "in_progress (mgr d) u \<Longrightarrow>
     db_step (Some u) d (d\<lparr>mgr := mvcc_rollback (mgr d) u\<rparr>)"
| step_insert: "in_progress (mgr d) u \<Longrightarrow> k < length (tables d) \<Longrightarrow>
     db_step (Some u) d (d\<lparr>tables := (tables d)[k := fst (mvcc_table_insert (tables d ! k) u vals)]\<rparr>)"
| step_update: "live_handle (mgr d) txn \<Longrightarrow> k < length (tables d) \<Longrightarrow>
     update_with_conflict_check (mgr d) (tables d ! k) txn row_idx vals = Inr t' \<Longrightarrow>
     db_step (Some (txn_ident txn)) d (d\<lparr>tables := (tables d)[k := t']\<rparr>)"
| step_delete: "live_handle (mgr d) txn \<Longrightarrow> k < length (tables d) \<Longrightarrow>
     delete_with_conflict_check (mgr d) (tables d ! k) txn row_idx = Inr t' \<Longrightarrow>
     db_step (Some (txn_ident txn)) d (d\<lparr>tables := (tables d)[k := t']\<rparr>)"
| step_vacuum: "db_step None d (d\<lparr>tables := fst (vacuum (mgr d) (tables d))\<rparr>)"
| step_cleanup: "db_step None d (d\<lparr>mgr := fst (cleanup_aborted (mgr d))\<rparr>)"

definition db_init :: "mvcc_table list \<Rightarrow> db" where
  "db_init ts = \<lparr>mgr = mvcc_new, tables = map (\<lambda>t. mvcc_table_new (mt_name t) (mt_column_names t)) ts\<rparr>"

inductive db_reachable :: "db \<Rightarrow> bool" where
  reach_init: "db_reachable (db_init ts)"
| reach_step: "db_reachable d \<Longrightarrow> db_step l d d' \<Longrightarrow> db_reachable d'"

text \<open>Any number of steps, none of them made by transaction \<open>t\<close>.\<close>

inductive others_run :: "txn_id \<Rightarrow> db \<Rightarrow> db \<Rightarrow> bool" for t where
  others_refl: "others_run t d d"
| others_step: "others_run t d d' \<Longrightarrow> db_step l d' d'' \<Longrightarrow> l \<noteq> Some t \<Longrightarrow> others_run t d d''"

text \<open>Any number of writes of transaction \<open>u\<close>, after each of which it is still running.\<close>

inductive own_writes :: "txn_id \<Rightarrow> db \<Rightarrow> db \<Rightarrow> bool" for u where
  own_refl: "own_writes u d d"
| own_step: "own_writes u d d' \<Longrightarrow> db_step (Some u) d' d'' \<Longrightarrow> in_progress (mgr d'') u \<Longrightarrow> own_writes u d d''"

text \<open>The rows a transaction reads from table \<open>k\<close>.\<close>

definition read_rows :: "db \<Rightarrow> nat \<Rightarrow> mvcc_transaction \<Rightarrow> u64 list list" where
  "read_rows d k txn = map row_values (scan_visible (mgr d) (tables d ! k) txn)"

text \<open>The chain with every trace of transaction \<open>u\<close> taken out.\<close>

definition strip_txn :: "txn_id \<Rightarrow> version_chain \<Rightarrow> version_chain" where
  "strip_txn u c =
     map (\<lambda>v. if xmax v = Some u then v\<lparr>xmax := None\<rparr> else v) (filter (\<lambda>v. xmin v \<noteq> u) c)"

text \<open>History is append-only: versions keep creator and values, and a deleter once recorded stays.\<close>

definition chain_extends :: "version_chain \<Rightarrow> version_chain \<Rightarrow> bool" where
  "chain_extends c c' \<longleftrightarrow> length c \<le> length c' \<and>
     (\<forall>i<length c. xmin (c' ! i) = xmin (c ! i) \<and> row_values (c' ! i) = row_values (c ! i) \<and>
        (xmax (c ! i) = None \<or> xmax (c' ! i) = xmax (c ! i)))"

section \<open>Invariant and handles\<close>

lemma db_step_mgr_inv: "db_step l d d' \<Longrightarrow> mgr_inv (mgr d) \<Longrightarrow> mgr_inv (mgr d')"
  by (induction rule: db_step.induct) (auto intro: mgr_inv_ops simp: in_progress_def)

lemma reachable_mgr_inv: "db_reachable d \<Longrightarrow> mgr_inv (mgr d)"
  by (induction rule: db_reachable.induct) (auto intro: db_step_mgr_inv mgr_inv_new simp: db_init_def)

lemma live_handle_reader_ok:
  "mgr_inv m \<Longrightarrow> live_handle m txn \<Longrightarrow> txn_reader_ok m txn"
  using oldest_le_active [of m "txn_ident txn"] mgr_invD(2) [of m]
  by (auto simp: live_handle_def in_progress_def txn_reader_ok_def)

lemma live_handle_snapshot: "mgr_inv m \<Longrightarrow> live_handle m txn \<Longrightarrow> snapshot_id txn \<le> commit_id m"
  by (auto simp: live_handle_def dest: mgr_invD(10))

lemma live_handle_step:
  assumes "db_step l d d'" "mgr_inv (mgr d)" "live_handle (mgr d) txn" "l \<noteq> Some (txn_ident txn)"
  shows "live_handle (mgr d') txn"
  using assms
proof (induction rule: db_step.induct)
  case (step_begin d level)
  have "txn_ident txn < next_txn_id (mgr d)"
    using step_begin mgr_invD(5) [of "mgr d" "txn_ident txn"]
    by (auto simp: live_handle_def in_progress_def)
  with step_begin show ?case
    by (auto simp: live_handle_def in_progress_def begin_with_isolation_def Let_def hm_simps)
next
  case (step_cleanup d)
  then show ?case
    using mgr_invD(1) [of "mgr d"]
    by (auto simp: live_handle_def in_progress_def cleanup_aborted_def Let_def hm.get_retain)
qed (auto simp: live_handle_def in_progress_def mvcc_commit_def mvcc_rollback_def clear_active_def
                Let_def hm_simps)

section \<open>What a snapshot reader is shown\<close>

lemma visible_cong:
  assumes "\<And>a. txn_visible_to_snapshot m' a (snapshot_id txn) = txn_visible_to_snapshot m a (snapshot_id txn)"
    and "isolation_level txn \<noteq> ReadUncommitted"
  shows "visible m' v txn = visible m v txn"
  using assms(2) by (cases "isolation_level txn") (simp_all add: visible_def Let_def assms(1) split: option.split)

lemma scan_visible_cong:
  assumes "\<And>v. visible m' v txn = visible m v txn"
  shows "scan_visible m' t txn = scan_visible m t txn"
  unfolding scan_visible_def using assms by presburger

lemma snapshot_frame:
  assumes "db_step l d d'" "mgr_inv (mgr d)" "snap \<le> commit_id (mgr d)"
  shows "txn_visible_to_snapshot (mgr d') a snap = txn_visible_to_snapshot (mgr d) a snap"
  using assms
proof (induction rule: db_step.induct)
  case (step_begin d level)
  have "hm_get (txn_states (mgr d)) (next_txn_id (mgr d)) = None"
    using mgr_invD(5) [OF step_begin.prems(1), of "next_txn_id (mgr d)"] by fastforce
  then show ?case
    by (simp add: txn_visible_to_snapshot_def begin_with_isolation_def Let_def hm_simps)
next
  case (step_commit d u)
  then show ?case
    using u64_inc_Suc [of "commit_id (mgr d)"]
    by (simp add: txn_visible_to_snapshot_def mvcc_commit_def clear_active_def Let_def hm_simps in_progress_def)
next
  case (step_rollback d u)
  then show ?case
    by (simp add: txn_visible_to_snapshot_def mvcc_rollback_def clear_active_def hm_simps in_progress_def)
next
  case (step_cleanup d)
  then show ?case
    using mgr_invD(1) [of "mgr d"]
    by (simp add: txn_visible_to_snapshot_def cleanup_aborted_def Let_def hm.get_retain
             split: option.splits txn_state.splits)
qed simp_all

lemma map_filter_map: "List.map_filter f (map g xs) = List.map_filter (\<lambda>x. f (g x)) xs"
  by (induction xs) (simp_all add: List.map_filter_simps split: option.split)

text \<open>Reading row by row.\<close>

definition newest_values :: "mvcc_txn_manager \<Rightarrow> mvcc_transaction \<Rightarrow> version_chain \<Rightarrow> u64 list option" where
  "newest_values m txn c = map_option row_values (find_rev (\<lambda>v. visible m v txn) c)"

lemma read_rows_newest: "read_rows d k txn =
    List.map_filter (newest_values (mgr d) txn) (mt_rows (tables d ! k))"
proof -
  have "map row_values (List.map_filter (find_rev (\<lambda>v. visible m v txn)) cs) =
      List.map_filter (newest_values m txn) cs" for m cs
    by (induction cs) (auto simp: List.map_filter_simps newest_values_def split: option.split)
  then show ?thesis by (simp add: read_rows_def scan_visible_def)
qed

lemma map_filter_update_same:
  "f c' = f (xs ! i) \<Longrightarrow> List.map_filter f (xs[i := c']) = List.map_filter f xs"
  by (induction xs arbitrary: i) (auto simp: List.map_filter_simps split: nat.split option.split)

text \<open>Writes of a transaction that has not committed do not show to any other snapshot reader.\<close>

definition invisible_writer :: "mvcc_txn_manager \<Rightarrow> mvcc_transaction \<Rightarrow> txn_id \<Rightarrow> bool" where
  "invisible_writer m txn u \<longleftrightarrow> u \<noteq> txn_ident txn \<and> in_progress m u \<and>
     isolation_level txn \<noteq> ReadUncommitted"

lemma invisible_new:
  "invisible_writer m txn u \<Longrightarrow> \<not> visible m (row_version_new u vals) txn"
  by (cases "isolation_level txn")
     (auto simp: invisible_writer_def visible_def row_version_new_def txn_visible_to_snapshot_def
                 in_progress_def Let_def)

lemma visible_mark:
  "invisible_writer m txn u \<Longrightarrow> xmax v = None \<Longrightarrow>
   visible m (row_version_delete v u) txn = visible m v txn"
  by (cases "isolation_level txn")
     (auto simp: invisible_writer_def visible_def row_version_delete_def txn_visible_to_snapshot_def
                 in_progress_def Let_def)

lemma newest_values_mark:
  assumes "invisible_writer m txn u" "c \<noteq> []" "xmax (last c) = None"
  shows "newest_values m txn (update_last (\<lambda>v. row_version_delete v u) c) = newest_values m txn c"
proof -
  obtain xs x where c: "c = xs @ [x]" using assms(2) by (cases c rule: rev_exhaust) auto
  with assms visible_mark [of m txn u x] show ?thesis
    by (simp add: newest_values_def update_last_def) (simp add: row_version_delete_def)
qed

lemma newest_values_append_new:
  "invisible_writer m txn u \<Longrightarrow>
   newest_values m txn (c @ [row_version_new u vals]) = newest_values m txn c"
  by (simp add: newest_values_def invisible_new)

lemmas newest_values_write = newest_values_mark newest_values_append_new

lemma update_frame:
  assumes "invisible_writer m txn u"
  shows "List.map_filter (newest_values m txn) (mt_rows (fst (mvcc_table_update t u row_idx vals))) =
         List.map_filter (newest_values m txn) (mt_rows t)"
  using assms
  by (auto simp: mvcc_table_update_def newest_values_write slice_get_def
           intro!: map_filter_update_same split: option.splits)

lemma delete_frame:
  assumes "invisible_writer m txn u"
  shows "List.map_filter (newest_values m txn) (mt_rows (fst (mvcc_table_delete t u row_idx))) =
         List.map_filter (newest_values m txn) (mt_rows t)"
  using assms
  by (auto simp: mvcc_table_delete_def newest_values_write slice_get_def
           intro!: map_filter_update_same split: option.splits)

lemma insert_frame:
  assumes "invisible_writer m txn u"
  shows "List.map_filter (newest_values m txn) (mt_rows (fst (mvcc_table_insert t u vals))) =
         List.map_filter (newest_values m txn) (mt_rows t)"
  using newest_values_append_new [OF assms, of "[]" vals]
  by (simp add: mvcc_table_insert_def Let_def List.map_filter_def newest_values_def)

lemma vacuum_frame:
  assumes "txn_reader_ok m txn" "k < length ts"
  shows "scan_visible m (fst (vacuum m ts) ! k) txn = scan_visible m (ts ! k) txn"
  using txn_reader.scan_after_gc [OF assms(1)] assms(2)
  by (simp add: vacuum_def scan_visible_def vacuum_chains_def Let_def)

lemma visible_kept_later:
  assumes "mgr_inv m" "begin_with_isolation m level = (m', txn')" "visible m' v txn'"
  shows "vacuum_keep m (oldest_active_snapshot m) v"
proof -
  have fresh: "hm_get (txn_states m) (next_txn_id m) = None"
    using mgr_invD(5) [OF assms(1), of "next_txn_id m"] by fastforce
  have txn': "txn_ident txn' = next_txn_id m" "snapshot_id txn' = commit_id m"
    and m': "txn_states m' = hm_insert (txn_states m) (next_txn_id m) InProgress"
    using assms(2) by (auto simp: begin_with_isolation_def Let_def)
  have "txn_visible_to_snapshot m' x (commit_id m)" if "txn_visible_to_snapshot m x (oldest_active_snapshot m)" for x
    using txn_visible_mono [OF that oldest_le_commit] fresh
    by (auto simp: txn_visible_to_snapshot_def m' hm_simps)
  then show ?thesis
    using visibleD [OF assms(3)] fresh by (auto simp: vacuum_keep_iff txn' m' hm_simps split: if_splits)
qed

lemma vacuum_frame_later:
  assumes "mgr_inv m" "begin_with_isolation m level = (m', txn')" "k < length ts"
  shows "scan_visible m' (fst (vacuum m ts) ! k) txn' = scan_visible m' (ts ! k) txn'"
proof -
  have "find_rev (\<lambda>v. visible m' v txn') (filter (vacuum_keep m (oldest_active_snapshot m)) c) =
      find_rev (\<lambda>v. visible m' v txn') c" for c
    by (rule find_rev_filter) (rule visible_kept_later [OF assms(1,2)])
  then show ?thesis
    using assms(3) by (simp add: vacuum_def scan_visible_def vacuum_chains_def Let_def map_filter_map)
qed

lemma read_rows_step:
  assumes "db_step l d d'" "mgr_inv (mgr d)" "live_handle (mgr d) txn" "l \<noteq> Some (txn_ident txn)"
    and "isolation_level txn \<noteq> ReadUncommitted" "k < length (tables d)"
  shows "read_rows d' k txn = read_rows d k txn"
proof -
  have vis: "visible (mgr d') v txn = visible (mgr d) v txn" for v
    using snapshot_frame [OF assms(1,2) live_handle_snapshot [OF assms(2,3)]] assms(5)
    by (rule visible_cong)
  have mgr_only: "read_rows d' k txn = read_rows d k txn" if "tables d' = tables d"
    using scan_visible_cong [OF vis] that by (simp add: read_rows_def)
  have writer: "invisible_writer (mgr d) txn u" if "l = Some u" "in_progress (mgr d) u" for u
    using that assms(4,5) by (auto simp: invisible_writer_def)
  show ?thesis
    using assms(1)
  proof cases
    case (step_insert u j vals)
    with writer insert_frame [of "mgr d" txn u "tables d ! j" vals] show ?thesis
      by (cases "k = j") (simp_all add: read_rows_newest)
  next
    case (step_update u j row_idx vals t')
    with writer update_frame [of "mgr d" txn "txn_ident u" "tables d ! j" row_idx vals] show ?thesis
      by (cases "k = j") (auto simp: read_rows_newest update_with_conflict_check_def live_handle_def
                               split: sum.splits)
  next
    case (step_delete u j row_idx t')
    with writer delete_frame [of "mgr d" txn "txn_ident u" "tables d ! j" row_idx] show ?thesis
      by (cases "k = j") (auto simp: read_rows_newest delete_with_conflict_check_def live_handle_def
                               split: sum.splits)
  next
    case step_vacuum
    with vacuum_frame [OF live_handle_reader_ok [OF assms(2,3)] assms(6)] show ?thesis
      by (simp add: read_rows_def)
  qed (use mgr_only in simp_all)
qed

lemma db_step_tables_length: "db_step l d d' \<Longrightarrow> length (tables d') = length (tables d)"
  by (induction rule: db_step.induct) (simp_all add: vacuum_def Let_def)

lemma others_run_frame:
  assumes "others_run (txn_ident txn) d d'" "mgr_inv (mgr d)" "live_handle (mgr d) txn"
    and "isolation_level txn \<noteq> ReadUncommitted" "k < length (tables d)"
  shows "mgr_inv (mgr d') \<and> live_handle (mgr d') txn \<and> k < length (tables d') \<and>
         read_rows d' k txn = read_rows d k txn"
  using assms
  by (induction rule: others_run.induct)
     (auto intro: db_step_mgr_inv live_handle_step simp: db_step_tables_length read_rows_step)

section \<open>Rolled back transactions\<close>

lemma rollback_invisible:
  "u \<noteq> txn_ident txn \<Longrightarrow> xmin v = u \<Longrightarrow> \<not> visible (mvcc_rollback m u) v txn"
  by (cases "isolation_level txn")
     (auto simp: visible_def mvcc_rollback_def clear_active_def hm_simps txn_visible_to_snapshot_def Let_def)

lemma rollback_ignored:
  "u \<noteq> txn_ident txn \<Longrightarrow> xmax v = Some u \<Longrightarrow>
   visible (mvcc_rollback m u) (v\<lparr>xmax := None\<rparr>) txn = visible (mvcc_rollback m u) v txn"
  by (cases "isolation_level txn") (auto simp: visible_def mvcc_rollback_def clear_active_def hm_simps txn_visible_to_snapshot_def Let_def)

lemma newest_values_strip:
  assumes "u \<noteq> txn_ident txn"
  shows "newest_values (mvcc_rollback m u) txn (strip_txn u c) = newest_values (mvcc_rollback m u) txn c"
proof -
  let ?vis = "\<lambda>v. visible (mvcc_rollback m u) v txn"
  let ?f = "\<lambda>v. if xmax v = Some u then v\<lparr>xmax := None\<rparr> else v"
  have "find_rev ?vis (strip_txn u c) = map_option ?f (find_rev ?vis (filter (\<lambda>v. xmin v \<noteq> u) c))"
    unfolding strip_txn_def by (rule find_rev_map) (auto simp: rollback_ignored [OF assms])
  also have "find_rev ?vis (filter (\<lambda>v. xmin v \<noteq> u) c) = find_rev ?vis c"
    by (rule find_rev_filter) (use rollback_invisible [OF assms] in auto)
  finally show ?thesis
    by (auto simp: newest_values_def option.map_comp comp_def intro!: option.map_cong)
qed

text \<open>Every identifier recorded in a version is that of a transaction that has begun.\<close>

definition ids_below :: "nat \<Rightarrow> mvcc_table \<Rightarrow> bool" where
  "ids_below n t \<longleftrightarrow> (\<forall>c\<in>set (mt_rows t). \<forall>v\<in>set c. xmin v < n \<and> (\<forall>x. xmax v = Some x \<longrightarrow> x < n))"

lemma in_progress_below: "mgr_inv m \<Longrightarrow> in_progress m u \<Longrightarrow> u < next_txn_id m"
  using mgr_invD(5) [of m u] by (simp add: in_progress_def)

lemma ids_below_mono: "ids_below n t \<Longrightarrow> n \<le> n' \<Longrightarrow> ids_below n' t"
  unfolding ids_below_def by (meson order_less_le_trans)

lemma ids_below_fresh:
  "ids_below n t \<Longrightarrow> c \<in> set (mt_rows t) \<Longrightarrow> v \<in> set c \<Longrightarrow> xmin v \<noteq> n \<and> xmax v \<noteq> Some n"
  unfolding ids_below_def by (metis less_irrefl)

lemma set_update_last: "c \<noteq> [] \<Longrightarrow> set (update_last f c) \<subseteq> insert (f (last c)) (set c)"
  by (cases c rule: rev_exhaust) (auto simp: update_last_def)

lemma ids_below_update_row:
  assumes "ids_below n t" "\<And>v. v \<in> set c \<Longrightarrow> xmin v < n \<and> (\<forall>x. xmax v = Some x \<longrightarrow> x < n)"
  shows "ids_below n (t\<lparr>mt_rows := (mt_rows t)[r := c]\<rparr>)"
  using assms set_update_subset_insert [of "mt_rows t" r c] unfolding ids_below_def by fastforce

lemma ids_below_writes:
  assumes "ids_below n t" "u < n"
  shows "ids_below n (fst (mvcc_table_insert t u vals))"
    and "ids_below n (fst (mvcc_table_update t u r vals))"
    and "ids_below n (fst (mvcc_table_delete t u r))"
proof -
  show "ids_below n (fst (mvcc_table_insert t u vals))"
    using assms by (auto simp: ids_below_def mvcc_table_insert_def Let_def row_version_new_def)
  have marked: "xmin v < n \<and> (\<forall>x. xmax v = Some x \<longrightarrow> x < n)"
    if "slice_get (mt_rows t) r = Some c" "c \<noteq> []" "v \<in> set (update_last (\<lambda>v. row_version_delete v u) c)" for c v
  proof -
    have "c \<in> set (mt_rows t)"
      using that(1) by (auto simp: slice_get_def split: if_splits)
    moreover have "v = row_version_delete (last c) u \<or> v \<in> set c"
      using set_update_last [OF that(2)] that(3) by fastforce
    ultimately show ?thesis
      using assms that(2) last_in_set [OF that(2)] by (auto simp: ids_below_def row_version_delete_def)
  qed
  show "ids_below n (fst (mvcc_table_delete t u r))"
    using assms(1) marked by (auto simp: mvcc_table_delete_def split: option.split intro!: ids_below_update_row)
  show "ids_below n (fst (mvcc_table_update t u r vals))"
    using assms marked
    by (auto simp: mvcc_table_update_def row_version_new_def split: option.split intro!: ids_below_update_row)
qed

lemma db_step_ids_below:
  assumes "db_step l d d'" "mgr_inv (mgr d)" "list_all (ids_below (next_txn_id (mgr d))) (tables d)"
  shows "list_all (ids_below (next_txn_id (mgr d'))) (tables d')"
  using assms
proof (induction rule: db_step.induct)
  case (step_begin d level)
  then show ?case
    using u64_inc_Suc [of "next_txn_id (mgr d)"]
    by (auto simp: begin_with_isolation_def Let_def list_all_iff intro: ids_below_mono)
next
  case (step_insert d u k vals)
  then show ?case
    using ids_below_writes(1) [OF _ in_progress_below]
    by (auto simp: list_all_length nth_list_update)
next
  case (step_update d txn k row_idx vals t')
  then show ?case
    using ids_below_writes(2) [OF _ in_progress_below]
    by (auto simp: list_all_length nth_list_update update_with_conflict_check_def live_handle_def split: sum.splits)
next
  case (step_delete d txn k row_idx t')
  then show ?case
    using ids_below_writes(3) [OF _ in_progress_below]
    by (auto simp: list_all_length nth_list_update delete_with_conflict_check_def live_handle_def split: sum.splits)
next
  case (step_vacuum d)
  then show ?case
    by (auto simp: list_all_iff vacuum_def vacuum_chains_def Let_def ids_below_def)
qed (simp_all add: mvcc_commit_def mvcc_rollback_def clear_active_def cleanup_aborted_def Let_def)

lemma reachable_ids_below: "db_reachable d \<Longrightarrow> list_all (ids_below (next_txn_id (mgr d))) (tables d)"
proof (induction rule: db_reachable.induct)
  case (reach_init ts)
  then show ?case by (simp add: db_init_def mvcc_table_new_def ids_below_def list_all_iff)
next
  case (reach_step d l d')
  then show ?case by (blast intro: db_step_ids_below reachable_mgr_inv)
qed

text \<open>What is left of a table without a transaction's traces; its writes do not change it.\<close>

definition stripped_rows :: "txn_id \<Rightarrow> mvcc_table \<Rightarrow> version_chain list" where
  "stripped_rows u t = filter (\<lambda>c. c \<noteq> []) (map (strip_txn u) (mt_rows t))"

lemma strip_mark:
  "c \<noteq> [] \<Longrightarrow> xmax (last c) = None \<Longrightarrow>
   strip_txn u (update_last (\<lambda>v. row_version_delete v u) c) = strip_txn u c"
  by (cases c rule: rev_exhaust) (auto simp: strip_txn_def update_last_def row_version_delete_def)

lemma strip_append_new: "strip_txn u (c @ [row_version_new u vals]) = strip_txn u c"
  by (simp add: strip_txn_def row_version_new_def)

lemma stripped_update_row:
  "slice_get (mt_rows t) r = Some c \<Longrightarrow> strip_txn u c' = strip_txn u c \<Longrightarrow>
   stripped_rows u (t\<lparr>mt_rows := (mt_rows t)[r := c']\<rparr>) = stripped_rows u t"
  by (auto simp: stripped_rows_def slice_get_def map_update split: if_splits) (metis list_update_id nth_map)

lemma stripped_writes:
  "stripped_rows u (fst (mvcc_table_insert t u vals)) = stripped_rows u t"
  "stripped_rows u (fst (mvcc_table_update t u r vals)) = stripped_rows u t"
  "stripped_rows u (fst (mvcc_table_delete t u r)) = stripped_rows u t"
proof -
  show "stripped_rows u (fst (mvcc_table_insert t u vals)) = stripped_rows u t"
    using strip_append_new [of u "[]" vals] by (simp add: stripped_rows_def mvcc_table_insert_def Let_def strip_txn_def)
qed (auto simp: mvcc_table_update_def mvcc_table_delete_def strip_mark strip_append_new
          split: option.split intro!: stripped_update_row)

lemma own_writes_frame:
  assumes "own_writes u d d'"
  shows "mgr d' = mgr d \<and> map (stripped_rows u) (tables d') = map (stripped_rows u) (tables d)"
  using assms
proof (induction rule: own_writes.induct)
  case (own_step d d' d'')
  from own_step.hyps(2) have "mgr d'' = mgr d' \<and> map (stripped_rows u) (tables d'') = map (stripped_rows u) (tables d')"
  proof cases
    case (step_commit)
    then show ?thesis
      using own_step.hyps(3) by (simp add: in_progress_def mvcc_commit_def clear_active_def Let_def hm_simps)
  next
    case (step_rollback)
    then show ?thesis
      using own_step.hyps(3) by (simp add: in_progress_def mvcc_rollback_def clear_active_def hm_simps)
  next
    case (step_insert k vals)
    then show ?thesis by (simp add: map_update stripped_writes list_update_same_conv)
  next
    case (step_update txn k row_idx vals t')
    then show ?thesis
      by (auto simp: map_update stripped_writes list_update_same_conv update_with_conflict_check_def split: sum.splits)
  next
    case (step_delete txn k row_idx t')
    then show ?thesis
      by (auto simp: map_update stripped_writes list_update_same_conv delete_with_conflict_check_def split: sum.splits)
  qed
  with own_step.IH show ?case by simp
qed simp

lemma map_filter_skip: "(\<And>x. x \<in> set xs \<Longrightarrow> \<not> P x \<Longrightarrow> f x = None) \<Longrightarrow> List.map_filter f (filter P xs) = List.map_filter f xs"
  by (induction xs) (auto simp: List.map_filter_simps split: option.split)

lemma rows_after_rollback:
  assumes "u \<noteq> txn_ident txn"
  shows "List.map_filter (newest_values (mvcc_rollback m u) txn) (mt_rows t) =
    List.map_filter (newest_values (mvcc_rollback m u) txn) (stripped_rows u t)"
proof -
  let ?n = "newest_values (mvcc_rollback m u) txn"
  have "List.map_filter ?n (stripped_rows u t) = List.map_filter ?n (map (strip_txn u) (mt_rows t))"
    unfolding stripped_rows_def by (rule map_filter_skip) (simp add: newest_values_def)
  then show ?thesis
    by (simp add: map_filter_map newest_values_strip [OF assms])
qed

lemma newest_values_cong:
  "(\<And>v. v \<in> set c \<Longrightarrow> visible m v txn = visible m' v txn) \<Longrightarrow> newest_values m txn c = newest_values m' txn c"
  unfolding newest_values_def by (rule arg_cong [where f = "map_option row_values"]) (induction c rule: rev_induct; simp)

lemma visible_states_cong:
  assumes "\<And>x. x \<noteq> u \<Longrightarrow> hm_get (txn_states m) x = hm_get (txn_states m') x" "xmin v \<noteq> u" "xmax v \<noteq> Some u"
  shows "visible m v txn = visible m' v txn"
  using assms by (cases "isolation_level txn"; cases "xmax v") (simp_all add: visible_def txn_visible_to_snapshot_def Let_def)

lemma map_filter_cong': "xs = ys \<Longrightarrow> (\<And>x. x \<in> set ys \<Longrightarrow> f x = g x) \<Longrightarrow> List.map_filter f xs = List.map_filter g ys"
  by (induction xs arbitrary: ys) (auto simp: List.map_filter_simps split: option.split)

lemma visible_snapshot:
  "isolation_level txn \<noteq> ReadUncommitted \<Longrightarrow> visible m v txn \<longleftrightarrow>
     (xmin v = txn_ident txn \<or> txn_visible_to_snapshot m (xmin v) (snapshot_id txn)) \<and>
     (case xmax v of None \<Rightarrow> True
      | Some x \<Rightarrow> x \<noteq> txn_ident txn \<and> \<not> txn_visible_to_snapshot m x (snapshot_id txn))"
  by (cases "isolation_level txn") (auto simp: visible_def Let_def split: option.splits)

lemma visible_after_commit:
  assumes "mgr_inv m" "live_handle m txn" "live_handle m other" "commit_id m + 1 < u64_bound"
    and "isolation_level txn \<noteq> ReadUncommitted"
  shows "visible (fst (mvcc_commit m (txn_ident other))) v txn = visible m v txn"
  using snapshot_frame [OF step_commit [of "\<lparr>mgr = m, tables = []\<rparr>" "txn_ident other"]]
    live_handle_snapshot [OF assms(1,2)] assms
  by (intro visible_cong) (simp_all add: live_handle_def)

lemma live_handle_rollback:
  "live_handle m txn \<Longrightarrow> u \<noteq> txn_ident txn \<Longrightarrow> live_handle (mvcc_rollback m u) txn"
  by (simp add: live_handle_def in_progress_def mvcc_rollback_def clear_active_def hm_simps)

lemma update_chain:
  assumes "slice_get (mt_rows t) r = Some c" "c \<noteq> []" "xmax (last c) = None" "update_with_conflict_check m t txn r vals = Inr t'"
  shows "slice_get (mt_rows t') r = Some (butlast c @ [row_version_delete (last c) (txn_ident txn), row_version_new (txn_ident txn) vals])"
  using assms
  by (auto simp: update_with_conflict_check_def mvcc_table_update_def slice_get_def update_last_def split: sum.splits if_splits)

lemma delete_chain:
  assumes "slice_get (mt_rows t) r = Some c" "c \<noteq> []" "xmax (last c) = None" "delete_with_conflict_check m t txn r = Inr t'"
  shows "slice_get (mt_rows t') r = Some (butlast c @ [row_version_delete (last c) (txn_ident txn)])"
  using assms
  by (auto simp: delete_with_conflict_check_def mvcc_table_delete_def slice_get_def update_last_def split: sum.splits if_splits)

lemma published:
  assumes "mgr_inv m" "live_handle m txn" "commit_id m + 1 < u64_bound"
    and "begin_with_isolation (fst (mvcc_commit m (txn_ident txn))) level = (m', txn')"
  shows "visible m' (row_version_new (txn_ident txn) vals) txn'"
proof -
  have "txn_ident txn < next_txn_id m"
    using assms(2) in_progress_below [OF assms(1)] by (simp add: live_handle_def)
  then show ?thesis
    using assms(4)
    by (cases level)
       (auto simp: visible_def row_version_new_def begin_with_isolation_def mvcc_commit_def clear_active_def
                   txn_visible_to_snapshot_def Let_def hm_simps)
qed

section \<open>After an aborted update\<close>

text \<open>A version stamped as deleted by a transaction that rolled back is read as if it were not, and
  raises no conflict.\<close>

lemma visible_aborted_mark:
  assumes "hm_get (txn_states m) a = Some Aborted" "a \<noteq> txn_ident txn" "xmax v = None"
  shows "visible m (row_version_delete v a) txn = visible m v txn"
  using assms by (cases "isolation_level txn") (auto simp: visible_def row_version_delete_def txn_visible_to_snapshot_def Let_def)

lemma aborted_invisible:
  "hm_get (txn_states m) (xmin v) = Some Aborted \<Longrightarrow> xmin v \<noteq> txn_ident txn \<Longrightarrow> \<not> visible m v txn"
  by (cases "isolation_level txn") (auto simp: visible_def txn_visible_to_snapshot_def Let_def)

lemma find_rev_skip: "(\<And>w. w \<in> set ws \<Longrightarrow> \<not> P w) \<Longrightarrow> find_rev P (xs @ ws) = find_rev P xs"
  by (induction ws rule: rev_induct) (simp_all flip: append_assoc)

lemma after_aborted_update:
  assumes "hm_get (txn_states m) a = Some Aborted" "a \<noteq> txn_ident txn" "xmax v = None" "visible m v txn"
    and "\<And>w. w \<in> set ws \<Longrightarrow> \<not> visible m w txn"
  shows "find_rev (\<lambda>v. visible m v txn) (pre @ row_version_delete v a # ws) = Some (row_version_delete v a)"
    and "slice_get (mt_rows t) r = Some (pre @ row_version_delete v a # ws) \<Longrightarrow> check_write_conflict m t txn r = Inr ()"
proof -
  show f: "find_rev (\<lambda>v. visible m v txn) (pre @ row_version_delete v a # ws) = Some (row_version_delete v a)"
    using find_rev_skip [of ws "\<lambda>v. visible m v txn" "pre @ [row_version_delete v a]"] assms
    by (simp add: visible_aborted_mark)
  show "slice_get (mt_rows t) r = Some (pre @ row_version_delete v a # ws) \<Longrightarrow> check_write_conflict m t txn r = Inr ()"
    using f assms(1) by (simp add: check_write_conflict_def row_version_delete_def)
qed

lemma visible_after_rollback:
  assumes "mgr_inv m" "live_handle m txn" "in_progress m u" "isolation_level txn \<noteq> ReadUncommitted"
  shows "visible (mvcc_rollback m u) v txn = visible m v txn"
  using snapshot_frame [OF step_rollback [of "\<lparr>mgr = m, tables = []\<rparr>" u]]
    live_handle_snapshot [OF assms(1,2)] assms
  by (intro visible_cong) simp_all

lemma visible_to_next:
  assumes "mgr_inv m" "live_handle m txn" "isolation_level txn \<noteq> ReadUncommitted" "visible m v txn" "xmax v = None"
    and "commit_id m + 1 < u64_bound" "begin_with_isolation (fst (mvcc_commit m (txn_ident txn))) level = (m', txn')"
  shows "visible m' v txn'"
proof -
  have "xmin v = txn_ident txn \<or> (\<exists>cid. hm_get (txn_states m) (xmin v) = Some (Committed cid) \<and> cid \<le> commit_id m)"
    using assms(4) live_handle_snapshot [OF assms(1,2)]
    by (auto simp: visible_snapshot [OF assms(3)] txn_visible_to_snapshot_def split: option.splits txn_state.splits)
  then have "xmin v < next_txn_id m"
    using in_progress_below [OF assms(1)] assms(2) mgr_invD(5) [OF assms(1)] by (auto simp: live_handle_def)
  with \<open>_ \<or> _\<close> show ?thesis
    using assms(2,5,7) u64_inc_Suc [OF assms(6)]
    by (cases level)
       (auto simp: visible_def begin_with_isolation_def mvcc_commit_def clear_active_def
                   txn_visible_to_snapshot_def Let_def hm_simps split: if_splits)
qed

text \<open>The state after transaction \<open>a\<close> has updated a live row that \<open>txn\<close> reads, and rolled back.\<close>

lemma rolled_back_update:
  assumes "mgr_inv m" "live_handle m a" "live_handle m txn" "txn_ident a \<noteq> txn_ident txn"
    and "isolation_level txn \<noteq> ReadUncommitted"
    and "slice_get (mt_rows t) r = Some c" "c \<noteq> []" "xmax (last c) = None" "visible m (last c) txn"
    and "update_with_conflict_check m t a r vals = Inr t1" "m1 = mvcc_rollback m (txn_ident a)"
  shows "mgr_inv m1" "live_handle m1 txn" "commit_id m1 = commit_id m"
    and "hm_get (txn_states m1) (txn_ident a) = Some Aborted" "visible m1 (last c) txn"
    and "slice_get (mt_rows t1) r =
      Some (butlast c @ row_version_delete (last c) (txn_ident a) # [row_version_new (txn_ident a) vals])"
    and "check_write_conflict m1 t1 txn r = Inr ()"
proof -
  have a: "in_progress m (txn_ident a)"
    using assms(2) by (simp add: live_handle_def)
  show "mgr_inv m1" "live_handle m1 txn" "commit_id m1 = commit_id m"
    using mgr_inv_rollback [OF assms(1)] a live_handle_rollback [OF assms(3,4)]
    by (simp_all add: assms(11) in_progress_def mvcc_rollback_def clear_active_def)
  show ab: "hm_get (txn_states m1) (txn_ident a) = Some Aborted"
    by (simp add: assms(11) mvcc_rollback_def clear_active_def hm_simps)
  show vis: "visible m1 (last c) txn"
    using visible_after_rollback [OF assms(1,3) a assms(5)] assms(9) by (simp add: assms(11))
  show chain: "slice_get (mt_rows t1) r =
      Some (butlast c @ row_version_delete (last c) (txn_ident a) # [row_version_new (txn_ident a) vals])"
    using update_chain [OF assms(6-8,10)] by simp
  have "\<not> visible m1 (row_version_new (txn_ident a) vals) txn"
    using aborted_invisible [of m1 "row_version_new (txn_ident a) vals" txn] ab assms(4) by (simp add: row_version_new_def)
  then show "check_write_conflict m1 t1 txn r = Inr ()"
    using after_aborted_update(2) [OF ab assms(4,8) vis _ chain] by simp
qed

lemma delete_after_aborted_update:
  assumes "mgr_inv m1" "live_handle m1 txn" "isolation_level txn \<noteq> ReadUncommitted" "commit_id m1 + 1 < u64_bound"
    and "hm_get (txn_states m1) a = Some Aborted" "visible m1 v txn" "xmax v = None" "a \<noteq> txn_ident txn"
    and "slice_get (mt_rows t1) r = Some (pre @ row_version_delete v a # [row_version_new a vals])"
    and "check_write_conflict m1 t1 txn r = Inr ()"
    and "begin_with_isolation (fst (mvcc_commit m1 (txn_ident txn))) level = (m3, reader)"
  shows "\<exists>t2. delete_with_conflict_check m1 t1 txn r = Inr t2 \<and> snd (mvcc_table_delete t1 (txn_ident txn) r) \<and>
    find_rev (\<lambda>v. visible m3 v reader) (mvcc_row_versions t2 r) = Some (row_version_delete v a)"
proof -
  let ?w = "row_version_delete (row_version_new a vals) (txn_ident txn)"
  obtain t2 where t2: "delete_with_conflict_check m1 t1 txn r = Inr t2"
    using assms(10) by (simp add: delete_with_conflict_check_def)
  have c2: "mvcc_row_versions t2 r = pre @ row_version_delete v a # [?w]"
    using delete_chain [OF assms(9) _ _ t2] by (simp add: mvcc_row_versions_def row_version_new_def butlast_append)
  have ab: "hm_get (txn_states m3) a = Some Aborted" "a \<noteq> txn_ident reader"
    using assms(5,8,11) mgr_invD(5) [OF assms(1,5)]
    by (auto simp: mvcc_commit_def clear_active_def begin_with_isolation_def Let_def hm_simps)
  have "\<not> visible m3 ?w reader"
    using aborted_invisible [of m3 ?w reader] ab by (simp add: row_version_new_def row_version_delete_def)
  then have "find_rev (\<lambda>v. visible m3 v reader) (mvcc_row_versions t2 r) = Some (row_version_delete v a)"
    using after_aborted_update(1) [OF ab assms(7) visible_to_next [OF assms(1-3,6,7,4,11)], of "[?w]" pre] by (simp add: c2)
  then show ?thesis
    using t2 by (simp add: mvcc_table_delete_def assms(9) row_version_new_def)
qed

lemma updates_after_aborted_update:
  assumes "mgr_inv m1" "live_handle m1 txn" "live_handle m1 other" "txn_ident txn \<noteq> txn_ident other"
    and "isolation_level other \<noteq> ReadUncommitted" "commit_id m1 + 1 < u64_bound"
    and "hm_get (txn_states m1) a = Some Aborted" "visible m1 v other" "xmax v = None" "a \<noteq> txn_ident txn" "a \<noteq> txn_ident other"
    and "slice_get (mt_rows t1) r = Some (pre @ row_version_delete v a # [row_version_new a vals])"
    and "check_write_conflict m1 t1 txn r = Inr ()" "m2 = fst (mvcc_commit m1 (txn_ident txn))"
  shows "\<exists>t2 t3. update_with_conflict_check m1 t1 txn r x = Inr t2 \<and> update_with_conflict_check m2 t2 other r y = Inr t3 \<and>
    find_rev (\<lambda>v. visible m2 v other) (mvcc_row_versions t2 r) = Some (row_version_delete v a) \<and>
    find_rev (\<lambda>v. visible m2 v other) (mvcc_row_versions t3 r) = Some (row_version_new (txn_ident other) y)"
proof -
  let ?w = "row_version_delete (row_version_new a vals) (txn_ident txn)" and ?x = "row_version_new (txn_ident txn) x"
  obtain t2 where t2: "update_with_conflict_check m1 t1 txn r x = Inr t2"
    using assms(13) by (simp add: update_with_conflict_check_def)
  have c2: "slice_get (mt_rows t2) r = Some (pre @ row_version_delete v a # [?w, ?x])"
    using update_chain [OF assms(12) _ _ t2] by (simp add: row_version_new_def butlast_append)
  have vis: "visible m2 w other = visible m1 w other" for w
    using visible_after_commit [OF assms(1,3,2,6,5)] by (simp add: assms(14))
  have ab: "hm_get (txn_states m2) a = Some Aborted"
    using assms(7,10) by (simp add: assms(14) mvcc_commit_def clear_active_def Let_def hm_simps)
  have "\<not> visible m1 ?w other" "\<not> visible m1 ?x other"
    using aborted_invisible [of m1 ?w other] assms(2-5,7,11) invisible_new [of m1 other "txn_ident txn" x]
    by (auto simp: row_version_new_def row_version_delete_def invisible_writer_def live_handle_def)
  then have hidden: "w \<in> set [?w, ?x] \<Longrightarrow> \<not> visible m2 w other" for w
    by (auto simp: vis)
  have "visible m2 v other"
    using assms(8) by (simp add: vis)
  note seen = after_aborted_update [OF ab assms(11,9) this, of "[?w, ?x]", OF hidden]
  have stale: "find_rev (\<lambda>v. visible m2 v other) (mvcc_row_versions t2 r) = Some (row_version_delete v a)"
    using seen(1) by (simp add: mvcc_row_versions_def c2)
  obtain t3 where t3: "update_with_conflict_check m2 t2 other r y = Inr t3"
    using seen(2) [OF _ c2] by (auto simp: update_with_conflict_check_def)
  have "mvcc_row_versions t3 r = (pre @ [row_version_delete v a, ?w, row_version_delete ?x (txn_ident other)]) @
      [row_version_new (txn_ident other) y]"
    using update_chain [OF c2 _ _ t3] by (simp add: mvcc_row_versions_def row_version_new_def butlast_append)
  moreover have "visible m2 (row_version_new (txn_ident other) y) other"
    by (simp add: visible_def row_version_new_def Let_def)
  ultimately have "find_rev (\<lambda>v. visible m2 v other) (mvcc_row_versions t3 r) = Some (row_version_new (txn_ident other) y)"
    by (simp only: find_rev_simps if_True)
  with t2 t3 stale show ?thesis by blast
qed

section \<open>Append-only history\<close>

lemma chain_extends_refl: "chain_extends c c"
  by (simp add: chain_extends_def)

lemma chain_extends_mark:
  "c \<noteq> [] \<Longrightarrow> xmax (last c) = None \<Longrightarrow>
   chain_extends c (update_last (\<lambda>v. row_version_delete v u) c @ ys)"
proof -
  assume "c \<noteq> []" "xmax (last c) = None"
  then obtain xs x where "c = xs @ [x]" "xmax x = None" by (cases c rule: rev_exhaust) auto
  then show ?thesis
    by (auto simp: chain_extends_def update_last_def nth_append row_version_delete_def)
qed

lemma table_update_extends:
  "r < length (mt_rows t) \<Longrightarrow>
   chain_extends (mt_rows t ! r) (mt_rows (fst (mvcc_table_update t u row_idx vals)) ! r)"
  by (auto simp: mvcc_table_update_def slice_get_def nth_list_update chain_extends_refl
           intro: chain_extends_mark split: option.splits)

lemma table_delete_extends:
  "r < length (mt_rows t) \<Longrightarrow>
   chain_extends (mt_rows t ! r) (mt_rows (fst (mvcc_table_delete t u row_idx)) ! r)"
  using chain_extends_mark [where ys = "[]"]
  by (auto simp: mvcc_table_delete_def slice_get_def nth_list_update chain_extends_refl split: option.splits)

lemma table_insert_extends:
  "r < length (mt_rows t) \<Longrightarrow>
   chain_extends (mt_rows t ! r) (mt_rows (fst (mvcc_table_insert t u vals)) ! r)"
  by (simp add: mvcc_table_insert_def Let_def nth_append chain_extends_refl)

lemmas table_extends = table_update_extends table_delete_extends table_insert_extends

section \<open>Properties\<close>

text \<open>C1. Repeatable reads: whatever the other transactions and VACUUM do, in any
  interleaving, a transaction above ReadUncommitted reads the same rows from every table.\<close>

theorem repeatable_read:
  assumes "db_reachable d" "live_handle (mgr d) txn" "isolation_level txn \<noteq> ReadUncommitted"
    and "others_run (txn_ident txn) d d'" "k < length (tables d)"
  shows "read_rows d' k txn = read_rows d k txn"
  using others_run_frame [OF assms(4) reachable_mgr_inv [OF assms(1)] assms(2,3,5)] by blast

text \<open>C3. VACUUM removes no version that a running transaction of any isolation level, or
  one that begins next, would read.\<close>

theorem vacuum_preserves_reads:
  assumes "db_reachable d" "k < length (tables d)" "live_handle (mgr d) txn"
    and "begin_with_isolation (mgr d) level = (m', txn')"
  shows "scan_visible (mgr d) (fst (vacuum (mgr d) (tables d)) ! k) txn =
           scan_visible (mgr d) (tables d ! k) txn \<and>
         scan_visible m' (fst (vacuum (mgr d) (tables d)) ! k) txn' =
           scan_visible m' (tables d ! k) txn'"
  using vacuum_frame [OF live_handle_reader_ok [OF reachable_mgr_inv [OF assms(1)] assms(3)] assms(2)]
    vacuum_frame_later [OF reachable_mgr_inv [OF assms(1)] assms(4) assms(2)] by blast

text \<open>C7. A rolled back transaction leaves no trace: when a transaction begins, performs any writes
  (inserts, and updates and deletes that are not refused) and rolls back, every other transaction, at
  every isolation level, then reads from every table exactly what it would have read before.\<close>

theorem rollback_leaves_no_trace:
  assumes "db_reachable d" "next_txn_id (mgr d) + 1 < u64_bound"
    and "begin_with_isolation (mgr d) level = (m, t)" "own_writes (txn_ident t) (d\<lparr>mgr := m\<rparr>) d'"
    and "txn_ident txn \<noteq> txn_ident t" "k < length (tables d)"
  shows "read_rows (d'\<lparr>mgr := mvcc_rollback (mgr d') (txn_ident t)\<rparr>) k txn = read_rows d k txn"
proof -
  let ?u = "txn_ident t" and ?m = "mvcc_rollback m (txn_ident t)"
  have u: "?u = next_txn_id (mgr d)" and states: "x \<noteq> ?u \<Longrightarrow> hm_get (txn_states ?m) x = hm_get (txn_states (mgr d)) x" for x
    using assms(3) by (auto simp: begin_with_isolation_def mvcc_rollback_def clear_active_def Let_def hm_simps)
  have frame: "mgr d' = m" "map (stripped_rows ?u) (tables d') = map (stripped_rows ?u) (tables d)"
    using own_writes_frame [OF assms(4)] by simp_all
  then have rows: "stripped_rows ?u (tables d' ! k) = stripped_rows ?u (tables d ! k)"
    using assms(6) map_eq_imp_length_eq [OF frame(2)] by (metis nth_map)
  have "ids_below ?u (tables d ! k)"
    using reachable_ids_below [OF assms(1)] assms(6) by (simp add: u list_all_length)
  then have "newest_values ?m txn c = newest_values (mgr d) txn c" if "c \<in> set (mt_rows (tables d ! k))" for c
    using that states ids_below_fresh [of ?u "tables d ! k" c]
    by (intro newest_values_cong visible_states_cong [of ?u]) auto
  then have "List.map_filter (newest_values ?m txn) (mt_rows (tables d ! k)) = read_rows d k txn"
    by (simp add: read_rows_newest cong: map_filter_cong')
  then show ?thesis
    using rows_after_rollback [of ?u txn m "tables d' ! k"] rows_after_rollback [of ?u txn m "tables d ! k"] assms(5) rows frame(1)
    by (simp add: read_rows_newest)
qed


text \<open>C6. First committer wins, for a transaction above ReadUncommitted and a row whose last version is
  live and visible to it: once another transaction has updated or deleted that row, the former's update
  and delete of it are refused, naming the other transaction, both while that one runs and after it has
  committed. Where the last version was left by an aborted update no
  such refusal takes place, as the last property of this theory shows.\<close>

theorem first_committer_wins:
  assumes "mgr_inv m" "live_handle m txn" "live_handle m other" "txn_ident other \<noteq> txn_ident txn"
    and "isolation_level txn \<noteq> ReadUncommitted" "commit_id m + 1 < u64_bound"
    and "slice_get (mt_rows t) r = Some c" "c \<noteq> []" "xmax (last c) = None" "visible m (last c) txn"
    and "update_with_conflict_check m t other r vals = Inr t' \<or> delete_with_conflict_check m t other r = Inr t'"
    and "m' = m \<or> m' = fst (mvcc_commit m (txn_ident other))"
  shows "\<exists>e. update_with_conflict_check m' t' txn r w = Inl e \<and>
             delete_with_conflict_check m' t' txn r = Inl e \<and> conflicting_txn e = txn_ident other"
proof -
  let ?v = "row_version_delete (last c) (txn_ident other)"
  have writer: "invisible_writer m txn (txn_ident other)"
    using assms(3-5) by (simp add: invisible_writer_def live_handle_def)
  have vis: "visible m' v txn = visible m v txn" for v
    using assms(12) visible_after_commit [OF assms(1-3) assms(6,5)] by auto
  obtain vs where chain: "slice_get (mt_rows t') r = Some (butlast c @ ?v # vs)"
    and vs: "vs = [] \<or> vs = [row_version_new (txn_ident other) vals]"
    using assms(11) update_chain [OF assms(7-9)] delete_chain [OF assms(7-9)] by fastforce
  have found: "find_rev (\<lambda>v. visible m' v txn) (butlast c @ ?v # vs) = Some ?v"
    using vs find_rev_simps(2) [of "\<lambda>v. visible m' v txn" "butlast c @ [?v]"]
    by (auto simp: vis invisible_new [OF writer] visible_mark [OF writer assms(9)] assms(10))
  have state: "hm_get (txn_states m') (txn_ident other) = Some InProgress \<or>
      (\<exists>cid. hm_get (txn_states m') (txn_ident other) = Some (Committed cid) \<and> snapshot_id txn < cid)"
    using assms(12,3) live_handle_snapshot [OF assms(1,2)] u64_inc_Suc [OF assms(6)]
    by (auto simp: live_handle_def in_progress_def mvcc_commit_def clear_active_def Let_def hm_simps)
  then show ?thesis
    using assms(4) found
    by (auto simp: update_with_conflict_check_def delete_with_conflict_check_def check_write_conflict_def
                   chain row_version_delete_def)
qed

text \<open>C8. No dirty reads: above ReadUncommitted every version a scan returns was created by
  the reader or by a transaction committed within its snapshot, and was not deleted by the
  reader or within its snapshot; a scan returns at most one version per row.\<close>

theorem no_dirty_reads:
  assumes "isolation_level txn \<noteq> ReadUncommitted" "v \<in> set (scan_visible m t txn)"
  shows "(xmin v = txn_ident txn \<or>
           (\<exists>cid. hm_get (txn_states m) (xmin v) = Some (Committed cid) \<and> cid \<le> snapshot_id txn)) \<and>
         (\<forall>u. xmax v = Some u \<longrightarrow> u \<noteq> txn_ident txn \<and>
           \<not> (\<exists>cid. hm_get (txn_states m) u = Some (Committed cid) \<and> cid \<le> snapshot_id txn)) \<and>
         length (scan_visible m t txn) \<le> mvcc_row_count t"
proof -
  obtain c where "find_rev (\<lambda>v. visible m v txn) c = Some v"
    using assms(2) by (auto simp: scan_visible_def List.map_filter_def)
  then have "visible m v txn" using find_rev_SomeD [of _ c v] by blast
  moreover have "length (scan_visible m t txn) \<le> mvcc_row_count t"
    by (simp add: scan_visible_def List.map_filter_def mvcc_row_count_def)
  ultimately show ?thesis
    using assms(1) by (auto simp: visible_snapshot [OF assms(1)] txn_visible_to_snapshot_def
                            split: option.splits txn_state.splits if_splits)
qed

text \<open>The two visibility tests agree: \<open>visible\<close> on a transaction handle above
  ReadUncommitted is the engine's \<open>is_visible_with_snapshot\<close> on its snapshot and identifier.\<close>

theorem visibility_tests_agree:
  "isolation_level txn \<noteq> ReadUncommitted \<Longrightarrow>
   visible m v txn = is_visible_with_snapshot m v (snapshot_id txn) (txn_ident txn)"
  by (auto simp: visible_snapshot is_visible_with_snapshot_def txn_visible_to_snapshot_def txn_state_of_def
           split: option.splits txn_state.splits)

text \<open>History is append-only: no operation but VACUUM shortens a version chain, changes
  the creator or the values of a version, or overwrites a recorded deleter.\<close>

theorem history_append_only:
  assumes "db_step l d d'" "tables d' \<noteq> fst (vacuum (mgr d) (tables d))"
    and "k < length (tables d)" "r < length (mt_rows (tables d ! k))"
  shows "chain_extends (mt_rows (tables d ! k) ! r) (mt_rows (tables d' ! k) ! r)"
  using assms
  by (induction rule: db_step.induct)
     (auto simp: chain_extends_refl nth_list_update update_with_conflict_check_def
                 delete_with_conflict_check_def split: sum.splits intro: table_extends)

text \<open>C9. In every reachable state the manager's records agree: commit identifiers are
  unique and not beyond the counter, and a transaction is in the active set, and has a
  recorded snapshot not beyond the counter, exactly while it is in progress.\<close>

theorem reachable_manager_consistent:
  assumes "db_reachable d"
  shows "mgr_inv (mgr d)"
  using assms by (rule reachable_mgr_inv)

text \<open>C10. What an update that is not refused does. When the last version of the row is live, the new
  values are what the transaction reads from then on, and what a transaction reads that begins, at any
  isolation level, right after the commit. When it is not (the row does not exist, its chain is empty, or
  its last version has been stamped by a deleter, even one that rolled back), the table is unchanged,
  although success is reported.\<close>

theorem update_read_and_published:
  assumes "mgr_inv m" "live_handle m txn" "commit_id m + 1 < u64_bound"
    and "update_with_conflict_check m t txn r vals = Inr t'"
    and "begin_with_isolation (fst (mvcc_commit m (txn_ident txn))) level = (m', txn')"
  shows "if mvcc_row_versions t r \<noteq> [] \<and> xmax (last (mvcc_row_versions t r)) = None
    then find_rev (\<lambda>v. visible m v txn) (mvcc_row_versions t' r) = Some (row_version_new (txn_ident txn) vals) \<and>
         find_rev (\<lambda>v. visible m' v txn') (mvcc_row_versions t' r) = Some (row_version_new (txn_ident txn) vals)
    else t' = t"
proof (cases "mvcc_row_versions t r \<noteq> [] \<and> xmax (last (mvcc_row_versions t r)) = None")
  case True
  then obtain c where c: "slice_get (mt_rows t) r = Some c" "c \<noteq> []" "xmax (last c) = None"
    by (auto simp: mvcc_row_versions_def split: option.splits)
  have "visible m (row_version_new (txn_ident txn) vals) txn"
    by (simp add: visible_def row_version_new_def Let_def)
  moreover have "mvcc_row_versions t' r = (butlast c @ [row_version_delete (last c) (txn_ident txn)]) @ [row_version_new (txn_ident txn) vals]"
    using update_chain [OF c assms(4)] by (simp add: mvcc_row_versions_def)
  ultimately show ?thesis
    using True published [OF assms(1-3,5), of vals] by (simp only: if_True find_rev_simps simp_thms)
next
  case False
  moreover from False have "t' = t"
    using assms(4)
    by (auto simp: mvcc_row_versions_def update_with_conflict_check_def mvcc_table_update_def split: option.splits sum.splits)
  ultimately show ?thesis by (simp only: if_False)
qed

text \<open>C15. Writes after an aborted update are lost. Let a transaction update a live row, which two other
  transactions above ReadUncommitted read, and roll back. Then one of them deletes the row: this succeeds
  and marks the aborted version at the end of the chain instead of the live one, so that after the commit
  a transaction that begins still reads the row. And when instead that one updates the row and commits,
  the other's update of the row, of which it still reads the old version, is accepted too and overwrites
  the first without a conflict: a lost update.\<close>

theorem writes_after_aborted_update_are_lost:
  assumes "mgr_inv m" "live_handle m a" "live_handle m txn" "live_handle m other"
    and "distinct [txn_ident a, txn_ident txn, txn_ident other]"
    and "isolation_level txn \<noteq> ReadUncommitted" "isolation_level other \<noteq> ReadUncommitted"
    and "commit_id m + 1 < u64_bound"
    and "slice_get (mt_rows t) r = Some c" "c \<noteq> []" "xmax (last c) = None"
    and "visible m (last c) txn" "visible m (last c) other"
    and "update_with_conflict_check m t a r vals = Inr t1" "m1 = mvcc_rollback m (txn_ident a)"
    and "m2 = fst (mvcc_commit m1 (txn_ident txn))" "begin_with_isolation m2 level = (m3, reader)"
  shows "(\<exists>t2. delete_with_conflict_check m1 t1 txn r = Inr t2 \<and> snd (mvcc_table_delete t1 (txn_ident txn) r) \<and>
      find_rev (\<lambda>v. visible m3 v reader) (mvcc_row_versions t2 r) = Some (row_version_delete (last c) (txn_ident a))) \<and>
    (\<exists>t2 t3. update_with_conflict_check m1 t1 txn r x = Inr t2 \<and> update_with_conflict_check m2 t2 other r y = Inr t3 \<and>
      find_rev (\<lambda>v. visible m2 v other) (mvcc_row_versions t2 r) = Some (row_version_delete (last c) (txn_ident a)) \<and>
      find_rev (\<lambda>v. visible m2 v other) (mvcc_row_versions t3 r) = Some (row_version_new (txn_ident other) y))"
proof -
  have ids: "txn_ident a \<noteq> txn_ident txn" "txn_ident a \<noteq> txn_ident other" "txn_ident txn \<noteq> txn_ident other"
    using assms(5) by auto
  note by_txn = rolled_back_update [OF assms(1-3) ids(1) assms(6,9-12,14,15)]
  note by_other = rolled_back_update [OF assms(1,2,4) ids(2) assms(7,9-11,13-15)]
  have room: "commit_id m1 + 1 < u64_bound"
    using assms(8) by_txn(3) by simp
  show ?thesis
    using delete_after_aborted_update [OF by_txn(1,2) assms(6) room by_txn(4,5) assms(11) ids(1) by_txn(6,7)] assms(17)
      updates_after_aborted_update [OF by_txn(1,2) by_other(2) ids(3) assms(7) room by_txn(4) by_other(5) assms(11) ids(1,2) by_txn(6,7) assms(16)]
    by (simp add: assms(16))
qed

section \<open>A small execution\<close>

text \<open>Transaction 1 inserts a row and commits; transactions 2 and 3 then run on the same snapshot.\<close>

definition demo_mgr0 :: mvcc_txn_manager where
  "demo_mgr0 = fst (mvcc_commit (fst (begin_with_isolation mvcc_new RepeatableRead)) 1)"

definition demo_mgr :: mvcc_txn_manager where
  "demo_mgr = fst (begin_with_isolation (fst (begin_with_isolation demo_mgr0 RepeatableRead)) RepeatableRead)"

definition demo_table :: mvcc_table where
  "demo_table = fst (mvcc_table_insert (mvcc_table_new ''t'' [''c'']) 1 [10])"

definition demo_db :: db where
  "demo_db = \<lparr>mgr = demo_mgr, tables = [demo_table]\<rparr>"

definition demo_txn :: "txn_id \<Rightarrow> mvcc_transaction" where
  "demo_txn i = \<lparr>txn_ident = i, snapshot_id = 1, txn_status = InProgress, isolation_level = RepeatableRead\<rparr>"

lemmas mvcc_eval =
  demo_mgr0_def demo_mgr_def demo_table_def demo_txn_def mvcc_new_def begin_with_isolation_def mvcc_commit_def
  mvcc_rollback_def clear_active_def mvcc_table_insert_def mvcc_table_new_def mvcc_table_update_def
  mvcc_table_delete_def update_last_def row_version_new_def row_version_delete_def
  update_with_conflict_check_def delete_with_conflict_check_def check_write_conflict_def
  visible_def txn_visible_to_snapshot_def scan_visible_def List.map_filter_def slice_get_def
  in_progress_def live_handle_def Let_def hm_laws hm_new_def u64_inc_def u64_bound_def

lemma demo_live: "live_handle demo_mgr (demo_txn 2)" "live_handle demo_mgr (demo_txn 3)"
  by (simp_all add: mvcc_eval)

lemma demo_reachable: "db_reachable demo_db"
proof -
  let ?d0 = "db_init [mvcc_table_new ''t'' [''c'']]"
  let ?m1 = "fst (begin_with_isolation mvcc_new RepeatableRead)"
  have 1: "db_step None ?d0 (?d0\<lparr>mgr := ?m1\<rparr>)"
    using step_begin [of ?d0 RepeatableRead] by (simp add: db_init_def mvcc_new_def u64_bound_def)
  have 2: "db_step (Some 1) (?d0\<lparr>mgr := ?m1\<rparr>) \<lparr>mgr = ?m1, tables = [demo_table]\<rparr>"
    using step_insert [of "?d0\<lparr>mgr := ?m1\<rparr>" 1 0 "[10]"] by (simp add: db_init_def mvcc_eval)
  have 3: "db_step (Some 1) \<lparr>mgr = ?m1, tables = [demo_table]\<rparr> \<lparr>mgr = demo_mgr0, tables = [demo_table]\<rparr>"
    using step_commit [of "\<lparr>mgr = ?m1, tables = [demo_table]\<rparr>" 1] by (simp add: mvcc_eval)
  have 4: "db_step None \<lparr>mgr = demo_mgr0, tables = [demo_table]\<rparr>
      \<lparr>mgr = fst (begin_with_isolation demo_mgr0 RepeatableRead), tables = [demo_table]\<rparr>"
    using step_begin [of "\<lparr>mgr = demo_mgr0, tables = [demo_table]\<rparr>" RepeatableRead] by (simp add: mvcc_eval)
  have 5: "db_step None \<lparr>mgr = fst (begin_with_isolation demo_mgr0 RepeatableRead), tables = [demo_table]\<rparr> demo_db"
    using step_begin [of "\<lparr>mgr = fst (begin_with_isolation demo_mgr0 RepeatableRead), tables = [demo_table]\<rparr>" RepeatableRead]
    by (simp add: mvcc_eval demo_db_def)
  show ?thesis
    by (rule reach_step [OF reach_step [OF reach_step [OF reach_step [OF reach_step [OF reach_init 1] 2] 3] 4] 5])
qed

text \<open>Transaction 3 updates the row and commits while transaction 2 is reading.\<close>

definition demo_table3 :: mvcc_table where
  "demo_table3 = fst (mvcc_table_update demo_table 3 0 [30])"

definition demo_db3 :: db where
  "demo_db3 = \<lparr>mgr = fst (mvcc_commit demo_mgr 3), tables = [demo_table3]\<rparr>"

lemma demo_update3: "update_with_conflict_check demo_mgr demo_table (demo_txn 3) 0 [30] = Inr demo_table3"
  by (simp add: mvcc_eval demo_table3_def)

lemma demo_others_run: "others_run 2 demo_db demo_db3"
proof -
  have upd: "db_step (Some 3) demo_db (demo_db\<lparr>tables := [demo_table3]\<rparr>)"
    using step_update [of demo_db "demo_txn 3" 0 0 "[30]" demo_table3] demo_live(2) demo_update3
    by (simp add: demo_db_def demo_txn_def)
  have com: "db_step (Some 3) (demo_db\<lparr>tables := [demo_table3]\<rparr>) demo_db3"
    using step_commit [of "demo_db\<lparr>tables := [demo_table3]\<rparr>" 3]
    by (simp add: demo_db_def demo_db3_def mvcc_eval)
  show ?thesis
    by (rule others_step [OF others_step [OF others_refl upd] com]) simp_all
qed

lemma demo_inv: "mgr_inv demo_mgr"
  using reachable_mgr_inv [OF demo_reachable] by (simp add: demo_db_def)

lemma demo_room: "commit_id demo_mgr + 1 < u64_bound"
  by (simp add: mvcc_eval)

lemma demo_chain: "slice_get (mt_rows demo_table) 0 = Some [row_version_new 1 [10]]"
  by (simp add: mvcc_eval)

theorem repeatable_read_witness:
  "read_rows demo_db3 0 (demo_txn 2) = read_rows demo_db 0 (demo_txn 2) \<and>
   read_rows demo_db 0 (demo_txn 2) = [[10]]"
proof -
  have "read_rows demo_db3 0 (demo_txn 2) = read_rows demo_db 0 (demo_txn 2)"
    by (rule repeatable_read [OF demo_reachable])
       (use demo_live demo_others_run in \<open>simp_all add: demo_db_def demo_txn_def\<close>)
  moreover have "read_rows demo_db 0 (demo_txn 2) = [[10]]"
    by (simp add: read_rows_def demo_db_def mvcc_eval)
  ultimately show ?thesis by blast
qed

lemma demo_begin: "\<exists>m' txn'. begin_with_isolation demo_mgr ReadUncommitted = (m', txn') \<and> snapshot_id txn' = 1"
  by (simp add: mvcc_eval)

theorem vacuum_preserves_reads_witness:
  "scan_visible demo_mgr (fst (vacuum demo_mgr [demo_table]) ! 0) (demo_txn 2) =
     scan_visible demo_mgr demo_table (demo_txn 2) \<and>
   scan_visible demo_mgr demo_table (demo_txn 2) = [row_version_new 1 [10]]"
proof -
  obtain m' txn' where b: "begin_with_isolation demo_mgr ReadUncommitted = (m', txn')"
    using demo_begin by blast
  have "scan_visible demo_mgr demo_table (demo_txn 2) = [row_version_new 1 [10]]"
    by (simp add: mvcc_eval)
  then show ?thesis
    using vacuum_preserves_reads [OF demo_reachable, of 0 "demo_txn 2" ReadUncommitted m' txn'] demo_live(1) b
    by (simp add: demo_db_def)
qed

text \<open>Transaction 4 begins, updates the row, inserts another and rolls back.\<close>

definition demo_begin4 :: "mvcc_txn_manager \<times> mvcc_transaction" where
  "demo_begin4 = begin_with_isolation demo_mgr RepeatableRead"

definition demo_db4 :: db where
  "demo_db4 = \<lparr>mgr = fst demo_begin4,
     tables = [fst (mvcc_table_insert (fst (mvcc_table_update demo_table 4 0 [40])) 4 [41])]\<rparr>"

lemma demo_own_writes: "own_writes 4 (demo_db\<lparr>mgr := fst demo_begin4\<rparr>) demo_db4"
proof -
  let ?d = "demo_db\<lparr>mgr := fst demo_begin4\<rparr>" and ?t = "fst (mvcc_table_update demo_table 4 0 [40])"
  have upd: "db_step (Some 4) ?d (?d\<lparr>tables := [?t]\<rparr>)"
    using step_update [of ?d "demo_txn 4" 0 0 "[40]" ?t] by (simp add: demo_db_def demo_begin4_def mvcc_eval)
  have ins: "db_step (Some 4) (?d\<lparr>tables := [?t]\<rparr>) demo_db4"
    using step_insert [of "?d\<lparr>tables := [?t]\<rparr>" 4 0 "[41]"]
    by (simp add: demo_db_def demo_db4_def) (simp add: demo_begin4_def mvcc_eval)
  show ?thesis
    by (rule own_step [OF own_step [OF own_refl upd] ins]) (simp_all add: demo_db4_def demo_begin4_def mvcc_eval)
qed

theorem rollback_leaves_no_trace_witness:
  "read_rows (demo_db4\<lparr>mgr := mvcc_rollback (mgr demo_db4) 4\<rparr>) 0 (demo_txn 2) = read_rows demo_db 0 (demo_txn 2) \<and>
   read_rows demo_db 0 (demo_txn 2) = [[10]] \<and> read_rows demo_db4 0 (demo_txn 4) = [[40], [41]]"
proof -
  have 4: "begin_with_isolation (mgr demo_db) RepeatableRead = (fst demo_begin4, snd demo_begin4)"
    "txn_ident (snd demo_begin4) = 4" "next_txn_id (mgr demo_db) + 1 < u64_bound"
    by (simp_all add: demo_db_def demo_begin4_def mvcc_eval)
  have "read_rows (demo_db4\<lparr>mgr := mvcc_rollback (mgr demo_db4) 4\<rparr>) 0 (demo_txn 2) = read_rows demo_db 0 (demo_txn 2)"
    using rollback_leaves_no_trace [OF demo_reachable 4(3,1), of demo_db4 "demo_txn 2" 0] demo_own_writes
    by (simp add: 4(2)) (simp add: demo_txn_def demo_db_def)
  moreover have "read_rows demo_db 0 (demo_txn 2) = [[10]]" "read_rows demo_db4 0 (demo_txn 4) = [[40], [41]]"
    by (simp_all add: read_rows_def demo_db_def demo_db4_def demo_begin4_def mvcc_eval)
  ultimately show ?thesis by blast
qed

theorem first_committer_wins_witness:
  "\<exists>e. update_with_conflict_check (fst (mvcc_commit demo_mgr 3)) demo_table3 (demo_txn 2) 0 [20] = Inl e \<and>
       conflicting_txn e = 3"
proof -
  have vis: "visible demo_mgr (last [row_version_new 1 [10]]) (demo_txn 2)"
    by (simp add: mvcc_eval)
  have com: "fst (mvcc_commit demo_mgr 3) = demo_mgr \<or>
      fst (mvcc_commit demo_mgr 3) = fst (mvcc_commit demo_mgr (txn_ident (demo_txn 3)))"
    by (simp add: demo_txn_def)
  have "\<exists>e. update_with_conflict_check (fst (mvcc_commit demo_mgr 3)) demo_table3 (demo_txn 2) 0 [20] = Inl e \<and>
      delete_with_conflict_check (fst (mvcc_commit demo_mgr 3)) demo_table3 (demo_txn 2) 0 = Inl e \<and>
      conflicting_txn e = txn_ident (demo_txn 3)"
    by (rule first_committer_wins [OF demo_inv demo_live _ _ demo_room demo_chain _ _ vis disjI1 [OF demo_update3] com])
       (simp_all add: demo_txn_def row_version_new_def)
  then show ?thesis by (auto simp: demo_txn_def)
qed

theorem no_dirty_reads_witness:
  "length (scan_visible demo_mgr demo_table3 (demo_txn 2)) \<le> mvcc_row_count demo_table3 \<and>
   map row_values (scan_visible demo_mgr demo_table3 (demo_txn 2)) = [[10]]"
proof -
  have rows: "scan_visible demo_mgr demo_table3 (demo_txn 2) = [row_version_delete (row_version_new 1 [10]) 3]"
    by (simp add: mvcc_eval demo_table3_def)
  then show ?thesis
    using no_dirty_reads [of "demo_txn 2" "row_version_delete (row_version_new 1 [10]) 3" demo_mgr demo_table3]
    by (simp add: demo_txn_def) (simp add: row_version_delete_def row_version_new_def)
qed

theorem visibility_tests_agree_witness:
  "visible demo_mgr (row_version_new 1 [10]) (demo_txn 2) =
     is_visible_with_snapshot demo_mgr (row_version_new 1 [10]) 1 2 \<and>
   visible demo_mgr (row_version_new 1 [10]) (demo_txn 2)"
  using visibility_tests_agree [of "demo_txn 2" demo_mgr "row_version_new 1 [10]"]
  by (simp add: demo_txn_def) (simp add: mvcc_eval)

theorem history_append_only_witness:
  "chain_extends [row_version_new 1 [10]] (mt_rows demo_table3 ! 0) \<and> length (mt_rows demo_table3 ! 0) = 2"
proof -
  have "db_step (Some 3) demo_db (demo_db\<lparr>tables := [demo_table3]\<rparr>)"
    using step_update [of demo_db "demo_txn 3" 0 0 "[30]" demo_table3] demo_live(2) demo_update3
    by (simp add: demo_db_def demo_txn_def)
  moreover have "[demo_table3] \<noteq> fst (vacuum demo_mgr [demo_table])"
    by (simp add: demo_table3_def vacuum_def vacuum_chains_def vacuum_keep_def oldest_active_snapshot_def mvcc_eval)
  ultimately show ?thesis
    using history_append_only [of "Some 3" demo_db "demo_db\<lparr>tables := [demo_table3]\<rparr>" 0 0]
    by (simp add: demo_db_def) (simp add: mvcc_eval demo_table3_def)
qed

theorem reachable_manager_consistent_witness: "mgr_inv (mgr demo_db)"
  by (rule reachable_manager_consistent [OF demo_reachable])

theorem update_read_and_published_witness:
  "find_rev (\<lambda>v. visible demo_mgr v (demo_txn 3)) (mvcc_row_versions demo_table3 0) = Some (row_version_new 3 [30])"
proof -
  obtain m' txn' where "begin_with_isolation (fst (mvcc_commit demo_mgr 3)) Serializable = (m', txn')"
    by (cases "begin_with_isolation (fst (mvcc_commit demo_mgr 3)) Serializable")
  then have "begin_with_isolation (fst (mvcc_commit demo_mgr (txn_ident (demo_txn 3)))) Serializable = (m', txn')"
    by (simp add: demo_txn_def)
  note update_read_and_published [OF demo_inv demo_live(2) demo_room demo_update3 this]
  then show ?thesis
    by (simp add: mvcc_row_versions_def [of demo_table] demo_chain) (simp add: row_version_new_def demo_txn_def)
qed

text \<open>Transaction 2 updates the row and rolls back; transactions 3 and 4 then both update it.\<close>

theorem writes_after_aborted_update_are_lost_witness:
  "\<exists>t1 t2 t3. update_with_conflict_check (fst demo_begin4) demo_table (demo_txn 2) 0 [20] = Inr t1 \<and>
     update_with_conflict_check (mvcc_rollback (fst demo_begin4) 2) t1 (demo_txn 3) 0 [30] = Inr t2 \<and>
     update_with_conflict_check (fst (mvcc_commit (mvcc_rollback (fst demo_begin4) 2) 3)) t2 (demo_txn 4) 0 [40] = Inr t3"
proof -
  let ?m = "fst demo_begin4"
  have live: "live_handle ?m (demo_txn 2)" "live_handle ?m (demo_txn 3)" "live_handle ?m (demo_txn 4)"
    and ids: "txn_ident (demo_txn i) = i" "isolation_level (demo_txn i) \<noteq> ReadUncommitted" for i
    by (simp_all add: demo_begin4_def mvcc_eval)
  have inv: "mgr_inv ?m" and room: "commit_id ?m + 1 < u64_bound"
    using mgr_inv_begin [OF demo_inv, of RepeatableRead] by (simp_all add: demo_begin4_def mvcc_eval)
  have vis: "visible ?m (last [row_version_new 1 [10]]) (demo_txn i)" for i
    by (simp add: demo_begin4_def mvcc_eval)
  obtain t1 where t1: "update_with_conflict_check ?m demo_table (demo_txn 2) 0 [20] = Inr t1"
    by (simp add: demo_begin4_def mvcc_eval)
  let ?m1 = "mvcc_rollback ?m (txn_ident (demo_txn 2))"
  obtain m3 reader where b: "begin_with_isolation (fst (mvcc_commit ?m1 (txn_ident (demo_txn 3)))) RepeatableRead = (m3, reader)"
    by (cases "begin_with_isolation (fst (mvcc_commit ?m1 (txn_ident (demo_txn 3)))) RepeatableRead")
  have "\<exists>t2 t3. update_with_conflict_check ?m1 t1 (demo_txn 3) 0 [30] = Inr t2 \<and>
      update_with_conflict_check (fst (mvcc_commit ?m1 (txn_ident (demo_txn 3)))) t2 (demo_txn 4) 0 [40] = Inr t3"
    using writes_after_aborted_update_are_lost [OF inv live _ ids(2) ids(2) room demo_chain _ _ vis vis t1 refl refl b,
        of "[30]" "[40]"]
    by (simp add: ids(1) [of 2] ids(1) [of 3] ids(1) [of 4] row_version_new_def) blast
  with t1 show ?thesis
    unfolding ids(1) by blast
qed

end
