(* ===== verification/Engine_Table.thy ===== *)
theory Engine_Table
  imports Mvcc_Isolation
begin

text \<open>
  The engine's working set: NULL bitmaps (\<^verbatim>\<open>src/types/null_bitmap.rs\<close>), the column
  table with its version chains (\<^verbatim>\<open>src/datasource/table.rs\<close>), the operations of the MVCC
  manager on it (\<open>vacuum_table\<close>, \<open>check_write_conflict_for_table\<close> of
  \<^verbatim>\<open>src/txn/mvcc.rs\<close>), the executor's row filter (\<open>row_visible_to_active\<close>), the
  catalog (\<^verbatim>\<open>src/catalog/mod.rs\<close>) and the snapshot-cloning transaction manager
  (\<^verbatim>\<open>src/txn/mod.rs\<close>). String search columns and table schemas are never inspected here
  and are type parameters.
\<close>

section \<open>NULL bitmaps\<close>

record null_bitmap =
  nb_bits :: "bool list"

definition nb_new :: "nat \<Rightarrow> null_bitmap" where
  "nb_new n = \<lparr>nb_bits = replicate n False\<rparr>"

definition nb_all_null :: "nat \<Rightarrow> null_bitmap" where
  "nb_all_null n = \<lparr>nb_bits = replicate n True\<rparr>"

definition nb_all_non_null :: "nat \<Rightarrow> null_bitmap" where
  "nb_all_non_null n = \<lparr>nb_bits = replicate n False\<rparr>"

definition nb_is_null :: "null_bitmap \<Rightarrow> nat \<Rightarrow> bool" where
  "nb_is_null bm idx = (case slice_get (nb_bits bm) idx of None \<Rightarrow> False | Some b \<Rightarrow> b)"

definition nb_set_null :: "null_bitmap \<Rightarrow> nat \<Rightarrow> null_bitmap" where
  "nb_set_null bm idx =
     (if idx < length (nb_bits bm) then bm\<lparr>nb_bits := (nb_bits bm)[idx := True]\<rparr> else bm)"

definition nb_set_non_null :: "null_bitmap \<Rightarrow> nat \<Rightarrow> null_bitmap" where
  "nb_set_non_null bm idx =
     (if idx < length (nb_bits bm) then bm\<lparr>nb_bits := (nb_bits bm)[idx := False]\<rparr> else bm)"

definition nb_null_count :: "null_bitmap \<Rightarrow> nat" where
  "nb_null_count bm = length (filter (\<lambda>b. b) (nb_bits bm))"

definition nb_non_null_count :: "null_bitmap \<Rightarrow> nat" where
  "nb_non_null_count bm = length (filter (\<lambda>b. \<not> b) (nb_bits bm))"

definition nb_has_nulls :: "null_bitmap \<Rightarrow> bool" where
  "nb_has_nulls bm = list_ex (\<lambda>b. b) (nb_bits bm)"

definition nb_non_null_mask :: "null_bitmap \<Rightarrow> bool list" where
  "nb_non_null_mask bm = nb_bits bm"

definition nb_push_null :: "null_bitmap \<Rightarrow> null_bitmap" where
  "nb_push_null bm = bm\<lparr>nb_bits := nb_bits bm @ [True]\<rparr>"

definition nb_push_non_null :: "null_bitmap \<Rightarrow> null_bitmap" where
  "nb_push_non_null bm = bm\<lparr>nb_bits := nb_bits bm @ [False]\<rparr>"

definition nb_truncate :: "null_bitmap \<Rightarrow> nat \<Rightarrow> null_bitmap" where
  "nb_truncate bm n = bm\<lparr>nb_bits := take n (nb_bits bm)\<rparr>"

definition nb_len :: "null_bitmap \<Rightarrow> nat" where
  "nb_len bm = length (nb_bits bm)"

definition nb_is_empty :: "null_bitmap \<Rightarrow> bool" where
  "nb_is_empty bm = (nb_bits bm = [])"

section \<open>Tables\<close>

record 'sc loaded_column =
  lc_name :: string
  lc_cells :: "u64 list"
  lc_row_count :: nat
  lc_string_search :: "'sc option"
  lc_null_bitmap :: "bool list option"

record 'sc loaded_table =
  lt_name :: string
  lt_columns :: "'sc loaded_column list"
  lt_row_count :: nat
  lt_i32_columns :: "i32 list option list"

record ('sc, 'sch) engine_table =
  t_name :: string
  t_columns :: "u64 list list"
  t_column_names :: "string list"
  t_row_count :: nat
  t_string_columns :: "'sc option list"
  t_null_bitmaps :: "null_bitmap option list"
  t_schema :: "'sch option"
  t_row_versions :: "version_chain list"
  t_i32_columns :: "i32 list option list"

text \<open>The loop that turns a loader's \<open>Vec<bool>\<close> into a bitmap.\<close>

definition bitmap_of_bits :: "bool list \<Rightarrow> null_bitmap" where
  "bitmap_of_bits bs =
     fold (\<lambda>(i, is_null) bm. if is_null then nb_set_null bm i else bm)
          (enumerate 0 bs) (nb_new (length bs))"

definition pad_to :: "nat \<Rightarrow> 'a \<Rightarrow> 'a list \<Rightarrow> 'a list" where
  "pad_to n x xs = xs @ replicate (n - length xs) x"

definition table_from_loaded :: "'sc loaded_table \<Rightarrow> ('sc, 'sch) engine_table" where
  "table_from_loaded loaded =
     (let cols = map lc_cells (lt_columns loaded);
          actual_min = (if cols = [] then 0 else Min (set (map length cols)))
      in \<lparr>t_name = lt_name loaded,
          t_columns = cols,
          t_column_names = map lc_name (lt_columns loaded),
          t_row_count = min (lt_row_count loaded) actual_min,
          t_string_columns = map lc_string_search (lt_columns loaded),
          t_null_bitmaps = map (\<lambda>c. map_option bitmap_of_bits (lc_null_bitmap c)) (lt_columns loaded),
          t_schema = None,
          t_row_versions = [],
          t_i32_columns = pad_to (length cols) None (lt_i32_columns loaded)\<rparr>)"

text \<open>\<open>iter().position(|n| n == name)\<close>\<close>

fun position :: "('a \<Rightarrow> bool) \<Rightarrow> 'a list \<Rightarrow> nat option" where
  "position p [] = None"
| "position p (x # xs) = (if p x then Some 0 else map_option Suc (position p xs))"

definition table_column_idx :: "('sc, 'sch) engine_table \<Rightarrow> string \<Rightarrow> nat option" where
  "table_column_idx t name = position (\<lambda>n. n = name) (t_column_names t)"

text \<open>\<open>column\<close> indexes \<open>columns\<close> and panics when names and columns have different lengths.\<close>

definition table_column :: "('sc, 'sch) engine_table \<Rightarrow> string \<Rightarrow> panic + u64 list option" where
  "table_column t name =
     (case table_column_idx t name of
        None \<Rightarrow> Inr None
      | Some idx \<Rightarrow> bind_panic (slice_index (t_columns t) idx) (\<lambda>c. Inr (Some c)))"

definition table_column_count :: "('sc, 'sch) engine_table \<Rightarrow> nat" where
  "table_column_count t = length (t_columns t)"

definition append_row_version ::
  "('sc, 'sch) engine_table \<Rightarrow> nat \<Rightarrow> row_version \<Rightarrow> ('sc, 'sch) engine_table" where
  "append_row_version t row_idx version =
     (let rv = (if length (t_row_versions t) \<le> row_idx
                then pad_to (row_idx + 1) [] (t_row_versions t) else t_row_versions t)
      in t\<lparr>t_row_versions := rv[row_idx := rv ! row_idx @ [version]]\<rparr>)"

definition mark_deleted ::
  "('sc, 'sch) engine_table \<Rightarrow> nat \<Rightarrow> txn_id \<Rightarrow> ('sc, 'sch) engine_table \<times> bool" where
  "mark_deleted t row_idx txn =
     (case slice_get (t_row_versions t) row_idx of
        None \<Rightarrow> (t, False)
      | Some chain \<Rightarrow>
          (if chain = [] then (t, False)
           else (case xmax (last chain) of
                   Some existing_xmax \<Rightarrow> (t, False)
                 | None \<Rightarrow> (t\<lparr>t_row_versions := (t_row_versions t)[row_idx :=
                             update_last (\<lambda>v. v\<lparr>xmax := Some txn\<rparr>) chain]\<rparr>, True))))"

definition latest_visible_version ::
  "('sc, 'sch) engine_table \<Rightarrow> nat \<Rightarrow> mvcc_txn_manager \<Rightarrow> mvcc_transaction \<Rightarrow> row_version option" where
  "latest_visible_version t row_idx m txn =
     (case slice_get (t_row_versions t) row_idx of
        None \<Rightarrow> None
      | Some chain \<Rightarrow> find_rev (\<lambda>v. visible m v txn) chain)"

section \<open>The executor's row filter\<close>

definition row_visible_to_active ::
  "('sc, 'sch) engine_table \<Rightarrow> mvcc_txn_manager \<Rightarrow> nat \<Rightarrow> bool" where
  "row_visible_to_active t m i =
     (if length (t_row_versions t) \<le> i then True
      else let chain = t_row_versions t ! i in
        if chain = [] then True
        else let active_txn_id = (case active_id m of None \<Rightarrow> 0 | Some a \<Rightarrow> a);
                 snap = (case active_snapshot_id m of None \<Rightarrow> current_commit_id m | Some s \<Rightarrow> s)
             in list_ex (\<lambda>v. is_visible_with_snapshot m v snap active_txn_id) (rev chain))"

section \<open>VACUUM of a table\<close>

definition vacuum_table_keep :: "mvcc_txn_manager \<Rightarrow> txn_id \<Rightarrow> row_version \<Rightarrow> bool" where
  "vacuum_table_keep m oldest v =
     (if txn_state_of m (xmin v) = Aborted then False
      else (case xmax v of
              None \<Rightarrow> True
            | Some x \<Rightarrow>
                (case txn_state_of m x of
                   Committed cid \<Rightarrow> (if cid \<le> oldest then False else True)
                 | _ \<Rightarrow> True)))"

definition compact_bitmap :: "nat list \<Rightarrow> null_bitmap \<Rightarrow> null_bitmap" where
  "compact_bitmap live bm =
     fold (\<lambda>(new_i, old_i) new_bm. if nb_is_null bm old_i then nb_set_null new_bm new_i else new_bm)
          (enumerate 0 live) (nb_new (length live))"

definition vacuum_table ::
  "mvcc_txn_manager \<Rightarrow> ('sc, 'sch) engine_table \<Rightarrow> panic + (('sc, 'sch) engine_table \<times> nat)" where
  "vacuum_table m t =
     (let oldest = oldest_active_snapshot_or_current m;
          (rv, removed) = vacuum_chains (vacuum_table_keep m oldest) (t_row_versions t);
          live = filter (\<lambda>i. rv ! i \<noteq> []) [0..<length rv];
          live_count = length live
      in if live_count < t_row_count t
         then bind_panic (map_panic (\<lambda>col. map_panic (slice_index col) live) (t_columns t))
                (\<lambda>cols. Inr (t\<lparr>t_columns := cols,
                     t_null_bitmaps := map (map_option (compact_bitmap live)) (t_null_bitmaps t),
                     t_row_versions := map (\<lambda>i. case slice_get rv i of Some c \<Rightarrow> c | None \<Rightarrow> []) live,
                     t_row_count := live_count\<rparr>, removed))
         else Inr (t\<lparr>t_row_versions := rv\<rparr>, removed))"

definition check_write_conflict_for_table ::
  "mvcc_txn_manager \<Rightarrow> ('sc, 'sch) engine_table \<Rightarrow> txn_id \<Rightarrow> txn_id \<Rightarrow> nat \<Rightarrow> conflict_error + unit" where
  "check_write_conflict_for_table m t active_txn_id active_snap row_idx =
     (case slice_get (t_row_versions t) row_idx of
        None \<Rightarrow> Inr ()
      | Some chain \<Rightarrow>
          (case find_rev (\<lambda>v. is_visible_with_snapshot m v active_snap active_txn_id) chain of
             None \<Rightarrow> Inr ()
           | Some v \<Rightarrow>
               (case xmax v of
                  None \<Rightarrow> Inr ()
                | Some x \<Rightarrow>
                    (if x = active_txn_id then Inr ()
                     else (case txn_state_of m x of
                        Committed cid \<Rightarrow>
                          (if active_snap < cid
                           then Inl \<lparr>message = ''write-write conflict: row '' @ show_nat row_idx
                                  @ '' was modified by transaction '' @ show_nat x
                                  @ '' (committed at cid='' @ show_nat cid
                                  @ '', after our snapshot '' @ show_nat active_snap @ '')'',
                                conflicting_txn = x\<rparr>
                           else Inr ())
                      | _ \<Rightarrow> Inr ())))))"

section \<open>Catalog and snapshot-cloning transactions\<close>

record ('sc, 'sch) catalog =
  cat_tables :: "(string, ('sc, 'sch) engine_table) hash_map"

definition catalog_new :: "('sc, 'sch) catalog" where
  "catalog_new = \<lparr>cat_tables = hm_new\<rparr>"

definition catalog_register :: "('sc, 'sch) catalog \<Rightarrow> ('sc, 'sch) engine_table \<Rightarrow> ('sc, 'sch) catalog" where
  "catalog_register c t = c\<lparr>cat_tables := hm_insert (cat_tables c) (t_name t) t\<rparr>"

definition catalog_get :: "('sc, 'sch) catalog \<Rightarrow> string \<Rightarrow> ('sc, 'sch) engine_table option" where
  "catalog_get c name = hm_get (cat_tables c) name"

definition catalog_with :: "('sc, 'sch) catalog \<Rightarrow> string \<Rightarrow> (('sc, 'sch) engine_table \<Rightarrow> 'r) \<Rightarrow> 'r option" where
  "catalog_with c name f = map_option f (hm_get (cat_tables c) name)"

definition catalog_with_mut ::
  "('sc, 'sch) catalog \<Rightarrow> string \<Rightarrow> (('sc, 'sch) engine_table \<Rightarrow> ('sc, 'sch) engine_table \<times> 'r)
     \<Rightarrow> ('sc, 'sch) catalog \<times> 'r option" where
  "catalog_with_mut c name f =
     (case hm_get (cat_tables c) name of
        None \<Rightarrow> (c, None)
      | Some t \<Rightarrow> (let (t', r) = f t in (c\<lparr>cat_tables := hm_insert (cat_tables c) name t'\<rparr>, Some r)))"

definition catalog_drop :: "('sc, 'sch) catalog \<Rightarrow> string \<Rightarrow> ('sc, 'sch) catalog \<times> bool" where
  "catalog_drop c name =
     (c\<lparr>cat_tables := hm_remove (cat_tables c) name\<rparr>, hm_get (cat_tables c) name \<noteq> None)"

definition catalog_get_column :: "('sc, 'sch) catalog \<Rightarrow> string \<Rightarrow> string \<Rightarrow> panic + u64 list option" where
  "catalog_get_column c table column =
     (case hm_get (cat_tables c) table of None \<Rightarrow> Inr None | Some t \<Rightarrow> table_column t column)"

definition catalog_table_names :: "('sc, 'sch) catalog \<Rightarrow> string list" where
  "catalog_table_names c = map fst (cat_tables c)"

definition catalog_len :: "('sc, 'sch) catalog \<Rightarrow> nat" where
  "catalog_len c = length (cat_tables c)"

definition clone_catalog :: "('sc, 'sch) catalog \<Rightarrow> ('sc, 'sch) catalog" where
  "clone_catalog c =
     fold (\<lambda>name new_cat. case catalog_get c name of None \<Rightarrow> new_cat | Some t \<Rightarrow> catalog_register new_cat t)
          (catalog_table_names c) catalog_new"

record ('sc, 'sch) snapshot_txn =
  st_id :: nat
  st_snapshot :: "('sc, 'sch) catalog"
  st_active :: bool

record ('sc, 'sch) txn_manager =
  tm_next_id :: nat
  tm_active :: "('sc, 'sch) snapshot_txn option"

definition txn_manager_new :: "('sc, 'sch) txn_manager" where
  "txn_manager_new = \<lparr>tm_next_id = 1, tm_active = None\<rparr>"

definition txn_manager_begin ::
  "('sc, 'sch) txn_manager \<Rightarrow> ('sc, 'sch) catalog \<Rightarrow> string + (('sc, 'sch) txn_manager \<times> nat)" where
  "txn_manager_begin tm c =
     (if tm_active tm \<noteq> None
      then Inl ''a transaction is already active (nested transactions not supported)''
      else let ident = tm_next_id tm
           in Inr (tm\<lparr>tm_next_id := u64_inc ident,
                      tm_active := Some \<lparr>st_id = ident, st_snapshot = clone_catalog c, st_active = True\<rparr>\<rparr>, ident))"

definition txn_manager_commit ::
  "('sc, 'sch) txn_manager \<Rightarrow> string + (('sc, 'sch) txn_manager \<times> ('sc, 'sch) catalog)" where
  "txn_manager_commit tm =
     (case tm_active tm of
        None \<Rightarrow> Inl ''no active transaction to commit''
      | Some txn \<Rightarrow> Inr (tm\<lparr>tm_active := None\<rparr>, st_snapshot txn))"

definition txn_manager_rollback :: "('sc, 'sch) txn_manager \<Rightarrow> string + ('sc, 'sch) txn_manager" where
  "txn_manager_rollback tm =
     (case tm_active tm of
        None \<Rightarrow> Inl ''no active transaction to rollback''
      | Some _ \<Rightarrow> Inr (tm\<lparr>tm_active := None\<rparr>))"

definition txn_manager_is_active :: "('sc, 'sch) txn_manager \<Rightarrow> bool" where
  "txn_manager_is_active tm \<longleftrightarrow> tm_active tm \<noteq> None"

section \<open>Bitmaps built by a loop\<close>

text \<open>The interface the table code uses of a NULL bitmap, and what its building loops compute.\<close>

locale null_flags =
  fixes new :: "nat \<Rightarrow> 'b"
    and is_null :: "'b \<Rightarrow> nat \<Rightarrow> bool"
    and set_null :: "'b \<Rightarrow> nat \<Rightarrow> 'b"
    and len :: "'b \<Rightarrow> nat"
  assumes len_new: "len (new n) = n"
    and is_null_new: "\<not> is_null (new n) i"
    and len_set: "len (set_null b i) = len b"
    and is_null_set: "is_null (set_null b i) j \<longleftrightarrow> (j = i \<and> i < len b) \<or> is_null b j"
begin

lemma fold_len: "len (fold (\<lambda>(i, x) b. if p x then set_null b i else b) (enumerate k xs) b) = len b"
  by (induction xs arbitrary: k b) (simp_all add: len_set)

lemma fold_is_null:
  "is_null (fold (\<lambda>(i, x) b. if p x then set_null b i else b) (enumerate k xs) b) j \<longleftrightarrow>
   is_null b j \<or> (k \<le> j \<and> j < k + length xs \<and> j < len b \<and> p (xs ! (j - k)))"
proof (induction xs arbitrary: k b j)
  case (Cons x xs)
  show ?case
    by (cases "j = k") (auto simp: Cons.IH len_set is_null_set nth_Cons' split: if_splits)
qed auto

lemma built_len: "len (fold (\<lambda>(i, x) b. if p x then set_null b i else b) (enumerate 0 xs) (new (length xs))) = length xs"
  by (simp add: fold_len len_new)

lemma built_is_null:
  "is_null (fold (\<lambda>(i, x) b. if p x then set_null b i else b) (enumerate 0 xs) (new (length xs))) j \<longleftrightarrow>
   j < length xs \<and> p (xs ! j)"
  by (auto simp: fold_is_null is_null_new len_new)

end

interpretation nb: null_flags nb_new nb_is_null nb_set_null nb_len
  by unfold_locales
     (auto simp: nb_new_def nb_is_null_def nb_set_null_def nb_len_def slice_get_def nth_list_update)

lemma compact_bitmap_laws:
  "nb_len (compact_bitmap live bm) = length live"
  "nb_is_null (compact_bitmap live bm) j \<longleftrightarrow> j < length live \<and> nb_is_null bm (live ! j)"
  by (simp_all add: compact_bitmap_def nb.built_len nb.built_is_null)

lemma bitmap_of_bits_laws:
  "nb_len (bitmap_of_bits bs) = length bs"
  "nb_is_null (bitmap_of_bits bs) j \<longleftrightarrow> j < length bs \<and> bs ! j"
  by (simp_all add: bitmap_of_bits_def nb.built_len nb.built_is_null)

lemma nb_counts: "nb_null_count bm + nb_non_null_count bm = nb_len bm"
  by (simp add: nb_null_count_def nb_non_null_count_def nb_len_def sum_length_filter_compl)

section \<open>VACUUM keeps what readers see\<close>

text \<open>A reader of the engine is a snapshot with the identifier of its transaction.\<close>

definition snapshot_reader_ok :: "mvcc_txn_manager \<Rightarrow> txn_id \<times> txn_id \<Rightarrow> bool" where
  "snapshot_reader_ok m r \<longleftrightarrow> oldest_active_snapshot_or_current m \<le> fst r \<and> txn_state_of m (snd r) \<noteq> Aborted"

lemma snapshot_visible_kept:
  "snapshot_reader_ok m r \<Longrightarrow> is_visible_with_snapshot m v (fst r) (snd r) \<Longrightarrow>
   vacuum_table_keep m (oldest_active_snapshot_or_current m) v"
  by (auto simp: snapshot_reader_ok_def is_visible_with_snapshot_def vacuum_table_keep_def
           split: if_splits option.splits txn_state.splits)

interpretation snapshot_reader: version_reader
  "\<lambda>m r v. is_visible_with_snapshot m v (fst r) (snd r)"
  "\<lambda>m. vacuum_table_keep m (oldest_active_snapshot_or_current m)" snapshot_reader_ok
  by unfold_locales (rule snapshot_visible_kept)

definition table_aligned :: "('sc, 'sch) engine_table \<Rightarrow> bool" where
  "table_aligned t \<longleftrightarrow> list_all (\<lambda>c. length c = t_row_count t) (t_columns t) \<and>
     list_all (\<lambda>bm. case bm of None \<Rightarrow> True | Some b \<Rightarrow> nb_len b = t_row_count t) (t_null_bitmaps t) \<and>
     length (t_row_versions t) = t_row_count t"

text \<open>Tables as the loaders and \<open>append_row_version\<close> leave them: the chains may stop short of the rows,
  and a row may have an empty chain. The executor shows a row without a version to every reader.\<close>

definition columns_aligned :: "('sc, 'sch) engine_table \<Rightarrow> bool" where
  "columns_aligned t \<longleftrightarrow> list_all (\<lambda>c. length c = t_row_count t) (t_columns t) \<and>
     list_all (\<lambda>bm. case bm of None \<Rightarrow> True | Some b \<Rightarrow> nb_len b = t_row_count t) (t_null_bitmaps t) \<and>
     length (t_row_versions t) \<le> t_row_count t"

definition versioned :: "('sc, 'sch) engine_table \<Rightarrow> nat \<Rightarrow> bool" where
  "versioned t i \<longleftrightarrow> i < length (t_row_versions t) \<and> t_row_versions t ! i \<noteq> []"

text \<open>The cells of a row and which of them are NULL.\<close>

definition row_data :: "('sc, 'sch) engine_table \<Rightarrow> nat \<Rightarrow> u64 list \<times> bool list" where
  "row_data t i = (map (\<lambda>c. c ! i) (t_columns t),
     map (\<lambda>bm. case bm of None \<Rightarrow> False | Some b \<Rightarrow> nb_is_null b i) (t_null_bitmaps t))"

definition visible_rows :: "('sc, 'sch) engine_table \<Rightarrow> mvcc_txn_manager \<Rightarrow> (u64 list \<times> bool list) list" where
  "visible_rows t m = map (row_data t) (filter (row_visible_to_active t m) [0..<t_row_count t])"

definition live_rows :: "mvcc_txn_manager \<Rightarrow> ('sc, 'sch) engine_table \<Rightarrow> nat list" where
  "live_rows m t = filter (\<lambda>i. filter (vacuum_table_keep m (oldest_active_snapshot_or_current m)) (t_row_versions t ! i) \<noteq> [])
     [0..<length (t_row_versions t)]"

definition kept_chain :: "mvcc_txn_manager \<Rightarrow> ('sc, 'sch) engine_table \<Rightarrow> nat \<Rightarrow> version_chain" where
  "kept_chain m t i = filter (vacuum_table_keep m (oldest_active_snapshot_or_current m)) (t_row_versions t ! i)"

definition compacted :: "mvcc_txn_manager \<Rightarrow> ('sc, 'sch) engine_table \<Rightarrow> ('sc, 'sch) engine_table" where
  "compacted m t = t\<lparr>t_columns := map (\<lambda>col. map (\<lambda>i. col ! i) (live_rows m t)) (t_columns t),
     t_null_bitmaps := map (map_option (compact_bitmap (live_rows m t))) (t_null_bitmaps t),
     t_row_versions := map (kept_chain m t) (live_rows m t),
     t_row_count := length (live_rows m t)\<rparr>"

lemma live_rows_bound: "i \<in> set (live_rows m t) \<Longrightarrow> i < length (t_row_versions t)"
  by (simp add: live_rows_def)

text \<open>VACUUM does not panic, and returns the compacted table unless every row has a version that is kept.\<close>

lemma vacuum_table_total:
  assumes "columns_aligned t"
  shows "\<exists>n. vacuum_table m t =
     Inr (if length (live_rows m t) < t_row_count t then compacted m t
          else t\<lparr>t_row_versions := map (kept_chain m t) [0..<length (t_row_versions t)]\<rparr>, n)"
proof -
  let ?keep = "vacuum_table_keep m (oldest_active_snapshot_or_current m)"
  have live: "filter (\<lambda>i. map (filter ?keep) (t_row_versions t) ! i \<noteq> []) [0..<length (t_row_versions t)] = live_rows m t"
    unfolding live_rows_def by (rule filter_cong) auto
  have cols: "map_panic (\<lambda>col. map_panic (slice_index col) (live_rows m t)) (t_columns t) =
      Inr (map (\<lambda>col. map (\<lambda>i. col ! i) (live_rows m t)) (t_columns t))"
    using assms live_rows_bound [of _ m t]
    by (intro map_panic_total) (fastforce simp: columns_aligned_def list_all_iff slice_index_def)
  have chains: "map (\<lambda>i. case slice_get (map (filter ?keep) (t_row_versions t)) i of Some c \<Rightarrow> c | None \<Rightarrow> [])
      (live_rows m t) = map (kept_chain m t) (live_rows m t)"
    using live_rows_bound [of _ m t] by (auto simp: slice_get_def kept_chain_def)
  have all: "map (filter ?keep) (t_row_versions t) = map (kept_chain m t) [0..<length (t_row_versions t)]"
    by (rule nth_equalityI) (simp_all add: kept_chain_def)
  show ?thesis
    using cols chains live by (auto simp: vacuum_table_def vacuum_chains_def Let_def compacted_def all [symmetric])
qed

lemma row_data_compacted:
  assumes "j < length (live_rows m t)"
  shows "row_data (compacted m t) j = row_data t (live_rows m t ! j)"
  using assms
  by (auto simp: row_data_def compacted_def compact_bitmap_laws comp_def split: option.splits)

lemma table_aligned_compacted: "table_aligned (compacted m t)"
  by (auto simp: table_aligned_def compacted_def list_all_iff compact_bitmap_laws split: option.splits)

text \<open>A reader inside a running transaction sees a row after VACUUM iff it saw it before.\<close>

definition active_reader :: "mvcc_txn_manager \<Rightarrow> txn_id \<times> txn_id" where
  "active_reader m = (case active_snapshot_id m of None \<Rightarrow> current_commit_id m | Some s \<Rightarrow> s,
     case active_id m of None \<Rightarrow> 0 | Some a \<Rightarrow> a)"

lemma active_reader_ok:
  assumes "mgr_inv m" "current_active m = Some a"
  shows "snapshot_reader_ok m (active_reader m)"
proof -
  have snap: "hm_get (active_snapshots m) (txn_ident a) = Some (snapshot_id a)"
    using mgr_invD(11) [OF assms] .
  then have run: "hm_get (txn_states m) (txn_ident a) = Some InProgress"
    using mgr_invD(8,9) [OF assms(1), of "txn_ident a"] by simp
  then show ?thesis
    using oldest_le_active [OF mgr_invD(2) [OF assms(1)] snap] assms(2)
    by (simp add: snapshot_reader_ok_def active_reader_def active_snapshot_id_def active_id_def
                  oldest_active_snapshot_or_current_def txn_state_of_def)
qed

lemma row_visible_chain:
  "i < length (t_row_versions t) \<Longrightarrow> row_visible_to_active t m i \<longleftrightarrow>
   t_row_versions t ! i = [] \<or>
   (\<exists>v\<in>set (t_row_versions t ! i). is_visible_with_snapshot m v (fst (active_reader m)) (snd (active_reader m)))"
  by (simp add: row_visible_to_active_def active_reader_def Let_def list_ex_iff)

lemma row_visible_kept:
  assumes "snapshot_reader_ok m (active_reader m)" "i < length (t_row_versions t)" "t_row_versions t ! i \<noteq> []"
  shows "row_visible_to_active t m i \<longleftrightarrow>
     (\<exists>v\<in>set (kept_chain m t i). is_visible_with_snapshot m v (fst (active_reader m)) (snd (active_reader m)))"
  using snapshot_visible_kept [OF assms(1)] assms(2,3) by (auto simp: row_visible_chain kept_chain_def)

lemma filter_as_nth: "filter P xs = map (\<lambda>j. xs ! j) (filter (\<lambda>j. P (xs ! j)) [0..<length xs])"
  by (metis (no_types, lifting) comp_def filter_cong filter_map map_nth)

text \<open>The visible rows that have a version.\<close>

definition visible_versioned :: "('sc, 'sch) engine_table \<Rightarrow> mvcc_txn_manager \<Rightarrow> (u64 list \<times> bool list) list" where
  "visible_versioned t m =
     map (row_data t) (filter (\<lambda>i. row_visible_to_active t m i \<and> versioned t i) [0..<t_row_count t])"

lemma visible_versioned_all: "(\<And>i. i < t_row_count t \<Longrightarrow> versioned t i) \<Longrightarrow> visible_versioned t m = visible_rows t m"
  unfolding visible_versioned_def visible_rows_def by (rule arg_cong, rule filter_cong) auto

lemma filter_upt_bound: "n \<le> k \<Longrightarrow> (\<And>i. P i \<Longrightarrow> i < n) \<Longrightarrow> filter P [0..<k] = filter P [0..<n]"
proof (induction k)
  case (Suc k)
  have "\<not> P k" if "n \<le> k"
    using Suc.prems(2) [of k] that by linarith
  with Suc.IH Suc.prems show ?case
    by (cases "n = Suc k") simp_all
qed simp

lemma visible_live:
  assumes ok: "snapshot_reader_ok m (active_reader m)" and al: "columns_aligned t"
  shows "filter (\<lambda>i. row_visible_to_active t m i \<and> versioned t i) [0..<t_row_count t] =
    filter (row_visible_to_active t m) (live_rows m t)"
proof -
  have seen: "row_visible_to_active t m i \<and> versioned t i \<longleftrightarrow> kept_chain m t i \<noteq> [] \<and> row_visible_to_active t m i"
    if "i < length (t_row_versions t)" for i
    using row_visible_kept [OF ok that] that
    by (cases "t_row_versions t ! i = []") (auto simp: versioned_def kept_chain_def filter_empty_conv)
  have "filter (\<lambda>i. row_visible_to_active t m i \<and> versioned t i) [0..<t_row_count t] =
      filter (\<lambda>i. row_visible_to_active t m i \<and> versioned t i) [0..<length (t_row_versions t)]"
    using al by (intro filter_upt_bound) (auto simp: columns_aligned_def versioned_def)
  also have "\<dots> = filter (\<lambda>i. kept_chain m t i \<noteq> [] \<and> row_visible_to_active t m i) [0..<length (t_row_versions t)]"
    using seen by (intro filter_cong) auto
  finally show ?thesis
    by (simp add: live_rows_def kept_chain_def filter_filter conj_commute)
qed

lemma visible_rows_compacted:
  assumes ok: "snapshot_reader_ok m (active_reader m)" and al: "columns_aligned t"
  shows "visible_rows (compacted m t) m = visible_versioned t m"
proof -
  let ?live = "live_rows m t"
  have count: "t_row_count (compacted m t) = length ?live" by (simp add: compacted_def)
  have "row_visible_to_active (compacted m t) m j \<longleftrightarrow> row_visible_to_active t m (?live ! j)" if "j < length ?live" for j
  proof -
    have b: "?live ! j < length (t_row_versions t)" and k: "kept_chain m t (?live ! j) \<noteq> []"
      using nth_mem [OF that] by (auto simp: live_rows_def kept_chain_def)
    then have "t_row_versions t ! (?live ! j) \<noteq> []"
      by (auto simp: kept_chain_def)
    then show ?thesis
      using row_visible_kept [OF ok b] row_visible_chain [of j "compacted m t" m] that k by (simp add: compacted_def)
  qed
  then have "filter (row_visible_to_active (compacted m t) m) [0..<length ?live] =
      filter (\<lambda>j. row_visible_to_active t m (?live ! j)) [0..<length ?live]"
    by (intro filter_cong) auto
  then have "visible_rows (compacted m t) m =
      map (\<lambda>j. row_data t (?live ! j)) (filter (\<lambda>j. row_visible_to_active t m (?live ! j)) [0..<length ?live])"
    using count by (simp add: visible_rows_def row_data_compacted)
  then show ?thesis
    unfolding visible_versioned_def visible_live [OF ok al] by (subst filter_as_nth) simp
qed

lemma all_rows_live:
  assumes "columns_aligned t" "\<not> length (live_rows m t) < t_row_count t"
  shows "length (t_row_versions t) = t_row_count t" "i < t_row_count t \<Longrightarrow> kept_chain m t i \<noteq> []"
proof -
  have "length (live_rows m t) \<le> length (t_row_versions t)"
    unfolding live_rows_def using length_filter_le [of _ "[0..<length (t_row_versions t)]"] by simp
  then show len: "length (t_row_versions t) = t_row_count t"
    using assms by (simp add: columns_aligned_def)
  assume i: "i < t_row_count t"
  show "kept_chain m t i \<noteq> []"
  proof
    assume "kept_chain m t i = []"
    then have "length (live_rows m t) < length [0..<t_row_count t]"
      unfolding live_rows_def len using i by (intro length_filter_less [of i]) (auto simp: kept_chain_def)
    then show False using assms(2) by simp
  qed
qed

lemma visible_rows_pruned:
  assumes ok: "snapshot_reader_ok m (active_reader m)" and al: "columns_aligned t"
    and all: "\<not> length (live_rows m t) < t_row_count t"
  shows "visible_rows (t\<lparr>t_row_versions := map (kept_chain m t) [0..<length (t_row_versions t)]\<rparr>) m = visible_versioned t m"
proof -
  let ?t' = "t\<lparr>t_row_versions := map (kept_chain m t) [0..<length (t_row_versions t)]\<rparr>"
  note live = all_rows_live [OF al all]
  have ne: "t_row_versions t ! i \<noteq> []" if "i < t_row_count t" for i
    using live(2) [OF that] by (auto simp: kept_chain_def)
  have "row_visible_to_active ?t' m i \<longleftrightarrow> row_visible_to_active t m i" if "i < t_row_count t" for i
    using that ne [OF that] live row_visible_kept [OF ok, of i t] row_visible_chain [of i ?t' m] by simp
  then have "filter (row_visible_to_active ?t' m) [0..<t_row_count t] =
      filter (row_visible_to_active t m) [0..<t_row_count t]"
    by (intro filter_cong) auto
  then have "visible_rows ?t' m = visible_rows t m"
    by (simp add: visible_rows_def row_data_def)
  then show ?thesis
    using visible_versioned_all [of t m] ne live(1) by (simp add: versioned_def)
qed

section \<open>Catalog clones\<close>

lemma catalog_get_register: "catalog_get (catalog_register c t) k = (if k = t_name t then Some t else catalog_get c k)"
  by (simp add: catalog_get_def catalog_register_def hm_simps)

lemma clone_fold_get:
  assumes "\<And>name t. catalog_get c name = Some t \<Longrightarrow> t_name t = name"
  shows "catalog_get (fold (\<lambda>name new_cat. case catalog_get c name of None \<Rightarrow> new_cat
             | Some t \<Rightarrow> catalog_register new_cat t) names cat) k =
         (if k \<in> set names \<and> catalog_get c k \<noteq> None then catalog_get c k else catalog_get cat k)"
  using assms by (induction names arbitrary: cat) (auto simp: catalog_get_register split: option.splits)

lemma clone_catalog_get:
  assumes "\<And>name t. catalog_get c name = Some t \<Longrightarrow> t_name t = name"
  shows "catalog_get (clone_catalog c) k = catalog_get c k"
proof -
  have "k \<in> set (catalog_table_names c)" if "catalog_get c k \<noteq> None"
    using that by (auto simp: catalog_get_def catalog_table_names_def hm_get_def dest: map_of_SomeD intro: rev_image_eqI)
  moreover have "catalog_get catalog_new k = None"
    by (simp add: catalog_get_def catalog_new_def hm_simps)
  ultimately show ?thesis
    using clone_fold_get [of c "catalog_table_names c" catalog_new k, OF assms]
    by (cases "catalog_get c k") (auto simp: clone_catalog_def)
qed

section \<open>Properties\<close>

text \<open>C2. VACUUM of a table inside a running transaction, whatever chains its rows have, never panics,
  leaves columns, bitmaps and version chains aligned with the new row count, and keeps, of the rows the
  transaction sees, exactly those that have a version, with their cells and NULL flags and in their order.
  So when every row has a version the visible rows are unchanged; a row without one (loaded from a file,
  or skipped over by \<open>append_row_version\<close>), which the executor shows to every reader, is removed.\<close>

theorem vacuum_table_preserves_visible_rows:
  assumes "mgr_inv m" "current_active m = Some a" "columns_aligned t"
  shows "\<exists>t' n. vacuum_table m t = Inr (t', n) \<and> table_aligned t' \<and>
    visible_rows t' m =
      map (row_data t) (filter (\<lambda>i. row_visible_to_active t m i \<and> versioned t i) [0..<t_row_count t]) \<and>
    ((\<forall>i<t_row_count t. versioned t i) \<longrightarrow> visible_rows t' m = visible_rows t m)"
proof -
  note ok = active_reader_ok [OF assms(1,2)]
  let ?p = "t\<lparr>t_row_versions := map (kept_chain m t) [0..<length (t_row_versions t)]\<rparr>"
  have "table_aligned ?p" if "\<not> length (live_rows m t) < t_row_count t"
    using assms(3) all_rows_live(1) [OF assms(3) that] by (auto simp: columns_aligned_def table_aligned_def list_all_iff split: option.splits)
  then have "\<exists>t' n. vacuum_table m t = Inr (t', n) \<and> table_aligned t' \<and> visible_rows t' m = visible_versioned t m"
    using vacuum_table_total [OF assms(3), of m] table_aligned_compacted [of m t]
      visible_rows_compacted [OF ok assms(3)] visible_rows_pruned [OF ok assms(3)]
    by (cases "length (live_rows m t) < t_row_count t") fastforce+
  then show ?thesis
    using visible_versioned_all [of t m] by (auto simp: visible_versioned_def)
qed

text \<open>C16. VACUUM deletes autocommitted rows. A row inserted outside a transaction carries
  creator 0, which the manager never records, so \<open>txn_state\<close> calls it aborted: an
  autocommit reader sees the row, and VACUUM drops it together with its cells; and a
  transaction does not see it even before that.\<close>

theorem vacuum_drops_autocommitted_row:
  assumes "mgr_inv m" "t_row_versions t = [[row_version_new 0 vals]]" "t_columns t = [[cell]]"
    and "t_null_bitmaps t = [None]" "t_row_count t = 1"
  shows "(current_active m = None \<longrightarrow> row_visible_to_active t m 0) \<and>
         (current_active m \<noteq> None \<longrightarrow> \<not> row_visible_to_active t m 0) \<and>
         (\<exists>t'. vacuum_table m t = Inr (t', 1) \<and> t_row_count t' = 0 \<and> t_columns t' = [[]])"
proof -
  have none: "hm_get (txn_states m) 0 = None"
    using mgr_invD(5) [OF assms(1), of 0] by fastforce
  have pos: "txn_ident a \<noteq> 0" if "current_active m = Some a" for a
    using mgr_invD(11) [OF assms(1) that] mgr_invD(8,9) [OF assms(1), of "txn_ident a"] none
    by (metis option.distinct(1))
  show ?thesis
    using assms(2-5) none pos
    by (cases "current_active m")
       (auto simp: row_visible_to_active_def is_visible_with_snapshot_def row_version_new_def txn_state_of_def
                   active_id_def Let_def vacuum_table_def vacuum_chains_def vacuum_table_keep_def)
qed

text \<open>VACUUM does not compact the sidecars: string search columns and i32 columns keep
  one entry per row of before the run, whatever rows were dropped.\<close>

theorem vacuum_table_leaves_sidecars:
  assumes "vacuum_table m t = Inr (t', n)"
  shows "t_string_columns t' = t_string_columns t \<and> t_i32_columns t' = t_i32_columns t"
  using assms by (auto simp: vacuum_table_def vacuum_chains_def Let_def bind_panic_Inr split: if_splits)

text \<open>The conflict test of the engine raises an error exactly when the newest version the
  transaction sees was deleted by another transaction that committed after its snapshot.\<close>

theorem check_write_conflict_for_table_iff:
  "(\<exists>e. check_write_conflict_for_table m t aid snap i = Inl e \<and> conflicting_txn e = x) \<longleftrightarrow>
   (\<exists>v cid. i < length (t_row_versions t) \<and>
      find_rev (\<lambda>v. is_visible_with_snapshot m v snap aid) (t_row_versions t ! i) = Some v \<and>
      xmax v = Some x \<and> x \<noteq> aid \<and> hm_get (txn_states m) x = Some (Committed cid) \<and> snap < cid)"
  by (auto simp: check_write_conflict_for_table_def slice_get_def txn_state_of_def
           split: option.splits txn_state.splits if_splits)

text \<open>C11. A transaction of the snapshot-cloning manager works on a catalog with the same
  tables: the clone taken at BEGIN answers every lookup as the original, COMMIT hands that
  clone back, and a second BEGIN before that is refused.\<close>

theorem snapshot_txn_roundtrip:
  assumes "hm_ok (cat_tables c)" "\<And>name t. catalog_get c name = Some t \<Longrightarrow> t_name t = name"
    and "tm_active tm = None"
  shows "\<exists>tm' ident c'. txn_manager_begin tm c = Inr (tm', ident) \<and>
           (\<exists>e. txn_manager_begin tm' c = Inl e) \<and>
           txn_manager_commit tm' = Inr (tm'\<lparr>tm_active := None\<rparr>, c') \<and>
           catalog_get c' = catalog_get c"
proof -
  have "catalog_get (clone_catalog c) = catalog_get c"
    using clone_catalog_get [OF assms(2)] by (rule ext)
  then show ?thesis
    using assms(3) by (auto simp: txn_manager_begin_def txn_manager_commit_def Let_def)
qed

section \<open>Instances\<close>

text \<open>A row of committed transaction 1 and one of a transaction the manager does not know.\<close>

definition demo_engine_table :: "(unit, unit) engine_table" where
  "demo_engine_table = \<lparr>t_name = ''t'', t_columns = [[10, 20]], t_column_names = [''c''], t_row_count = 2,
     t_string_columns = [None], t_null_bitmaps = [Some (nb_all_non_null 2)], t_schema = None,
     t_row_versions = [[row_version_new 1 [10]], [row_version_new 9 [20]]], t_i32_columns = [None]\<rparr>"

text \<open>A third row without a version is seen before VACUUM and gone after it.\<close>

theorem vacuum_table_preserves_visible_rows_witness:
  "(\<exists>t' n. vacuum_table demo_mgr demo_engine_table = Inr (t', n) \<and> table_aligned t' \<and> visible_rows t' demo_mgr = [([10], [False])]) \<and>
   visible_rows (demo_engine_table\<lparr>t_columns := [[10, 20, 30]], t_row_count := 3, t_null_bitmaps := [None]\<rparr>) demo_mgr =
     [([10], [False]), ([30], [False])] \<and>
   (\<exists>t' n. vacuum_table demo_mgr (demo_engine_table\<lparr>t_columns := [[10, 20, 30]], t_row_count := 3, t_null_bitmaps := [None]\<rparr>) = Inr (t', n) \<and>
     visible_rows t' demo_mgr = [([10], [False])])"
proof -
  let ?t = demo_engine_table
  let ?t3 = "demo_engine_table\<lparr>t_columns := [[10, 20, 30]], t_row_count := 3, t_null_bitmaps := [None]\<rparr>"
  obtain a where a: "current_active demo_mgr = Some a" by (simp add: mvcc_eval)
  have al: "columns_aligned ?t" "columns_aligned ?t3"
    by (simp_all add: columns_aligned_def demo_engine_table_def nb_all_non_null_def nb_len_def)
  have vis: "row_visible_to_active t demo_mgr i \<longleftrightarrow> i \<noteq> 1" if "t_row_versions t = t_row_versions ?t" "i < 3" for i and t :: "(unit, unit) engine_table"
  proof -
    have "i = 0 \<or> i = 1 \<or> i = 2" using that(2) by arith
    then show ?thesis
      using that(1)
      by (auto simp: demo_engine_table_def row_visible_to_active_def is_visible_with_snapshot_def txn_state_of_def
            active_id_def active_snapshot_id_def mvcc_eval hm_get_def [of "[]"])
  qed
  have rows: "filter (\<lambda>i. row_visible_to_active ?t demo_mgr i \<and> versioned ?t i) [0..<t_row_count ?t] = [0]"
    "filter (\<lambda>i. row_visible_to_active ?t3 demo_mgr i \<and> versioned ?t3 i) [0..<t_row_count ?t3] = [0]"
    "filter (row_visible_to_active ?t3 demo_mgr) [0..<t_row_count ?t3] = [0, 2]"
    using vis [of ?t] vis [of ?t3] by (simp_all add: versioned_def demo_engine_table_def upt_conv_Cons)
  have cells: "map (row_data ?t) [0] = [([10], [False])]" "map (row_data ?t3) [0] = [([10], [False])]"
    "map (row_data ?t3) [0, 2] = [([10], [False]), ([30], [False])]"
    by (simp_all add: row_data_def demo_engine_table_def nb_all_non_null_def nb_is_null_def slice_get_def)
  note law = vacuum_table_preserves_visible_rows [OF demo_inv a]
  show ?thesis
    using law [OF al(1), unfolded rows cells] law [OF al(2), unfolded rows cells]
    unfolding visible_rows_def [of ?t3] rows cells by blast
qed

theorem vacuum_drops_autocommitted_row_witness:
  "\<exists>t'. vacuum_table demo_mgr (demo_engine_table\<lparr>t_columns := [[7]], t_row_count := 1, t_null_bitmaps := [None],
       t_row_versions := [[row_version_new 0 [7]]]\<rparr>) = Inr (t', 1) \<and> t_row_count t' = 0 \<and> t_columns t' = [[]]"
  using vacuum_drops_autocommitted_row [OF demo_inv, of "demo_engine_table\<lparr>t_columns := [[7]], t_row_count := 1,
       t_null_bitmaps := [None], t_row_versions := [[row_version_new 0 [7]]]\<rparr>" "[7]" 7] by simp

theorem vacuum_table_leaves_sidecars_witness:
  "\<exists>t' n. vacuum_table demo_mgr demo_engine_table = Inr (t', n) \<and> t_i32_columns t' = [None]"
proof -
  obtain t' n where "vacuum_table demo_mgr demo_engine_table = Inr (t', n)"
    using vacuum_table_total [of demo_engine_table demo_mgr]
    by (auto simp: columns_aligned_def demo_engine_table_def nb_all_non_null_def nb_len_def)
  then show ?thesis
    using vacuum_table_leaves_sidecars [of demo_mgr demo_engine_table t' n] by (simp add: demo_engine_table_def)
qed

theorem snapshot_txn_roundtrip_witness:
  "\<exists>tm' ident c'. txn_manager_begin txn_manager_new (catalog_register catalog_new demo_engine_table) = Inr (tm', ident) \<and>
     txn_manager_commit tm' = Inr (tm'\<lparr>tm_active := None\<rparr>, c') \<and>
     catalog_get c' ''t'' = Some demo_engine_table"
proof -
  let ?c = "catalog_register catalog_new demo_engine_table"
  have get: "catalog_get ?c name = (if name = ''t'' then Some demo_engine_table else None)" for name
    by (simp add: catalog_get_def catalog_register_def catalog_new_def hm_simps demo_engine_table_def)
  have "hm_ok (cat_tables ?c)" by (simp add: catalog_register_def catalog_new_def hm_simps)
  moreover have "catalog_get ?c name = Some t \<Longrightarrow> t_name t = name" for name t
    using get [of name] by (auto simp: demo_engine_table_def split: if_splits)
  ultimately show ?thesis
    using snapshot_txn_roundtrip [of ?c txn_manager_new] get by (fastforce simp: txn_manager_new_def)
qed

end
