(* ===== verification/Bitmap.thy ===== *)
theory Bitmap
  imports Prelude
begin

unbundle bit_operations_syntax

text \<open>
  The packed row bitmap and the filter kernels of \<open>src/exec/bitmap.rs\<close>: construction, bit access,
  boolean combination, counting, iteration over set bits, and the comparison kernels over u64,
  i64, f64 and i32 columns with their AVX-512 and scalar paths. A vector register is the list of its
  lanes; an intrinsic acts lane by lane. The result of \<open>is_x86_feature_detected!\<close> is an argument
  (\<open>avx\<close>). A double is its bit pattern, compared as IEEE 754 prescribes. \<open>debug_assert!\<close> is absent, as
  in a release build; an index outside a vector is a panic and an unchecked one undefined behaviour.
\<close>

section \<open>The bitmap\<close>

record bitmap =
  bm_bits :: "u8 list"
  bm_len :: nat

definition bm_new :: "nat \<Rightarrow> bitmap" where
  "bm_new len = \<lparr>bm_bits = replicate ((len + 7) div 8) 0, bm_len = len\<rparr>"

definition bm_all_ones :: "nat \<Rightarrow> bitmap" where
  "bm_all_ones len =
     (let bits = replicate ((len + 7) div 8) 0xFF;
          unused = (8 - len mod 8) mod 8
      in \<lparr>bm_bits = (if 0 < unused \<and> bits \<noteq> [] then update_last (drop_bit unused) bits else bits),
          bm_len = len\<rparr>)"

definition bm_is_empty :: "bitmap \<Rightarrow> bool" where
  "bm_is_empty bm \<longleftrightarrow> bm_len bm = 0"

text \<open>\<open>1u8 << k\<close>\<close>

definition shl_one :: "nat \<Rightarrow> u8" where
  "shl_one k = push_bit k 1"

definition bm_set :: "bitmap \<Rightarrow> nat \<Rightarrow> panic + bitmap" where
  "bm_set bm i =
     bind_panic (slice_index (bm_bits bm) (i div 8)) (\<lambda>b.
     Inr (bm\<lparr>bm_bits := (bm_bits bm)[i div 8 := b OR shl_one (i mod 8)]\<rparr>))"

definition bm_clear :: "bitmap \<Rightarrow> nat \<Rightarrow> panic + bitmap" where
  "bm_clear bm i =
     bind_panic (slice_index (bm_bits bm) (i div 8)) (\<lambda>b.
     Inr (bm\<lparr>bm_bits := (bm_bits bm)[i div 8 := b AND NOT (shl_one (i mod 8))]\<rparr>))"

definition bm_get :: "bitmap \<Rightarrow> nat \<Rightarrow> panic + bool" where
  "bm_get bm i =
     bind_panic (slice_index (bm_bits bm) (i div 8)) (\<lambda>b. Inr (drop_bit (i mod 8) b AND 1 \<noteq> 0))"

text \<open>\<open>for i in 0..n { out[i] = op(a[i], b[i]) }\<close>, the loop of \<open>and\<close>, \<open>or\<close>, \<open>and_inplace\<close> and \<open>or_inplace\<close>.\<close>

definition byte_loop :: "(u8 \<Rightarrow> u8 \<Rightarrow> u8) \<Rightarrow> nat \<Rightarrow> u8 list \<Rightarrow> u8 list \<Rightarrow> u8 list \<Rightarrow> panic + u8 list" where
  "byte_loop op n a b out =
     fold_panic (\<lambda>i out. bind_panic (slice_index a i) (\<lambda>x. bind_panic (slice_index b i) (\<lambda>y.
       slice_set out i (op x y)))) [0..<n] out"

definition bm_and :: "bitmap \<Rightarrow> bitmap \<Rightarrow> panic + bitmap" where
  "bm_and s other =
     (let out = bm_new (min (bm_len s) (bm_len other));
          n = min (length (bm_bits s)) (length (bm_bits other))
      in bind_panic (byte_loop (AND) n (bm_bits s) (bm_bits other) (bm_bits out)) (\<lambda>bits.
         Inr (out\<lparr>bm_bits := bits\<rparr>)))"

definition bm_or :: "bitmap \<Rightarrow> bitmap \<Rightarrow> panic + bitmap" where
  "bm_or s other =
     (let out = bm_new (max (bm_len s) (bm_len other));
          n = min (length (bm_bits s)) (length (bm_bits other))
      in bind_panic (byte_loop (OR) n (bm_bits s) (bm_bits other) (bm_bits out)) (\<lambda>bits.
         Inr (out\<lparr>bm_bits := bits\<rparr>)))"

definition bm_not :: "bitmap \<Rightarrow> panic + bitmap" where
  "bm_not s =
     (let out = bm_new (bm_len s);
          unused = (8 - bm_len s mod 8) mod 8;
          mask = shl_one (8 - unused) - 1
      in bind_panic (fold_panic (\<lambda>i out. bind_panic (slice_index (bm_bits s) i) (\<lambda>x. slice_set out i (NOT x)))
                       [0..<length (bm_bits s)] (bm_bits out)) (\<lambda>bits.
         Inr (out\<lparr>bm_bits := (if 0 < unused \<and> bits \<noteq> [] then update_last (\<lambda>b. b AND mask) bits else bits)\<rparr>)))"

text \<open>\<open>u8::count_ones\<close> and \<open>u8::trailing_zeros\<close>\<close>

definition count_ones_u8 :: "u8 \<Rightarrow> nat" where
  "count_ones_u8 b = length (filter (bit b) [0..<8])"

definition trailing_zeros_u8 :: "u8 \<Rightarrow> nat" where
  "trailing_zeros_u8 b = length (takeWhile (\<lambda>i. \<not> bit b i) [0..<8])"

definition bm_count_ones :: "bitmap \<Rightarrow> nat" where
  "bm_count_ones bm = sum_list (map count_ones_u8 (bm_bits bm))"

definition bm_to_bool_vec :: "bitmap \<Rightarrow> panic + bool list" where
  "bm_to_bool_vec bm = map_panic (bm_get bm) [0..<bm_len bm]"

definition bm_from_bool_slice :: "bool list \<Rightarrow> panic + bitmap" where
  "bm_from_bool_slice bools =
     fold_panic (\<lambda>(i, b) bm. if b then bm_set bm i else Inr bm) (enumerate 0 bools) (bm_new (length bools))"

definition bm_to_bool_slice :: "bitmap \<Rightarrow> bool list \<Rightarrow> panic + bool list" where
  "bm_to_bool_slice bm out =
     fold_panic (\<lambda>i out. bind_panic (bm_get bm i) (slice_set out i)) [0..<bm_len bm] out"

definition bm_get_batch :: "bitmap \<Rightarrow> nat list \<Rightarrow> panic + bool list" where
  "bm_get_batch bm indices = map_panic (bm_get bm) indices"

text \<open>The three parts of \<open>count_ones_range\<close>: partial head byte, full bytes, partial tail byte.\<close>

definition count_bits_loop :: "bitmap \<Rightarrow> nat \<Rightarrow> nat \<Rightarrow> nat \<Rightarrow> panic + nat" where
  "count_bits_loop bm a b count =
     fold_panic (\<lambda>i count. bind_panic (bm_get bm i) (\<lambda>set. Inr (if set then count + 1 else count))) [a..<b] count"

definition bm_count_ones_range :: "bitmap \<Rightarrow> nat \<Rightarrow> nat \<Rightarrow> panic + nat" where
  "bm_count_ones_range bm start end0 =
     (if end0 \<le> start \<or> bm_len bm \<le> start then Inr 0
      else let fin = min end0 (bm_len bm);
               head_byte = start div 8;
               head_bit = start mod 8;
               head_end = min (min fin ((head_byte + 1) * 8)) fin;
               full_start = (if head_bit \<noteq> 0 then head_byte + 1 else head_byte);
               full_end = fin div 8;
               tail_start = max (full_end * 8) head_end
           in bind_panic (if head_bit \<noteq> 0 \<and> start < head_end then count_bits_loop bm start head_end 0 else Inr 0) (\<lambda>c1.
              bind_panic (if full_start < full_end
                          then bind_panic (slice_range (bm_bits bm) full_start full_end) (\<lambda>slice.
                               Inr (c1 + sum_list (map count_ones_u8 slice)))
                          else Inr c1) (\<lambda>c2.
              if tail_start < fin then count_bits_loop bm tail_start fin c2 else Inr c2)))"

text \<open>The iterator over set bits. Its state is \<open>pos\<close>; \<open>iter_set_bits().collect()\<close> calls it until it ends.\<close>

function set_bit_next :: "u8 list \<Rightarrow> nat \<Rightarrow> nat \<Rightarrow> panic + nat option \<times> nat" where
  "set_bit_next bits len pos =
     (if pos < len
      then let byte_idx = pos div 8; bit_idx = pos mod 8
           in bind_panic (slice_index bits byte_idx) (\<lambda>byte.
              if byte = 0 then set_bit_next bits len ((byte_idx + 1) * 8)
              else let shifted = drop_bit bit_idx byte
                   in if shifted = 0 then set_bit_next bits len ((byte_idx + 1) * 8)
                      else let result = pos + trailing_zeros_u8 shifted
                           in if len \<le> result then Inr (None, pos)
                              else Inr (Some result, result + 1))
      else Inr (None, pos))"
  by auto
termination
  by (relation "measure (\<lambda>(bits, len, pos). len - pos)") auto

declare set_bit_next.simps [simp del]

lemma set_bit_next_progress:
  "set_bit_next bits len pos = Inr (Some r, p) \<Longrightarrow> p = r + 1 \<and> pos \<le> r \<and> r < len"
proof (induction "len - pos" arbitrary: pos rule: less_induct)
  case less
  let ?next = "(pos div 8 + 1) * 8"
  have lt: "pos < ?next"
    using div_less_iff_less_mult [of 8 pos "pos div 8 + 1"] by simp
  have "pos < len"
    using less.prems by (simp add: set_bit_next.simps split: if_splits)
  then have "set_bit_next bits len ?next = Inr (Some r, p) \<or> (\<exists>t. r = pos + t \<and> r < len \<and> p = r + 1)"
    using less.prems unfolding set_bit_next.simps [of bits len pos] Let_def
    by (auto simp: bind_panic_Inr split: if_splits)
  then show ?case
    using less.hyps [OF diff_less_mono2 [OF lt \<open>pos < len\<close>]] lt by (elim disjE) (blast dest: less_le_trans less_imp_le, auto)
qed

function collect_set_bits :: "u8 list \<Rightarrow> nat \<Rightarrow> nat \<Rightarrow> panic + nat list" where
  "collect_set_bits bits len pos =
     bind_panic (set_bit_next bits len pos) (\<lambda>(r, pos').
       case r of None \<Rightarrow> Inr []
       | Some i \<Rightarrow> bind_panic (collect_set_bits bits len pos') (\<lambda>rest. Inr (i # rest)))"
  by auto
termination
  by (relation "measure (\<lambda>(bits, len, pos). len - pos)") (auto dest: set_bit_next_progress)

declare collect_set_bits.simps [simp del]

definition bm_iter_set_bits :: "bitmap \<Rightarrow> panic + nat list" where
  "bm_iter_set_bits bm = collect_set_bits (bm_bits bm) (bm_len bm) 0"

section \<open>Bit level view\<close>

text \<open>Row \<open>i\<close> of a packed buffer. A bitmap is well formed when its buffer has one bit per row, rounded
  up to bytes, and the unused bits are clear; it then stands for the list of its rows' bits.\<close>

definition packed_bit :: "u8 list \<Rightarrow> nat \<Rightarrow> bool" where
  "packed_bit bits i = bit (bits ! (i div 8)) (i mod 8)"

definition bm_ok :: "bitmap \<Rightarrow> bool" where
  "bm_ok bm \<longleftrightarrow> length (bm_bits bm) = (bm_len bm + 7) div 8 \<and>
     (\<forall>i < 8 * length (bm_bits bm). packed_bit (bm_bits bm) i \<longrightarrow> i < bm_len bm)"

definition bm_rows :: "bitmap \<Rightarrow> bool list" where
  "bm_rows bm = map (packed_bit (bm_bits bm)) [0..<bm_len bm]"

lemma byte_index_bound: "length bits = (n + 7) div 8 \<Longrightarrow> i < n \<Longrightarrow> i div 8 < length bits" for n i :: nat
  by auto

lemma u8_bit_eqI: "(\<And>k. k < 8 \<Longrightarrow> bit a k = bit b k) \<Longrightarrow> a = b" for a b :: u8
  by (rule bit_word_eqI) simp

lemma packed_bit_byte: "k < 8 \<Longrightarrow> packed_bit bits (8 * j + k) = bit (bits ! j) k"
  by (simp add: packed_bit_def)

lemma packed_eqI:
  assumes "length a = length b" "\<And>i. i < 8 * length a \<Longrightarrow> packed_bit a i = packed_bit b i"
  shows "a = b"
proof (rule nth_equalityI [OF assms(1)], rule u8_bit_eqI)
  fix j k :: nat
  assume "j < length a" "k < 8"
  then show "bit (a ! j) k = bit (b ! j) k"
    using assms(2) [of "8 * j + k"] by (simp add: packed_bit_byte)
qed

lemma packed_bit_update:
  assumes "j < length bits"
  shows "packed_bit (bits[j := b]) i = (if i div 8 = j then bit b (i mod 8) else packed_bit bits i)"
  using assms by (simp add: packed_bit_def nth_list_update)

lemma bit_or_one: "k < 8 \<Longrightarrow> m < 8 \<Longrightarrow> bit (b OR shl_one k) m \<longleftrightarrow> bit b m \<or> m = k" for b :: u8
  by (auto simp: bit_simps shl_one_def)

lemma bit_and_not_one: "k < 8 \<Longrightarrow> m < 8 \<Longrightarrow> bit (b AND NOT (shl_one k)) m \<longleftrightarrow> bit b m \<and> m \<noteq> k" for b :: u8
  by (auto simp: bit_simps shl_one_def)

lemma shift_and_one: "drop_bit k b AND 1 \<noteq> 0 \<longleftrightarrow> bit b k" for b :: u8
  by (simp add: bit_iff_and_drop_bit_eq_1 and_one_eq mod_2_eq_odd)

lemma same_byte_bit: "i div 8 = j div 8 \<Longrightarrow> (i mod 8 = j mod 8) = (i = j)" for i j :: nat
  by (metis div_mult_mod_eq)

lemma packed_bit_set:
  assumes "i div 8 < length bits"
  shows "packed_bit (bits[i div 8 := (bits ! (i div 8)) OR shl_one (i mod 8)]) j \<longleftrightarrow> packed_bit bits j \<or> j = i"
  using assms by (auto simp: packed_bit_update bit_or_one same_byte_bit) (simp_all add: packed_bit_def)

lemma packed_bit_clear:
  assumes "i div 8 < length bits"
  shows "packed_bit (bits[i div 8 := (bits ! (i div 8)) AND NOT (shl_one (i mod 8))]) j \<longleftrightarrow> packed_bit bits j \<and> j \<noteq> i"
  using assms by (auto simp: packed_bit_update bit_and_not_one same_byte_bit) (simp_all add: packed_bit_def)

lemma length_bm_rows [simp]: "length (bm_rows bm) = bm_len bm"
  by (simp add: bm_rows_def)

lemma nth_bm_rows: "i < bm_len bm \<Longrightarrow> bm_rows bm ! i = packed_bit (bm_bits bm) i"
  by (simp add: bm_rows_def)

lemma bm_eqI:
  assumes "bm_ok a" "bm_ok b" "bm_rows a = bm_rows b"
  shows "a = b"
proof -
  have len: "bm_len a = bm_len b"
    using assms(3) length_bm_rows by metis
  have "bm_bits a = bm_bits b"
  proof (rule packed_eqI)
    show "length (bm_bits a) = length (bm_bits b)"
      using assms(1,2) len by (simp add: bm_ok_def)
    fix i
    assume "i < 8 * length (bm_bits a)"
    then show "packed_bit (bm_bits a) i = packed_bit (bm_bits b) i"
      using assms len nth_bm_rows [of i a] nth_bm_rows [of i b]
      by (cases "i < bm_len a") (auto simp: bm_ok_def)
  qed
  then show ?thesis using len by simp
qed

lemma bm_okI:
  assumes "length (bm_bits bm) = (bm_len bm + 7) div 8"
    and "\<And>i. i < 8 * length (bm_bits bm) \<Longrightarrow> packed_bit (bm_bits bm) i \<longleftrightarrow> i < bm_len bm \<and> f i"
  shows "bm_ok bm" "bm_rows bm = map f [0..<bm_len bm]"
  using assms by (auto simp: bm_ok_def bm_rows_def byte_index_bound)

lemma bm_get_ok: "bm_ok bm \<Longrightarrow> i < bm_len bm \<Longrightarrow> bm_get bm i = Inr (bm_rows bm ! i)"
  by (simp add: bm_get_def bm_ok_def slice_access_ok byte_index_bound nth_bm_rows packed_bit_def shift_and_one)

lemma bm_set_ok:
  assumes "bm_ok bm" "i < bm_len bm"
  shows "\<exists>bm'. bm_set bm i = Inr bm' \<and> bm_ok bm' \<and> bm_rows bm' = (bm_rows bm)[i := True]"
proof -
  have i: "i div 8 < length (bm_bits bm)"
    using assms by (simp add: bm_ok_def)
  show ?thesis
    using assms i by (auto simp: bm_set_def slice_access_ok bm_ok_def packed_bit_set bm_rows_def nth_list_update intro!: nth_equalityI)
qed

lemma bm_clear_ok:
  assumes "bm_ok bm" "i < bm_len bm"
  shows "\<exists>bm'. bm_clear bm i = Inr bm' \<and> bm_ok bm' \<and> bm_rows bm' = (bm_rows bm)[i := False]"
proof -
  have i: "i div 8 < length (bm_bits bm)"
    using assms by (simp add: bm_ok_def)
  show ?thesis
    using assms i by (auto simp: bm_clear_def slice_access_ok bm_ok_def packed_bit_clear bm_rows_def nth_list_update split: if_splits intro!: nth_equalityI)
qed

lemma bm_new_ok: "bm_ok (bm_new n)" "bm_rows (bm_new n) = replicate n False" "bm_len (bm_new n) = n"
  by (auto simp: bm_new_def bm_ok_def bm_rows_def packed_bit_def intro!: nth_equalityI)

section \<open>Building a mask row by row\<close>

text \<open>What the scalar filter loops use of a bitmap, and what such a loop computes.\<close>

locale row_mask =
  fixes new :: "nat \<Rightarrow> 'b"
    and set_row :: "'b \<Rightarrow> nat \<Rightarrow> panic + 'b"
    and ok :: "'b \<Rightarrow> bool"
    and rows :: "'b \<Rightarrow> bool list"
  assumes new_ok: "ok (new n)" "rows (new n) = replicate n False"
    and set_ok: "ok b \<Longrightarrow> i < length (rows b) \<Longrightarrow>
      \<exists>b'. set_row b i = Inr b' \<and> ok b' \<and> rows b' = (rows b)[i := True]"
begin

lemma loop_from:
  assumes "ok b" "rows b = ys @ replicate (length xs) False" "k = length ys"
  shows "\<exists>b'. fold_panic (\<lambda>(i, x) b. if p x then set_row b i else Inr b) (enumerate k xs) b = Inr b' \<and>
           ok b' \<and> rows b' = ys @ map p xs"
  using assms
proof (induction xs arbitrary: b ys k)
  case (Cons x xs)
  show ?case
  proof (cases "p x")
    case True
    obtain b' where "set_row b k = Inr b'" "ok b'" "rows b' = (rows b)[k := True]"
      using set_ok [of b k] Cons.prems by auto
    then show ?thesis
      using Cons.IH [of b' "ys @ [True]" "Suc k"] Cons.prems True by (simp add: list_update_append)
  next
    case False
    then show ?thesis
      using Cons.IH [of b "ys @ [False]" "Suc k"] Cons.prems by simp
  qed
qed simp

lemma filter_loop:
  "\<exists>b. fold_panic (\<lambda>(i, x) b. if p x then set_row b i else Inr b) (enumerate 0 xs) (new (length xs)) = Inr b \<and>
     ok b \<and> rows b = map p xs"
  using loop_from [of "new (length xs)" "[]" xs 0 p] by (simp add: new_ok)

end

interpretation packed: row_mask bm_new bm_set bm_ok bm_rows
  by unfold_locales (simp_all add: bm_new_ok bm_set_ok)

lemma bm_from_bool_slice_ok:
  "\<exists>bm. bm_from_bool_slice bools = Inr bm \<and> bm_ok bm \<and> bm_rows bm = bools"
  using packed.filter_loop [of "\<lambda>b. b" bools] by (simp add: bm_from_bool_slice_def)

text \<open>The bitmap that holds a given list of bits, the value the operations below are compared with.\<close>

definition bm_of_rows :: "bool list \<Rightarrow> bitmap" where
  "bm_of_rows bools = (case bm_from_bool_slice bools of Inr bm \<Rightarrow> bm | Inl _ \<Rightarrow> bm_new 0)"

lemma bm_of_rows: "bm_ok (bm_of_rows bools)" "bm_rows (bm_of_rows bools) = bools" "bm_len (bm_of_rows bools) = length bools"
proof -
  show "bm_ok (bm_of_rows bools)" and rows: "bm_rows (bm_of_rows bools) = bools"
    using bm_from_bool_slice_ok [of bools] by (auto simp: bm_of_rows_def)
  show "bm_len (bm_of_rows bools) = length bools"
    using arg_cong [OF rows, of length] by simp
qed

lemma bm_of_rows_unique: "bm_ok bm \<Longrightarrow> bm_rows bm = bools \<Longrightarrow> bm = bm_of_rows bools"
  by (simp add: bm_eqI bm_of_rows)

text \<open>A buffer determines its bitmap by the rows.\<close>

lemma bm_of_rowsI:
  assumes "length (bm_bits bm) = (bm_len bm + 7) div 8"
    and "\<And>i. i < 8 * length (bm_bits bm) \<Longrightarrow> packed_bit (bm_bits bm) i \<longleftrightarrow> i < bm_len bm \<and> f i"
  shows "bm = bm_of_rows (map f [0..<bm_len bm])"
  using bm_okI [OF assms] by (simp add: bm_of_rows_unique)

section \<open>Boolean operations\<close>

lemma byte_loop_ok:
  assumes "n \<le> length a" "n \<le> length b" "n \<le> length out"
  shows "\<exists>r. byte_loop op n a b out = Inr r \<and> length r = length out \<and>
    (\<forall>j < length out. r ! j = (if j < n then op (a ! j) (b ! j) else out ! j))"
proof -
  let ?I = "\<lambda>i r. length r = length out \<and> (\<forall>j < length out. r ! j = (if j < i then op (a ! j) (b ! j) else out ! j))"
  have "\<exists>r. byte_loop op n a b out = Inr r \<and> ?I n r"
    unfolding byte_loop_def
    using assms by (intro fold_panic_upt) (auto simp: slice_access_ok nth_list_update less_Suc_eq)
  then show ?thesis .
qed

lemma byte_of_bit: "i div 8 < n \<longleftrightarrow> i < 8 * n" for i n :: nat
  by auto

lemma bm_ok_tail: "bm_ok bm \<Longrightarrow> i < 8 * length (bm_bits bm) \<Longrightarrow> packed_bit (bm_bits bm) i \<Longrightarrow> i < bm_len bm"
  by (simp add: bm_ok_def)

lemma bm_and_ok:
  assumes "bm_ok a" "bm_ok b"
  shows "bm_and a b = Inr (bm_of_rows (map2 (\<and>) (bm_rows a) (bm_rows b)))"
proof -
  define len n where "len = min (bm_len a) (bm_len b)" and "n = min (length (bm_bits a)) (length (bm_bits b))"
  have n: "n = (len + 7) div 8"
    using assms by (auto simp: bm_ok_def min_def len_def n_def div_le_mono)
  have le: "n \<le> length (bm_bits a)" "n \<le> length (bm_bits b)"
    by (simp_all add: n_def)
  obtain r where r: "byte_loop (AND) n (bm_bits a) (bm_bits b) (replicate n 0) = Inr r"
    "length r = n" "\<And>j. j < n \<Longrightarrow> r ! j = bm_bits a ! j AND bm_bits b ! j"
    using byte_loop_ok [OF le, of "replicate n 0" "(AND)"] by auto
  let ?r = "\<lparr>bm_bits = r, bm_len = len\<rparr>"
  have "?r = bm_of_rows (map (\<lambda>i. packed_bit (bm_bits a) i \<and> packed_bit (bm_bits b) i) [0..<bm_len ?r])"
  proof (rule bm_of_rowsI)
    fix i
    assume "i < 8 * length (bm_bits ?r)"
    then have i: "i < 8 * n" "i div 8 < n" "i < 8 * length (bm_bits a)" "i < 8 * length (bm_bits b)"
      using le by (auto simp: r(2))
    then show "packed_bit (bm_bits ?r) i \<longleftrightarrow> i < bm_len ?r \<and> packed_bit (bm_bits a) i \<and> packed_bit (bm_bits b) i"
      using bm_ok_tail [OF assms(1) i(3)] bm_ok_tail [OF assms(2) i(4)] r(3)
      by (auto simp: packed_bit_def bit_and_iff len_def)
  qed (simp add: r(2) n)
  moreover have "map (\<lambda>i. packed_bit (bm_bits a) i \<and> packed_bit (bm_bits b) i) [0..<len] = map2 (\<and>) (bm_rows a) (bm_rows b)"
    by (rule nth_equalityI) (auto simp: bm_rows_def len_def)
  moreover have "bm_and a b = Inr ?r"
    using r(1) by (simp add: bm_and_def bm_new_def Let_def n flip: len_def n_def)
  ultimately show ?thesis by simp
qed

text \<open>Rows of the longer operand of \<open>or\<close> beyond the shorter operand's bytes are dropped.\<close>

lemma bm_or_ok:
  assumes "bm_ok a" "bm_ok b" and n: "n = min (length (bm_bits a)) (length (bm_bits b))"
  shows "bm_or a b = Inr (bm_of_rows (map (\<lambda>i. i < 8 * n \<and> (packed_bit (bm_bits a) i \<or> packed_bit (bm_bits b) i))
      [0..<max (bm_len a) (bm_len b)]))"
proof -
  define len m where "len = max (bm_len a) (bm_len b)" and "m = (len + 7) div 8"
  have le: "n \<le> length (bm_bits a)" "n \<le> length (bm_bits b)" "n \<le> length (replicate m (0 :: u8))"
    using assms by (auto simp: bm_ok_def max_def n len_def m_def)
  obtain r where r: "byte_loop (OR) n (bm_bits a) (bm_bits b) (replicate m 0) = Inr r"
    "length r = m" "\<And>j. j < m \<Longrightarrow> r ! j = (if j < n then bm_bits a ! j OR bm_bits b ! j else 0)"
    using byte_loop_ok [OF le, of "(OR)"] by auto
  let ?r = "\<lparr>bm_bits = r, bm_len = len\<rparr>"
  let ?f = "\<lambda>i. i < 8 * n \<and> (packed_bit (bm_bits a) i \<or> packed_bit (bm_bits b) i)"
  have "?r = bm_of_rows (map ?f [0..<bm_len ?r])"
  proof (rule bm_of_rowsI)
    fix i
    assume "i < 8 * length (bm_bits ?r)"
    then have "i div 8 < m"
      using r(2) by auto
    then have bit: "packed_bit r i \<longleftrightarrow> ?f i"
      using r(3) byte_of_bit [of i n] by (auto simp: packed_bit_def bit_or_iff)
    have "i < 8 * length (bm_bits a)" "i < 8 * length (bm_bits b)" if "i < 8 * n"
      using that le by linarith+
    then show "packed_bit (bm_bits ?r) i \<longleftrightarrow> i < bm_len ?r \<and> ?f i"
      using bit bm_ok_tail [OF assms(1), of i] bm_ok_tail [OF assms(2), of i]
      by (auto simp: len_def less_max_iff_disj)
  qed (simp add: r(2) m_def)
  moreover have "bm_or a b = Inr ?r"
    using r(1) by (simp add: bm_or_def bm_new_def Let_def flip: len_def m_def n)
  ultimately show ?thesis by (simp add: len_def)
qed

lemma last_byte_rows:
  fixes i n :: nat
  assumes "i < 8 * ((n + 7) div 8)"
  shows "i < n \<longleftrightarrow> n mod 8 = 0 \<or> i div 8 \<noteq> (n + 7) div 8 - 1 \<or> i mod 8 < n mod 8"
proof -
  define q r a b where "q = n div 8" and "r = n mod 8" and "a = i div 8" and "b = i mod 8"
  have e: "n = 8 * q + r" "r < 8" "i = 8 * a + b" "b < 8"
    by (simp_all add: q_def r_def a_def b_def)
  have "(n + 7) div 8 = q + (r + 7) div 8"
    by (simp add: e(1))
  also have "(r + 7) div 8 = (if r = 0 then 0 else 1)"
    using e(2) by (cases "r = 0") auto
  finally have d: "(n + 7) div 8 = (if r = 0 then q else q + 1)"
    by simp
  have a: "a < (n + 7) div 8"
    using assms byte_of_bit by (simp add: a_def)
  show ?thesis
  proof (cases "r = 0 \<or> a < q")
    case True
    then show ?thesis using a e unfolding d a_def [symmetric] b_def [symmetric] r_def [symmetric] by auto
  next
    case False
    then have "a = q" using a d by simp
    then show ?thesis using False e unfolding d a_def [symmetric] b_def [symmetric] r_def [symmetric] by simp
  qed
qed

lemma update_last_nth: "xs \<noteq> [] \<Longrightarrow> update_last f xs = xs[length xs - 1 := f (xs ! (length xs - 1))]"
  by (cases xs rule: rev_cases) (simp_all add: update_last_def)

lemma unused_bits: "(8 - n mod 8) mod 8 = (if n mod 8 = 0 then 0 else 8 - n mod 8)" for n :: nat
  by (auto simp: mod_less_divisor intro!: mod_less)

lemma bit_low_mask: "m < 8 \<Longrightarrow> bit (shl_one m - 1) k \<longleftrightarrow> k < m"
  using bit_mask_iff [where 'a = u8, of m k] by (simp add: shl_one_def mask_eq_exp_minus_1) linarith

text \<open>Masking the last byte clears exactly the unused bits.\<close>

lemma bm_of_rows_masked:
  assumes "length bits = (n + 7) div 8" "\<And>i. i < 8 * length bits \<Longrightarrow> i < n \<Longrightarrow> packed_bit bits i = f i"
    and "\<And>k. n mod 8 \<noteq> 0 \<Longrightarrow> k < 8 \<Longrightarrow> bit (g (last bits)) k \<longleftrightarrow> bit (last bits) k \<and> k < n mod 8"
  shows "\<lparr>bm_bits = (if n mod 8 \<noteq> 0 \<and> bits \<noteq> [] then update_last g bits else bits), bm_len = n\<rparr>
     = bm_of_rows (map f [0..<n])"
proof -
  define r where "r = (if n mod 8 \<noteq> 0 \<and> bits \<noteq> [] then update_last g bits else bits)"
  have len: "length r = (n + 7) div 8"
    using assms(1) by (simp add: r_def update_last_nth)
  have "packed_bit r i \<longleftrightarrow> i < n \<and> f i" if i: "i < 8 * length r" for i
  proof (cases "n mod 8 = 0")
    case True
    then show ?thesis
      using i last_byte_rows [of i n] assms(1,2) len by (simp add: r_def)
  next
    case False
    then have ne: "bits \<noteq> []"
      using assms(1) by auto
    have "packed_bit r i \<longleftrightarrow> packed_bit bits i \<and> (i div 8 = length bits - 1 \<longrightarrow> i mod 8 < n mod 8)"
      using ne False assms(3) [OF False, of "i mod 8"]
      by (simp add: r_def update_last_nth packed_bit_update last_conv_nth) (auto simp: packed_bit_def)
    then show ?thesis
      using last_byte_rows [of i n] False i assms(1,2) len by auto
  qed
  then have "\<lparr>bm_bits = r, bm_len = n\<rparr> = bm_of_rows (map f [0..<bm_len \<lparr>bm_bits = r, bm_len = n\<rparr>])"
    using len by (intro bm_of_rowsI) simp_all
  then show ?thesis by (simp add: r_def)
qed

lemma bm_all_ones_ok: "bm_all_ones n = bm_of_rows (replicate n True)"
proof -
  have ff: "bit (0xFF :: int) k" if "k < 8" for k
    using that by (auto simp: bit_simps less_Suc_eq numeral_eq_Suc)
  have "bit (drop_bit (8 - m) (0xFF :: u8)) k \<longleftrightarrow> k < m" if "m < 8" "k < 8" for m k
  proof (cases "k < m")
    case True
    then show ?thesis using ff [of "8 - m + k"] that by (simp add: bit_drop_bit_eq)
  next
    case False
    then show ?thesis using that bit_imp_le_length [of "0xFF :: u8" "8 - m + k"] by (auto simp: bit_drop_bit_eq)
  qed
  then have "\<lparr>bm_bits = (if n mod 8 \<noteq> 0 \<and> replicate ((n + 7) div 8) (0xFF :: u8) \<noteq> []
       then update_last (drop_bit (8 - n mod 8)) (replicate ((n + 7) div 8) 0xFF) else replicate ((n + 7) div 8) 0xFF),
     bm_len = n\<rparr> = bm_of_rows (map (\<lambda>_. True) [0..<n])"
    by (intro bm_of_rows_masked) (auto simp: packed_bit_def last_replicate ff)
  then show ?thesis
    by (auto simp: bm_all_ones_def unused_bits Let_def map_replicate_const)
qed

lemma bm_not_ok:
  assumes "bm_ok a"
  shows "bm_not a = Inr (bm_of_rows (map Not (bm_rows a)))"
proof -
  let ?L = "length (bm_bits a)" and ?n = "bm_len a"
  let ?I = "\<lambda>i r. length r = ?L \<and> (\<forall>j < i. r ! j = NOT (bm_bits a ! j))"
  have len: "?L = (?n + 7) div 8"
    using assms by (simp add: bm_ok_def)
  have "\<exists>r. fold_panic (\<lambda>i out. bind_panic (slice_index (bm_bits a) i) (\<lambda>x. slice_set out i (NOT x)))
      [0..<?L] (bm_bits (bm_new ?n)) = Inr r \<and> ?I ?L r"
    by (rule fold_panic_upt) (auto simp: slice_access_ok nth_list_update less_Suc_eq bm_new_def len)
  then obtain r where r: "fold_panic (\<lambda>i out. bind_panic (slice_index (bm_bits a) i) (\<lambda>x. slice_set out i (NOT x)))
      [0..<?L] (bm_bits (bm_new ?n)) = Inr r" "length r = ?L" "\<And>j. j < ?L \<Longrightarrow> r ! j = NOT (bm_bits a ! j)"
    by blast
  have "\<lparr>bm_bits = (if ?n mod 8 \<noteq> 0 \<and> r \<noteq> [] then update_last (\<lambda>b. b AND (shl_one (?n mod 8) - 1)) r else r), bm_len = ?n\<rparr>
      = bm_of_rows (map (\<lambda>i. \<not> packed_bit (bm_bits a) i) [0..<?n])"
  proof (rule bm_of_rows_masked)
    fix i
    assume "i < 8 * length r"
    then show "packed_bit r i = (\<not> packed_bit (bm_bits a) i)"
      using r(2,3) by (auto simp: packed_bit_def bit_not_iff)
  qed (simp_all add: r(2) len bit_and_iff bit_low_mask)
  moreover have "map (\<lambda>i. \<not> packed_bit (bm_bits a) i) [0..<?n] = map Not (bm_rows a)"
    by (simp add: bm_rows_def)
  ultimately show ?thesis
    using r(1) by (auto simp: bm_not_def Let_def unused_bits) (auto simp: bm_new_def)
qed

section \<open>Counting and iteration\<close>

text \<open>The number of set rows in \<open>[a, b)\<close>.\<close>

definition rows_set :: "u8 list \<Rightarrow> nat \<Rightarrow> nat \<Rightarrow> nat" where
  "rows_set bits a b = length (filter (packed_bit bits) [a..<b])"

lemma rows_set_add: "a \<le> b \<Longrightarrow> b \<le> c \<Longrightarrow> rows_set bits a b + rows_set bits b c = rows_set bits a c"
  using upt_add_eq_append [of a b "c - b"] by (simp add: rows_set_def)

lemma rows_set_empty: "b \<le> a \<Longrightarrow> rows_set bits a b = 0"
  by (simp add: rows_set_def)

lemma rows_set_byte: "rows_set bits (8 * j) (8 * j + 8) = count_ones_u8 (bits ! j)"
proof -
  have "[8 * j..<8 * j + 8] = map (\<lambda>k. k + 8 * j) [0..<8]"
    by (simp only: map_add_upt add.commute)
  then show ?thesis
    by (simp only: rows_set_def count_ones_u8_def filter_map length_map comp_def)
       (auto simp: packed_bit_def intro!: arg_cong [of _ _ length] filter_cong)
qed

lemma rows_set_bytes:
  "a \<le> b \<Longrightarrow> b \<le> length bits \<Longrightarrow>
   sum_list (map count_ones_u8 (drop a (take b bits))) = rows_set bits (8 * a) (8 * b)"
proof (induction b rule: dec_induct)
  case (step b)
  have "drop a (take (Suc b) bits) = drop a (take b bits) @ [bits ! b]"
    using step by (simp add: take_Suc_conv_app_nth)
  then show ?case
    using step rows_set_byte [of bits b] rows_set_add [of "8 * a" "8 * b" "8 * Suc b" bits]
    by (simp add: add.commute)
qed (simp add: rows_set_def)

lemma count_bits_loop_ok:
  assumes "bm_ok bm" "a \<le> b" "b \<le> bm_len bm"
  shows "count_bits_loop bm a b c = Inr (c + rows_set (bm_bits bm) a b)"
proof -
  let ?I = "\<lambda>i k. k = c + rows_set (bm_bits bm) a i"
  have "\<exists>k. count_bits_loop bm a b c = Inr k \<and> ?I b k"
    unfolding count_bits_loop_def
  proof (rule fold_panic_upt [OF assms(2)])
    fix i k
    assume "a \<le> i" "i < b" "?I i k"
    then show "\<exists>k'. bind_panic (bm_get bm i) (\<lambda>set. Inr (if set then k + 1 else k)) = Inr k' \<and> ?I (Suc i) k'"
      using assms by (simp add: bm_get_ok nth_bm_rows rows_set_def)
  qed (simp add: rows_set_def)
  then show ?thesis by simp
qed

lemma bm_count_ones_ok:
  assumes "bm_ok bm"
  shows "bm_count_ones bm = length (filter (\<lambda>b. b) (bm_rows bm))"
proof -
  have len: "bm_len bm \<le> 8 * length (bm_bits bm)"
    using assms by (auto simp: bm_ok_def)
  have "rows_set (bm_bits bm) (bm_len bm) (8 * length (bm_bits bm)) = 0"
    using bm_ok_tail [OF assms] by (fastforce simp: rows_set_def filter_empty_conv)
  then have "bm_count_ones bm = rows_set (bm_bits bm) 0 (bm_len bm)"
    using rows_set_bytes [of 0 "length (bm_bits bm)" "bm_bits bm"] rows_set_add [OF _ len, of 0 "bm_bits bm"]
    by (simp add: bm_count_ones_def)
  then show ?thesis
    by (simp add: rows_set_def bm_rows_def filter_map comp_def)
qed

lemma bm_count_ones_range_ok:
  assumes ok: "bm_ok bm" and "start < end0" "start < bm_len bm" and fin: "fin = min end0 (bm_len bm)"
  shows "bm_count_ones_range bm start end0 =
    Inr (if start mod 8 = 0 \<and> fin < start + 8 then 0 else rows_set (bm_bits bm) start fin)"
proof -
  let ?B = "bm_bits bm"
  define q where "q = start div 8"
  have fin': "start < fin" "fin \<le> bm_len bm" "fin div 8 \<le> length ?B"
    using assms by (auto simp: bm_ok_def)
  have start: "start = 8 * q + start mod 8"
    by (simp add: q_def)
  have unfolded: "bm_count_ones_range bm start end0 =
     (let head_end = min fin (8 * q + 8); full_start = (if start mod 8 \<noteq> 0 then q + 1 else q);
          tail_start = max (8 * (fin div 8)) head_end
      in Inr ((if start mod 8 \<noteq> 0 then rows_set ?B start head_end else 0)
         + rows_set ?B (8 * full_start) (8 * (fin div 8)) + rows_set ?B tail_start fin))"
    using assms fin' start
    by (simp add: bm_count_ones_range_def Let_def count_bits_loop_ok slice_access_ok rows_set_bytes rows_set_empty
          algebra_simps flip: q_def fin) (auto intro!: rows_set_empty)
  consider "start mod 8 = 0" "fin < start + 8" | "start mod 8 = 0" "start + 8 \<le> fin"
    | "start mod 8 \<noteq> 0" "fin \<le> 8 * q + 8" | "start mod 8 \<noteq> 0" "8 * q + 8 < fin"
    by linarith
  then show ?thesis
  proof cases
    case 1
    then have "fin div 8 = q"
      using start fin' by linarith
    then show ?thesis unfolding unfolded Let_def using 1 start fin' by (simp add: rows_set_empty)
  next
    case 2
    then have "8 * q + 8 \<le> 8 * (fin div 8)" "8 * (fin div 8) \<le> fin"
      using start div_le_mono [of "8 * (q + 1)" fin 8] by (simp_all add: times_div_less_eq_dividend)
    then show ?thesis
      unfolding unfolded Let_def using 2 start rows_set_add [of start "8 * (fin div 8)" fin ?B]
      by (simp add: max_def)
  next
    case 3
    then show ?thesis unfolding unfolded Let_def using start fin' by (simp add: rows_set_empty)
  next
    case 4
    then have "8 * q + 8 \<le> 8 * (fin div 8)" "8 * (fin div 8) \<le> fin" "start \<le> 8 * q + 8"
      using start div_le_mono [of "8 * (q + 1)" fin 8] by (simp_all add: times_div_less_eq_dividend)
    then show ?thesis
      unfolding unfolded Let_def using 4 rows_set_add [of start "8 * q + 8" "8 * (fin div 8)" ?B]
        rows_set_add [of start "8 * (fin div 8)" fin ?B]
      by (simp add: max_def min_def add.commute)
  qed
qed

lemma trailing_zeros_u8_props:
  assumes "b \<noteq> 0" "t = trailing_zeros_u8 b"
  shows "t < 8" "bit b t" "\<And>j. j < t \<Longrightarrow> \<not> bit b j"
proof -
  have "\<exists>k \<in> set [0..<8]. bit b k"
  proof (rule ccontr)
    assume "\<not> (\<exists>k \<in> set [0..<8]. bit b k)"
    then have "b = 0" by (intro u8_bit_eqI) auto
    then show False using assms(1) by simp
  qed
  then show t: "t < 8"
    using assms(2) length_takeWhile_le [of "\<lambda>i. \<not> bit b i" "[0..<8]"] takeWhile_eq_all_conv [of "\<lambda>i. \<not> bit b i" "[0..<8]"]
      takeWhile_eq_take [of "\<lambda>i. \<not> bit b i" "[0..<8]"]
    by (cases "t = 8") (auto simp: trailing_zeros_u8_def simp del: upt.simps upt_rec_numeral)
  show "bit b t"
    using nth_length_takeWhile [of "\<lambda>i. \<not> bit b i" "[0..<8]"] t assms(2)
    by (simp add: trailing_zeros_u8_def)
  show "\<not> bit b j" if "j < t" for j
    using that t assms(2) takeWhile_nth [of j "\<lambda>i. \<not> bit b i" "[0..<8]"]
      set_takeWhileD [of j "\<lambda>i. \<not> bit b i" "[0..<8]"]
    by (metis (no_types, lifting) add_0 nth_mem nth_upt order.strict_trans trailing_zeros_u8_def)
qed

text \<open>The iterator returns the first set row at or after its position.\<close>

lemma set_bit_next_ok:
  assumes "length bits = (len + 7) div 8"
  shows "(\<exists>p. set_bit_next bits len pos = Inr (None, p) \<and> (\<forall>j. pos \<le> j \<and> j < len \<longrightarrow> \<not> packed_bit bits j)) \<or>
     (\<exists>r. set_bit_next bits len pos = Inr (Some r, r + 1) \<and> pos \<le> r \<and> r < len \<and> packed_bit bits r \<and>
          (\<forall>j. pos \<le> j \<and> j < r \<longrightarrow> \<not> packed_bit bits j))"
proof (induction "len - pos" arbitrary: pos rule: less_induct)
  case less
  let ?b = "bits ! (pos div 8)" and ?next = "(pos div 8 + 1) * 8"
  show ?case
  proof (cases "pos < len")
    case True
    then have idx: "slice_index bits (pos div 8) = Inr ?b"
      using assms by (simp add: slice_access_ok)
    have inbyte: "packed_bit bits j \<longleftrightarrow> bit (drop_bit (pos mod 8) ?b) (j - pos)" if "pos \<le> j" "j < ?next" for j
    proof -
      have d: "j div 8 = pos div 8"
        using that div_le_mono [of pos j 8] byte_of_bit [of j "pos div 8 + 1"] by simp
      have "j mod 8 = pos mod 8 + (j - pos)"
        using that(1) d div_mult_mod_eq [of j 8] div_mult_mod_eq [of pos 8] by linarith
      with d show ?thesis by (simp add: packed_bit_def bit_drop_bit_eq)
    qed
    show ?thesis
    proof (cases "drop_bit (pos mod 8) ?b = 0")
      case zero: True
      have skip: "\<not> packed_bit bits j" if "pos \<le> j" "j < ?next" for j
        using inbyte [OF that] zero by simp
      have lt: "pos < ?next"
        using byte_of_bit [of pos "pos div 8 + 1"] by simp
      have eq: "set_bit_next bits len pos = set_bit_next bits len ?next"
        using True idx zero by (subst set_bit_next.simps) (auto simp: Let_def)
      have widen: "\<forall>j. pos \<le> j \<and> j < k \<longrightarrow> \<not> packed_bit bits j"
        if "\<forall>j. ?next \<le> j \<and> j < k \<longrightarrow> \<not> packed_bit bits j" for k
        using that skip by (meson not_le)
      have "len - ?next < len - pos"
        using lt True by (rule diff_less_mono2)
      from less [OF this] show ?thesis
      proof (elim disjE exE conjE)
        fix p
        assume "set_bit_next bits len ?next = Inr (None, p)" "\<forall>j. ?next \<le> j \<and> j < len \<longrightarrow> \<not> packed_bit bits j"
        then show ?thesis using widen [of len] eq by (intro disjI1 exI [of _ p]) simp
      next
        fix r
        assume "set_bit_next bits len ?next = Inr (Some r, r + 1)" "?next \<le> r" "r < len" "packed_bit bits r"
          "\<forall>j. ?next \<le> j \<and> j < r \<longrightarrow> \<not> packed_bit bits j"
        moreover from this(2) have "pos \<le> r"
          using lt by simp
        ultimately show ?thesis using widen [of r] eq by (intro disjI2 exI [of _ r]) simp
      qed
    next
      case nonzero: False
      define t where "t = trailing_zeros_u8 (drop_bit (pos mod 8) ?b)"
      note tz = trailing_zeros_u8_props [OF nonzero t_def]
      have "pos mod 8 + t < 8"
        using tz(2) bit_imp_le_length [of ?b "pos mod 8 + t"] by (simp add: bit_drop_bit_eq)
      then have "pos div 8 * 8 + (pos mod 8 + t) < pos div 8 * 8 + 8"
        by (rule add_strict_left_mono)
      then have t: "pos + t < ?next"
        by (simp only: add.assoc [symmetric] div_mult_mod_eq distrib_right mult_1)
      have set: "packed_bit bits (pos + t)"
        using inbyte [of "pos + t"] t tz(2) by simp
      have unset: "\<not> packed_bit bits j" if "pos \<le> j" "j < pos + t" for j
        using inbyte [of j] that t tz(3) [of "j - pos"] by simp
      have "?b \<noteq> 0"
        using nonzero by auto
      then have "set_bit_next bits len pos = (if len \<le> pos + t then Inr (None, pos) else Inr (Some (pos + t), pos + t + 1))"
        using True idx nonzero by (subst set_bit_next.simps) (simp add: Let_def t_def)
      then show ?thesis
        using set unset by (cases "len \<le> pos + t") auto
    qed
  qed (auto simp: set_bit_next.simps)
qed

lemma collect_set_bits_ok:
  assumes "length bits = (len + 7) div 8"
  shows "collect_set_bits bits len pos = Inr (filter (packed_bit bits) [pos..<len])"
proof (induction "len - pos" arbitrary: pos rule: less_induct)
  case less
  consider p where "set_bit_next bits len pos = Inr (None, p)" "\<And>j. pos \<le> j \<Longrightarrow> j < len \<Longrightarrow> \<not> packed_bit bits j"
    | r where "set_bit_next bits len pos = Inr (Some r, r + 1)" "pos \<le> r" "r < len" "packed_bit bits r"
        "\<And>j. pos \<le> j \<Longrightarrow> j < r \<Longrightarrow> \<not> packed_bit bits j"
    using set_bit_next_ok [OF assms, of pos] by blast
  then show ?case
  proof cases
    case 1
    then show ?thesis by (simp add: collect_set_bits.simps filter_empty_conv)
  next
    case 2
    have "[pos..<len] = [pos..<r] @ r # [r + 1..<len]"
      using upt_add_eq_append [of pos r "len - r"] 2(2,3) by (simp add: upt_conv_Cons)
    moreover have "filter (packed_bit bits) [pos..<r] = []"
      using 2(5) by (simp add: filter_empty_conv)
    ultimately show ?thesis
      using less [of "r + 1"] 2 by (simp add: collect_set_bits.simps [of bits len pos])
  qed
qed

end
