(* ===== verification/Filter_Kernels.thy ===== *)
theory Filter_Kernels
  imports Bitmap
begin

unbundle bit_operations_syntax

text \<open>
  The column comparison kernels and mask combinators of \<open>src/exec/bitmap.rs\<close>. Every public filter is a
  dispatch between the AVX-512 loop and a scalar loop on the detected feature. The loops are modelled
  block by block with their unchecked loads and stores; the locales \<open>lanes64\<close> and \<open>lanes32\<close> state
  what a loop needs of its compare intrinsic, and each comparison is an interpretation of them.
\<close>

section \<open>Lanes and masks\<close>

text \<open>A mask register from one bit per lane, lane 0 lowest; the compare intrinsics; zero-masked
  broadcast; the little-endian u64 at the start of a byte slice.\<close>

definition mask_of :: "bool list \<Rightarrow> 'a::len word" where
  "mask_of bs = horner_sum of_bool 2 bs"

definition cmp_mask :: "('a \<Rightarrow> 'a \<Rightarrow> bool) \<Rightarrow> 'a list \<Rightarrow> 'a list \<Rightarrow> 'm::len word" where
  "cmp_mask p v t = mask_of (map2 p v t)"

definition maskz_set1 :: "nat \<Rightarrow> 'm::len word \<Rightarrow> u8 \<Rightarrow> u8 list" where
  "maskz_set1 w m x = map (\<lambda>k. if bit m k then x else 0) [0..<w]"

definition read_u64_le :: "u8 list \<Rightarrow> u64" where
  "read_u64_le bs = from_le_bytes bs"

section \<open>Comparisons of doubles\<close>

text \<open>An f64 is its bit pattern. Finite values and infinities are ordered like their sign and
  magnitude; both zeros are equal; a comparison with a NaN is false.\<close>

definition f64_is_nan :: "u64 \<Rightarrow> bool" where
  "f64_is_nan b \<longleftrightarrow> 0x7FF0000000000000 < take_bit 63 b"

definition f64_key :: "u64 \<Rightarrow> int" where
  "f64_key b = (if bit b 63 then - uint (take_bit 63 b) else uint (take_bit 63 b))"

datatype cmp_pred = CMP_EQ_OQ | CMP_LT_OQ | CMP_GT_OQ | CMP_LE_OQ | CMP_GE_OQ

fun key_cmp :: "cmp_pred \<Rightarrow> int \<Rightarrow> int \<Rightarrow> bool" where
  "key_cmp CMP_EQ_OQ a b = (a = b)"
| "key_cmp CMP_LT_OQ a b = (a < b)"
| "key_cmp CMP_GT_OQ a b = (a > b)"
| "key_cmp CMP_LE_OQ a b = (a \<le> b)"
| "key_cmp CMP_GE_OQ a b = (a \<ge> b)"

definition f64_cmp :: "cmp_pred \<Rightarrow> u64 \<Rightarrow> u64 \<Rightarrow> bool" where
  "f64_cmp pred a b \<longleftrightarrow> \<not> f64_is_nan a \<and> \<not> f64_is_nan b \<and> key_cmp pred (f64_key a) (f64_key b)"

section \<open>Loops over 64-bit lanes\<close>

text \<open>One vector: load eight rows, compare, store the mask byte.\<close>

definition block64 :: "(u64 list \<Rightarrow> u64 list \<Rightarrow> u8) \<Rightarrow> u64 list \<Rightarrow> u64 list \<Rightarrow> nat \<Rightarrow> nat \<Rightarrow> u8 list \<Rightarrow> panic + u8 list" where
  "block64 cmp col target i byte_idx bytes =
     bind_panic (load_lanes 8 col i) (\<lambda>v. set_unchecked bytes byte_idx (cmp v target))"

text \<open>The unrolled body: four loads, four compares, then four stores.\<close>

definition unrolled64_body ::
  "(u64 list \<Rightarrow> u64 list \<Rightarrow> u8) \<Rightarrow> u64 list \<Rightarrow> u64 list \<Rightarrow> nat \<Rightarrow> nat \<Rightarrow> u8 list \<Rightarrow> panic + u8 list" where
  "unrolled64_body cmp col target i byte_idx bytes =
     bind_panic (load_lanes 8 col i) (\<lambda>v0.
     bind_panic (load_lanes 8 col (i + 8)) (\<lambda>v1.
     bind_panic (load_lanes 8 col (i + 16)) (\<lambda>v2.
     bind_panic (load_lanes 8 col (i + 24)) (\<lambda>v3.
     bind_panic (set_unchecked bytes byte_idx (cmp v0 target)) (\<lambda>b0.
     bind_panic (set_unchecked b0 (byte_idx + 1) (cmp v1 target)) (\<lambda>b1.
     bind_panic (set_unchecked b1 (byte_idx + 2) (cmp v2 target)) (\<lambda>b2.
     set_unchecked b2 (byte_idx + 3) (cmp v3 target))))))))"

function unrolled64 ::
  "(u64 list \<Rightarrow> u64 list \<Rightarrow> u8) \<Rightarrow> u64 list \<Rightarrow> u64 list \<Rightarrow> nat \<Rightarrow> nat \<Rightarrow> u8 list \<Rightarrow> panic + nat \<times> nat \<times> u8 list" where
  "unrolled64 cmp col target i byte_idx bytes =
     (if i + 32 \<le> length col
      then bind_panic (unrolled64_body cmp col target i byte_idx bytes) (\<lambda>bytes'.
           unrolled64 cmp col target (i + 32) (byte_idx + 4) bytes')
      else Inr (i, byte_idx, bytes))"
  by auto
termination
  by (relation "measure (\<lambda>(cmp, col, target, i, byte_idx, bytes). length col - i)") auto

function vector_tail64 ::
  "(u64 list \<Rightarrow> u64 list \<Rightarrow> u8) \<Rightarrow> u64 list \<Rightarrow> u64 list \<Rightarrow> nat \<Rightarrow> nat \<Rightarrow> u8 list \<Rightarrow> panic + nat \<times> nat \<times> u8 list" where
  "vector_tail64 cmp col target i byte_idx bytes =
     (if i + 8 \<le> length col
      then bind_panic (block64 cmp col target i byte_idx bytes) (\<lambda>bytes'.
           vector_tail64 cmp col target (i + 8) (byte_idx + 1) bytes')
      else Inr (i, byte_idx, bytes))"
  by auto
termination
  by (relation "measure (\<lambda>(cmp, col, target, i, byte_idx, bytes). length col - i)") auto

text \<open>The scalar tail sets bit \<open>i & 7\<close> of the byte chosen by \<open>at\<close> when \<open>test\<close> holds of row \<open>i\<close>.\<close>

definition scalar_tail :: "('a \<Rightarrow> bool) \<Rightarrow> (nat \<Rightarrow> nat) \<Rightarrow> 'a list \<Rightarrow> nat \<Rightarrow> u8 list \<Rightarrow> panic + u8 list" where
  "scalar_tail test at col i bytes =
     fold_panic (\<lambda>i bytes. bind_panic (slice_index col i) (\<lambda>c.
        if test c then bind_panic (get_unchecked bytes (at i)) (\<lambda>b. set_unchecked bytes (at i) (b OR shl_one (i mod 8)))
        else Inr bytes)) [i..<length col] bytes"

definition filter_u64_avx512_inner :: "u64 list \<Rightarrow> u64 \<Rightarrow> (u64 list \<Rightarrow> u64 list \<Rightarrow> u8) \<Rightarrow> panic + bitmap" where
  "filter_u64_avx512_inner col val cmp =
     (let bm = bm_new (length col);
          target = replicate 8 val
      in bind_panic (unrolled64 cmp col target 0 0 (bm_bits bm)) (\<lambda>(i, byte_idx, bytes).
         bind_panic (vector_tail64 cmp col target i byte_idx bytes) (\<lambda>(i, byte_idx, bytes).
         bind_panic (scalar_tail (\<lambda>c. cmp ((replicate 8 0)[0 := c]) target AND 1 \<noteq> 0) (\<lambda>_. byte_idx) col i bytes) (\<lambda>bytes.
         Inr (bm\<lparr>bm_bits := bytes\<rparr>)))))"

definition filter_f64_avx512_inner :: "cmp_pred \<Rightarrow> u64 list \<Rightarrow> u64 \<Rightarrow> panic + bitmap" where
  "filter_f64_avx512_inner pred col val =
     (let bm = bm_new (length col);
          target = replicate 8 val
      in bind_panic (unrolled64 (cmp_mask (f64_cmp pred)) col target 0 0 (bm_bits bm)) (\<lambda>(i, byte_idx, bytes).
         bind_panic (vector_tail64 (cmp_mask (f64_cmp pred)) col target i byte_idx bytes) (\<lambda>(i, byte_idx, bytes).
         bind_panic (scalar_tail (\<lambda>fv. f64_cmp pred fv val) (\<lambda>_. byte_idx) col i bytes) (\<lambda>bytes.
         Inr (bm\<lparr>bm_bits := bytes\<rparr>)))))"

section \<open>Loops over 32-bit lanes\<close>

text \<open>Store a 16-bit mask as two bytes, low lanes first.\<close>

definition store_mask16 :: "u8 list \<Rightarrow> nat \<Rightarrow> u16 \<Rightarrow> panic + u8 list" where
  "store_mask16 bytes byte_idx m =
     bind_panic (set_unchecked bytes byte_idx (ucast (m AND 0xFF))) (\<lambda>b0.
     set_unchecked b0 (byte_idx + 1) (ucast (drop_bit 8 m)))"

definition unrolled32_body ::
  "(i32 list \<Rightarrow> i32 list \<Rightarrow> u16) \<Rightarrow> i32 list \<Rightarrow> i32 list \<Rightarrow> nat \<Rightarrow> nat \<Rightarrow> u8 list \<Rightarrow> panic + u8 list" where
  "unrolled32_body cmp col target i byte_idx bytes =
     bind_panic (load_lanes 16 col i) (\<lambda>v0.
     bind_panic (load_lanes 16 col (i + 16)) (\<lambda>v1.
     bind_panic (load_lanes 16 col (i + 32)) (\<lambda>v2.
     bind_panic (load_lanes 16 col (i + 48)) (\<lambda>v3.
     bind_panic (store_mask16 bytes byte_idx (cmp v0 target)) (\<lambda>b0.
     bind_panic (store_mask16 b0 (byte_idx + 2) (cmp v1 target)) (\<lambda>b1.
     bind_panic (store_mask16 b1 (byte_idx + 4) (cmp v2 target)) (\<lambda>b2.
     store_mask16 b2 (byte_idx + 6) (cmp v3 target))))))))"

function unrolled32 ::
  "(i32 list \<Rightarrow> i32 list \<Rightarrow> u16) \<Rightarrow> i32 list \<Rightarrow> i32 list \<Rightarrow> nat \<Rightarrow> nat \<Rightarrow> u8 list \<Rightarrow> panic + nat \<times> nat \<times> u8 list" where
  "unrolled32 cmp col target i byte_idx bytes =
     (if i + 64 \<le> length col
      then bind_panic (unrolled32_body cmp col target i byte_idx bytes) (\<lambda>bytes'.
           unrolled32 cmp col target (i + 64) (byte_idx + 8) bytes')
      else Inr (i, byte_idx, bytes))"
  by auto
termination
  by (relation "measure (\<lambda>(cmp, col, target, i, byte_idx, bytes). length col - i)") auto

function vector_tail32 ::
  "(i32 list \<Rightarrow> i32 list \<Rightarrow> u16) \<Rightarrow> i32 list \<Rightarrow> i32 list \<Rightarrow> nat \<Rightarrow> nat \<Rightarrow> u8 list \<Rightarrow> panic + nat \<times> nat \<times> u8 list" where
  "vector_tail32 cmp col target i byte_idx bytes =
     (if i + 16 \<le> length col
      then bind_panic (load_lanes 16 col i) (\<lambda>v.
           bind_panic (store_mask16 bytes byte_idx (cmp v target)) (\<lambda>bytes'.
           vector_tail32 cmp col target (i + 16) (byte_idx + 2) bytes'))
      else Inr (i, byte_idx, bytes))"
  by auto
termination
  by (relation "measure (\<lambda>(cmp, col, target, i, byte_idx, bytes). length col - i)") auto

declare unrolled64.simps [simp del] vector_tail64.simps [simp del] unrolled32.simps [simp del] vector_tail32.simps [simp del]

definition filter_i32_avx512_inner :: "i32 list \<Rightarrow> i32 \<Rightarrow> (i32 list \<Rightarrow> i32 list \<Rightarrow> u16) \<Rightarrow> panic + bitmap" where
  "filter_i32_avx512_inner col val cmp =
     (let bm = bm_new (length col);
          target = replicate 16 val
      in bind_panic (unrolled32 cmp col target 0 0 (bm_bits bm)) (\<lambda>(i, byte_idx, bytes).
         bind_panic (vector_tail32 cmp col target i byte_idx bytes) (\<lambda>(i, byte_idx, bytes).
         bind_panic (scalar_tail (\<lambda>c. cmp ((replicate 16 0)[0 := c]) target AND 1 \<noteq> 0) (\<lambda>i. i div 8) col i bytes) (\<lambda>bytes.
         Inr (bm\<lparr>bm_bits := bytes\<rparr>)))))"

section \<open>Filling a bitmap from the left\<close>

text \<open>The loop invariant of the kernels: rows below \<open>k\<close> hold their verdict \<open>q\<close>, the other bits are clear.\<close>

definition filled :: "(nat \<Rightarrow> bool) \<Rightarrow> nat \<Rightarrow> nat \<Rightarrow> u8 list \<Rightarrow> bool" where
  "filled q n k bytes \<longleftrightarrow> length bytes = (n + 7) div 8 \<and>
     (\<forall>j < 8 * length bytes. packed_bit bytes j \<longleftrightarrow> j < k \<and> q j)"

lemma filled_new: "filled q n 0 (bm_bits (bm_new n))"
  by (auto simp: filled_def bm_new_def packed_bit_def)

lemma filled_all: "filled q n n bytes \<Longrightarrow> (bm_new n)\<lparr>bm_bits := bytes\<rparr> = bm_of_rows (map q [0..<n])"
  using bm_of_rowsI [of "\<lparr>bm_bits = bytes, bm_len = n\<rparr>" q] by (simp add: filled_def bm_new_def)

lemma filled_byte:
  assumes "filled q n (8 * b) bytes" "8 * b + 8 \<le> n" "\<And>k. k < 8 \<Longrightarrow> bit m k = q (8 * b + k)"
  shows "set_unchecked bytes b m = Inr (bytes[b := m])" "filled q n (8 * b + 8) (bytes[b := m])"
proof -
  have b: "b < length bytes"
    using assms(1,2) div_le_mono [of "8 * b + 8" "n + 7" 8] by (simp add: filled_def)
  then show "set_unchecked bytes b m = Inr (bytes[b := m])"
    by (rule slice_access_ok(5))
  have "packed_bit (bytes[b := m]) j \<longleftrightarrow> j < 8 * b + 8 \<and> q j" if j: "j < 8 * length bytes" for j
  proof (cases "j div 8 = b")
    case True
    then have "q (8 * b + j mod 8) = q j" "j < 8 * b + 8"
      using byte_of_bit [of j "b + 1"] by auto
    then show ?thesis
      using assms(3) [of "j mod 8"] b True by (simp add: packed_bit_update)
  next
    case False
    then have "j < 8 * b \<longleftrightarrow> j < 8 * b + 8"
      using byte_of_bit [of j b] byte_of_bit [of j "b + 1"] by auto
    then show ?thesis
      using assms(1) b False j by (simp add: packed_bit_update filled_def)
  qed
  then show "filled q n (8 * b + 8) (bytes[b := m])"
    using assms(1) by (simp add: filled_def)
qed

lemma filled_bit:
  assumes "filled q n i bytes" "i < n"
  shows "q i \<Longrightarrow> filled q n (Suc i) (bytes[i div 8 := bytes ! (i div 8) OR shl_one (i mod 8)])"
    and "\<not> q i \<Longrightarrow> filled q n (Suc i) bytes" and "i div 8 < length bytes"
proof -
  show i: "i div 8 < length bytes"
    using assms by (simp add: filled_def)
  show "q i \<Longrightarrow> filled q n (Suc i) (bytes[i div 8 := bytes ! (i div 8) OR shl_one (i mod 8)])"
    using assms i by (auto simp: filled_def packed_bit_set less_Suc_eq)
  show "\<not> q i \<Longrightarrow> filled q n (Suc i) bytes"
    using assms by (auto simp: filled_def less_Suc_eq)
qed

lemma scalar_tail_ok:
  assumes "filled q (length col) i bytes" "i \<le> length col"
    and "\<And>j. i \<le> j \<Longrightarrow> j < length col \<Longrightarrow> at j = j div 8 \<and> test (col ! j) = q j"
  shows "\<exists>r. scalar_tail test at col i bytes = Inr r \<and> filled q (length col) (length col) r"
  unfolding scalar_tail_def
proof (rule fold_panic_upt [OF assms(2), where I = "filled q (length col)"], rule assms(1))
  fix j s
  assume j: "i \<le> j" "j < length col" "filled q (length col) j s"
  show "\<exists>s'. bind_panic (slice_index col j) (\<lambda>c. if test c
      then bind_panic (get_unchecked s (at j)) (\<lambda>b. set_unchecked s (at j) (b OR shl_one (j mod 8))) else Inr s)
    = Inr s' \<and> filled q (length col) (Suc j) s'"
    using filled_bit [OF j(3,2)] assms(3) [OF j(1,2)] j(2) by (simp add: slice_access_ok)
qed

section \<open>Kernels over 64-bit lanes are correct\<close>

locale lanes64 =
  fixes cmp :: "u64 list \<Rightarrow> u64 list \<Rightarrow> u8"
    and p :: "u64 \<Rightarrow> u64 \<Rightarrow> bool"
  assumes lane: "length v = 8 \<Longrightarrow> k < 8 \<Longrightarrow> bit (cmp v (replicate 8 t)) k \<longleftrightarrow> p (v ! k) t"
begin

lemma store_block:
  assumes "filled (\<lambda>j. p (col ! j) t) (length col) (8 * b) bytes" "8 * b + 8 \<le> length col"
  shows "set_unchecked bytes b (cmp (take 8 (drop (8 * b) col)) (replicate 8 t)) =
      Inr (bytes[b := cmp (take 8 (drop (8 * b) col)) (replicate 8 t)])"
    and "filled (\<lambda>j. p (col ! j) t) (length col) (8 * (b + 1)) (bytes[b := cmp (take 8 (drop (8 * b) col)) (replicate 8 t)])"
  using filled_byte [OF assms, of "cmp (take 8 (drop (8 * b) col)) (replicate 8 t)"] assms(2)
  by (simp_all add: lane add.commute)

lemma block64_ok:
  assumes "filled (\<lambda>j. p (col ! j) t) (length col) (8 * b) bytes" "8 * b + 8 \<le> length col"
  shows "\<exists>r. block64 cmp col (replicate 8 t) (8 * b) b bytes = Inr r \<and>
     filled (\<lambda>j. p (col ! j) t) (length col) (8 * (b + 1)) r"
  using store_block [OF assms] assms(2) by (simp add: block64_def slice_access_ok)

lemma unrolled64_body_ok:
  assumes "filled (\<lambda>j. p (col ! j) t) (length col) (8 * b) bytes" "8 * b + 32 \<le> length col"
  shows "\<exists>r. unrolled64_body cmp col (replicate 8 t) (8 * b) b bytes = Inr r \<and>
     filled (\<lambda>j. p (col ! j) t) (length col) (8 * (b + 4)) r"
proof -
  have i: "8 * b + 8 = 8 * (b + 1)" "8 * b + 16 = 8 * (b + 2)" "8 * b + 24 = 8 * (b + 3)"
    by simp_all
  have le: "8 * (b + 1) + 8 \<le> length col" "8 * (b + 2) + 8 \<le> length col" "8 * (b + 3) + 8 \<le> length col" "8 * b + 8 \<le> length col"
    using assms(2) by simp_all
  define m where "m k = cmp (take 8 (drop (8 * k) col)) (replicate 8 t)" for k
  note s0 = store_block [OF assms(1) le(4), folded m_def]
  note s1 = store_block [OF s0(2) le(1), folded m_def]
  have b: "b + 1 + 1 = b + 2" "b + 2 + 1 = b + 3" "b + 3 + 1 = b + 4"
    by simp_all
  note s2 = store_block [OF s1(2) [unfolded b] le(2), folded m_def]
  note s3 = store_block [OF s2(2) [unfolded b] le(3), folded m_def]
  have "unrolled64_body cmp col (replicate 8 t) (8 * b) b bytes = Inr (bytes[b := m b, b + 1 := m (b + 1), b + 2 := m (b + 2), b + 3 := m (b + 3)])"
    by (simp only: unrolled64_body_def i slice_access_ok(6) [OF le(4)] slice_access_ok(6) [OF le(1)]
        slice_access_ok(6) [OF le(2)] slice_access_ok(6) [OF le(3)] bind_panic_simps m_def [symmetric] s0(1) s1(1) s2(1) s3(1))
  then show ?thesis using s3(2) unfolding b by blast
qed

lemma unrolled64_ok:
  assumes "filled (\<lambda>j. p (col ! j) t) (length col) (8 * b) bytes" "8 * b \<le> length col"
  shows "\<exists>b' r. unrolled64 cmp col (replicate 8 t) (8 * b) b bytes = Inr (8 * b', b', r) \<and>
     filled (\<lambda>j. p (col ! j) t) (length col) (8 * b') r \<and> 8 * b' \<le> length col"
  using assms
proof (induction "length col - 8 * b" arbitrary: b bytes rule: less_induct)
  case less
  show ?case
  proof (cases "8 * b + 32 \<le> length col")
    case True
    obtain r where r: "unrolled64_body cmp col (replicate 8 t) (8 * b) b bytes = Inr r"
      "filled (\<lambda>j. p (col ! j) t) (length col) (8 * (b + 4)) r"
      using unrolled64_body_ok [OF less.prems(1) True] by blast
    have "8 * b + 32 = 8 * (b + 4)"
      by simp
    then show ?thesis
      using less.hyps [OF _ r(2)] r(1) True by (subst unrolled64.simps) simp
  next
    case False
    then show ?thesis using less.prems by (subst unrolled64.simps) auto
  qed
qed

lemma vector_tail64_ok:
  assumes "filled (\<lambda>j. p (col ! j) t) (length col) (8 * b) bytes" "8 * b \<le> length col"
  shows "\<exists>b' r. vector_tail64 cmp col (replicate 8 t) (8 * b) b bytes = Inr (8 * b', b', r) \<and>
     filled (\<lambda>j. p (col ! j) t) (length col) (8 * b') r \<and> 8 * b' \<le> length col \<and> length col < 8 * b' + 8"
  using assms
proof (induction "length col - 8 * b" arbitrary: b bytes rule: less_induct)
  case less
  show ?case
  proof (cases "8 * b + 8 \<le> length col")
    case True
    obtain r where r: "block64 cmp col (replicate 8 t) (8 * b) b bytes = Inr r"
      "filled (\<lambda>j. p (col ! j) t) (length col) (8 * (b + 1)) r"
      using block64_ok [OF less.prems(1) True] by blast
    have "8 * b + 8 = 8 * (b + 1)"
      by simp
    then show ?thesis
      using less.hyps [OF _ r(2)] r(1) True by (subst vector_tail64.simps) (simp add: add.commute)
  next
    case False
    then show ?thesis using less.prems by (subst vector_tail64.simps) auto
  qed
qed

text \<open>Both vector loops followed by a scalar tail with the same test.\<close>

lemma vector_then_tail:
  assumes "\<And>c. test c = p c t"
  shows "\<exists>i b bytes i' b' bytes' r. unrolled64 cmp col (replicate 8 t) 0 0 (bm_bits (bm_new (length col))) = Inr (i, b, bytes) \<and>
    vector_tail64 cmp col (replicate 8 t) i b bytes = Inr (i', b', bytes') \<and>
    scalar_tail test (\<lambda>_. b') col i' bytes' = Inr r \<and>
    (bm_new (length col))\<lparr>bm_bits := r\<rparr> = bm_of_rows (map (\<lambda>c. p c t) col)"
proof -
  let ?q = "\<lambda>j. p (col ! j) t" and ?n = "length col"
  obtain b r where 1: "unrolled64 cmp col (replicate 8 t) 0 0 (bm_bits (bm_new ?n)) = Inr (8 * b, b, r)"
    "filled ?q ?n (8 * b) r" "8 * b \<le> ?n"
    using unrolled64_ok [of col t 0 "bm_bits (bm_new ?n)"] filled_new by auto
  obtain b' r' where 2: "vector_tail64 cmp col (replicate 8 t) (8 * b) b r = Inr (8 * b', b', r')"
    "filled ?q ?n (8 * b') r'" "8 * b' \<le> ?n" "?n < 8 * b' + 8"
    using vector_tail64_ok [OF 1(2,3)] by blast
  have "b' = j div 8" if "8 * b' \<le> j" "j < ?n" for j
    using that 2(4) div_le_mono [of "8 * b'" j 8] byte_of_bit [of j "b' + 1"] by simp
  then obtain r'' where "scalar_tail test (\<lambda>_. b') col (8 * b') r' = Inr r''" "filled ?q ?n ?n r''"
    using scalar_tail_ok [OF 2(2,3), of "\<lambda>_. b'" test] assms by auto
  moreover have "map ?q [0..<?n] = map (\<lambda>c. p c t) col"
    by (rule nth_equalityI) simp_all
  ultimately show ?thesis
    using 1(1) 2(1) filled_all [of ?q ?n r''] by fastforce
qed

lemma inner_correct: "filter_u64_avx512_inner col t cmp = Inr (bm_of_rows (map (\<lambda>c. p c t) col))"
proof -
  have "cmp ((replicate 8 0)[0 := c]) (replicate 8 t) AND 1 \<noteq> 0 \<longleftrightarrow> p c t" for c
    using lane [of "(replicate 8 0)[0 := c]" 0 t] shift_and_one [of 0 "cmp ((replicate 8 0)[0 := c]) (replicate 8 t)"] by simp
  from vector_then_tail [OF this, of col] show ?thesis
    by (auto simp: filter_u64_avx512_inner_def Let_def)
qed

end

section \<open>Kernels over 32-bit lanes are correct\<close>

lemma mask16_bytes:
  assumes "k < 8"
  shows "bit (ucast (m AND 0xFF) :: u8) k = bit (m :: u16) k" "bit (ucast (drop_bit 8 m) :: u8) k = bit m (8 + k)"
proof -
  have "bit (0xFF :: int) k"
    using assms by (auto simp: bit_simps less_Suc_eq numeral_eq_Suc)
  then show "bit (ucast (m AND 0xFF) :: u8) k = bit m k"
    using assms by (auto simp: bit_simps)
  show "bit (ucast (drop_bit 8 m) :: u8) k = bit m (8 + k)"
    using assms by (simp add: bit_simps)
qed

locale lanes32 =
  fixes cmp :: "i32 list \<Rightarrow> i32 list \<Rightarrow> u16"
    and p :: "i32 \<Rightarrow> i32 \<Rightarrow> bool"
  assumes lane: "length v = 16 \<Longrightarrow> k < 16 \<Longrightarrow> bit (cmp v (replicate 16 t)) k \<longleftrightarrow> p (v ! k) t"
begin

lemma store_block:
  assumes "filled (\<lambda>j. p (col ! j) t) (length col) (8 * b) bytes" "8 * b + 16 \<le> length col"
  shows "\<exists>r. store_mask16 bytes b (cmp (take 16 (drop (8 * b) col)) (replicate 16 t)) = Inr r \<and>
    filled (\<lambda>j. p (col ! j) t) (length col) (8 * (b + 2)) r"
proof -
  let ?q = "\<lambda>j. p (col ! j) t" and ?m = "cmp (take 16 (drop (8 * b) col)) (replicate 16 t)"
  have lanes: "bit ?m k = ?q (8 * b + k)" if "k < 16" for k
    using lane [of "take 16 (drop (8 * b) col)" k t] assms(2) that by simp
  have lo: "bit (ucast (?m AND 0xFF) :: u8) k = ?q (8 * b + k)"
    and hi: "bit (ucast (drop_bit 8 ?m) :: u8) k = ?q (8 * (b + 1) + k)" if "k < 8" for k
    using mask16_bytes [OF that, of ?m] lanes [of k] lanes [of "8 + k"] that by (simp_all add: algebra_simps)
  have le: "8 * b + 8 \<le> length col" "8 * (b + 1) + 8 \<le> length col"
    using assms(2) by simp_all
  have b: "8 * b + 8 = 8 * (b + 1)" "8 * (b + 1) + 8 = 8 * (b + 2)"
    by simp_all
  note f0 = filled_byte [OF assms(1) le(1) lo]
  note f1 = filled_byte [OF f0(2) [unfolded b(1)] le(2) hi, unfolded b(2)]
  from f1(2) show ?thesis
    by (simp only: store_mask16_def f0(1) bind_panic_simps f1(1)) blast
qed

lemma unrolled32_body_ok:
  assumes "filled (\<lambda>j. p (col ! j) t) (length col) (8 * b) bytes" "8 * b + 64 \<le> length col"
  shows "\<exists>r. unrolled32_body cmp col (replicate 16 t) (8 * b) b bytes = Inr r \<and>
     filled (\<lambda>j. p (col ! j) t) (length col) (8 * (b + 8)) r"
proof -
  have i: "8 * b + 16 = 8 * (b + 2)" "8 * b + 32 = 8 * (b + 4)" "8 * b + 48 = 8 * (b + 6)"
    by simp_all
  have b: "b + 2 + 2 = b + 4" "b + 4 + 2 = b + 6" "b + 6 + 2 = b + 8"
    by simp_all
  have le: "8 * b + 16 \<le> length col" "8 * (b + 2) + 16 \<le> length col" "8 * (b + 4) + 16 \<le> length col" "8 * (b + 6) + 16 \<le> length col"
    using assms(2) by simp_all
  define m where "m k = cmp (take 16 (drop (8 * k) col)) (replicate 16 t)" for k
  note store = store_block [of col t, folded m_def]
  obtain r0 where r0: "store_mask16 bytes b (m b) = Inr r0" "filled (\<lambda>j. p (col ! j) t) (length col) (8 * (b + 2)) r0"
    using store [OF assms(1) le(1)] by blast
  obtain r1 where r1: "store_mask16 r0 (b + 2) (m (b + 2)) = Inr r1" "filled (\<lambda>j. p (col ! j) t) (length col) (8 * (b + 4)) r1"
    using store [OF r0(2) le(2)] unfolding b by blast
  obtain r2 where r2: "store_mask16 r1 (b + 4) (m (b + 4)) = Inr r2" "filled (\<lambda>j. p (col ! j) t) (length col) (8 * (b + 6)) r2"
    using store [OF r1(2) le(3)] unfolding b by blast
  obtain r3 where r3: "store_mask16 r2 (b + 6) (m (b + 6)) = Inr r3" "filled (\<lambda>j. p (col ! j) t) (length col) (8 * (b + 8)) r3"
    using store [OF r2(2) le(4)] unfolding b by blast
  have "unrolled32_body cmp col (replicate 16 t) (8 * b) b bytes = Inr r3"
    by (simp only: unrolled32_body_def i slice_access_ok(6) [OF le(1)] slice_access_ok(6) [OF le(2)]
        slice_access_ok(6) [OF le(3)] slice_access_ok(6) [OF le(4)] bind_panic_simps m_def [symmetric] r0(1) r1(1) r2(1) r3(1))
  then show ?thesis using r3(2) by blast
qed

lemma unrolled32_ok:
  assumes "filled (\<lambda>j. p (col ! j) t) (length col) (8 * b) bytes" "8 * b \<le> length col"
  shows "\<exists>b' r. unrolled32 cmp col (replicate 16 t) (8 * b) b bytes = Inr (8 * b', b', r) \<and>
     filled (\<lambda>j. p (col ! j) t) (length col) (8 * b') r \<and> 8 * b' \<le> length col"
  using assms
proof (induction "length col - 8 * b" arbitrary: b bytes rule: less_induct)
  case less
  show ?case
  proof (cases "8 * b + 64 \<le> length col")
    case True
    obtain r where r: "unrolled32_body cmp col (replicate 16 t) (8 * b) b bytes = Inr r"
      "filled (\<lambda>j. p (col ! j) t) (length col) (8 * (b + 8)) r"
      using unrolled32_body_ok [OF less.prems(1) True] by blast
    show ?thesis
      using less.hyps [OF _ r(2)] r(1) True by (subst unrolled32.simps) (simp add: add.commute)
  next
    case False
    then show ?thesis using less.prems by (subst unrolled32.simps) auto
  qed
qed

lemma vector_tail32_ok:
  assumes "filled (\<lambda>j. p (col ! j) t) (length col) (8 * b) bytes" "8 * b \<le> length col"
  shows "\<exists>b' r. vector_tail32 cmp col (replicate 16 t) (8 * b) b bytes = Inr (8 * b', b', r) \<and>
     filled (\<lambda>j. p (col ! j) t) (length col) (8 * b') r \<and> 8 * b' \<le> length col"
  using assms
proof (induction "length col - 8 * b" arbitrary: b bytes rule: less_induct)
  case less
  show ?case
  proof (cases "8 * b + 16 \<le> length col")
    case True
    obtain r where r: "store_mask16 bytes b (cmp (take 16 (drop (8 * b) col)) (replicate 16 t)) = Inr r"
      "filled (\<lambda>j. p (col ! j) t) (length col) (8 * (b + 2)) r"
      using store_block [OF less.prems(1) True] by blast
    show ?thesis
      using less.hyps [OF _ r(2)] r(1) True by (subst vector_tail32.simps) (simp add: slice_access_ok add.commute)
  next
    case False
    then show ?thesis using less.prems by (subst vector_tail32.simps) auto
  qed
qed

lemma inner_correct: "filter_i32_avx512_inner col t cmp = Inr (bm_of_rows (map (\<lambda>c. p c t) col))"
proof -
  let ?q = "\<lambda>j. p (col ! j) t" and ?n = "length col"
  have test: "cmp ((replicate 16 0)[0 := c]) (replicate 16 t) AND 1 \<noteq> 0 \<longleftrightarrow> p c t" for c
    using lane [of "(replicate 16 0)[0 := c]" 0 t] by (simp add: and_one_eq mod_2_eq_odd bit_0)
  obtain b r where 1: "unrolled32 cmp col (replicate 16 t) 0 0 (bm_bits (bm_new ?n)) = Inr (8 * b, b, r)"
    "filled ?q ?n (8 * b) r" "8 * b \<le> ?n"
    using unrolled32_ok [of col t 0 "bm_bits (bm_new ?n)"] filled_new by auto
  obtain b' r' where 2: "vector_tail32 cmp col (replicate 16 t) (8 * b) b r = Inr (8 * b', b', r')"
    "filled ?q ?n (8 * b') r'" "8 * b' \<le> ?n"
    using vector_tail32_ok [OF 1(2,3)] by blast
  obtain r'' where 3: "scalar_tail (\<lambda>c. cmp ((replicate 16 0)[0 := c]) (replicate 16 t) AND 1 \<noteq> 0) (\<lambda>i. i div 8) col (8 * b') r' = Inr r''"
    "filled ?q ?n ?n r''"
    using scalar_tail_ok [OF 2(2,3), of "\<lambda>i. i div 8" "\<lambda>c. cmp ((replicate 16 0)[0 := c]) (replicate 16 t) AND 1 \<noteq> 0"] test by auto
  have "map ?q [0..<?n] = map (\<lambda>c. p c t) col"
    by (rule nth_equalityI) simp_all
  then show ?thesis
    using 1(1) 2(1) 3(1) filled_all [OF 3(2)] by (simp add: filter_i32_avx512_inner_def Let_def)
qed

end

section \<open>The public filters\<close>

text \<open>The scalar path of every filter.\<close>

definition filter_scalar :: "('a \<Rightarrow> bool) \<Rightarrow> 'a list \<Rightarrow> panic + bitmap" where
  "filter_scalar p col =
     fold_panic (\<lambda>(i, c) bm. if p c then bm_set bm i else Inr bm) (enumerate 0 col) (bm_new (length col))"

definition filter_eq_u64 :: "bool \<Rightarrow> u64 list \<Rightarrow> u64 \<Rightarrow> panic + bitmap" where
  "filter_eq_u64 avx col val =
     (if avx then filter_u64_avx512_inner col val (cmp_mask (=))
      else filter_scalar (\<lambda>c. c = val) col)"

definition filter_ne_u64 :: "bool \<Rightarrow> u64 list \<Rightarrow> u64 \<Rightarrow> panic + bitmap" where
  "filter_ne_u64 avx col val =
     (if avx then filter_u64_avx512_inner col val (\<lambda>v t. NOT (cmp_mask (=) v t))
      else filter_scalar (\<lambda>c. c \<noteq> val) col)"

definition filter_lt_u64 :: "bool \<Rightarrow> u64 list \<Rightarrow> u64 \<Rightarrow> panic + bitmap" where
  "filter_lt_u64 avx col val =
     (if avx then filter_u64_avx512_inner col val (cmp_mask (<))
      else filter_scalar (\<lambda>c. c < val) col)"

definition filter_gt_u64 :: "bool \<Rightarrow> u64 list \<Rightarrow> u64 \<Rightarrow> panic + bitmap" where
  "filter_gt_u64 avx col val =
     (if avx then filter_u64_avx512_inner col val (cmp_mask (>))
      else filter_scalar (\<lambda>c. c > val) col)"

definition filter_le_u64 :: "bool \<Rightarrow> u64 list \<Rightarrow> u64 \<Rightarrow> panic + bitmap" where
  "filter_le_u64 avx col val =
     (if avx then filter_u64_avx512_inner col val (cmp_mask (\<le>))
      else filter_scalar (\<lambda>c. c \<le> val) col)"

definition filter_ge_u64 :: "bool \<Rightarrow> u64 list \<Rightarrow> u64 \<Rightarrow> panic + bitmap" where
  "filter_ge_u64 avx col val =
     (if avx then filter_u64_avx512_inner col val (cmp_mask (\<ge>))
      else filter_scalar (\<lambda>c. c \<ge> val) col)"

definition filter_lt_i64 :: "bool \<Rightarrow> u64 list \<Rightarrow> i64 \<Rightarrow> panic + bitmap" where
  "filter_lt_i64 avx col val =
     (if avx then filter_u64_avx512_inner col val (cmp_mask (\<lambda>a b. sint a < sint b))
      else filter_scalar (\<lambda>c. sint c < sint val) col)"

definition filter_le_i64 :: "bool \<Rightarrow> u64 list \<Rightarrow> i64 \<Rightarrow> panic + bitmap" where
  "filter_le_i64 avx col val =
     (if avx then filter_u64_avx512_inner col val (cmp_mask (\<lambda>a b. sint a \<le> sint b))
      else filter_scalar (\<lambda>c. sint c \<le> sint val) col)"

definition filter_gt_i64 :: "bool \<Rightarrow> u64 list \<Rightarrow> i64 \<Rightarrow> panic + bitmap" where
  "filter_gt_i64 avx col val =
     (if avx then filter_u64_avx512_inner col val (cmp_mask (\<lambda>a b. sint a > sint b))
      else filter_scalar (\<lambda>c. sint c > sint val) col)"

definition filter_ge_i64 :: "bool \<Rightarrow> u64 list \<Rightarrow> i64 \<Rightarrow> panic + bitmap" where
  "filter_ge_i64 avx col val =
     (if avx then filter_u64_avx512_inner col val (cmp_mask (\<lambda>a b. sint a \<ge> sint b))
      else filter_scalar (\<lambda>c. sint c \<ge> sint val) col)"

definition filter_eq_f64 :: "bool \<Rightarrow> u64 list \<Rightarrow> u64 \<Rightarrow> panic + bitmap" where
  "filter_eq_f64 avx col val =
     (if avx then filter_f64_avx512_inner CMP_EQ_OQ col val
      else filter_scalar (\<lambda>c. c = val) col)"

definition filter_lt_f64 :: "bool \<Rightarrow> u64 list \<Rightarrow> u64 \<Rightarrow> panic + bitmap" where
  "filter_lt_f64 avx col val =
     (if avx then filter_f64_avx512_inner CMP_LT_OQ col val
      else filter_scalar (\<lambda>c. f64_cmp CMP_LT_OQ c val) col)"

definition filter_gt_f64 :: "bool \<Rightarrow> u64 list \<Rightarrow> u64 \<Rightarrow> panic + bitmap" where
  "filter_gt_f64 avx col val =
     (if avx then filter_f64_avx512_inner CMP_GT_OQ col val
      else filter_scalar (\<lambda>c. f64_cmp CMP_GT_OQ c val) col)"

definition filter_le_f64 :: "bool \<Rightarrow> u64 list \<Rightarrow> u64 \<Rightarrow> panic + bitmap" where
  "filter_le_f64 avx col val =
     (if avx then filter_f64_avx512_inner CMP_LE_OQ col val
      else filter_scalar (\<lambda>c. f64_cmp CMP_LE_OQ c val) col)"

definition filter_ge_f64 :: "bool \<Rightarrow> u64 list \<Rightarrow> u64 \<Rightarrow> panic + bitmap" where
  "filter_ge_f64 avx col val =
     (if avx then filter_f64_avx512_inner CMP_GE_OQ col val
      else filter_scalar (\<lambda>c. f64_cmp CMP_GE_OQ c val) col)"

definition filter_eq_f64_exact :: "bool \<Rightarrow> u64 list \<Rightarrow> u64 \<Rightarrow> panic + bitmap" where
  "filter_eq_f64_exact avx col val = bind_panic (filter_eq_f64 avx col val) bm_not"

text \<open>The i32 kernels have one ordered compare, signed greater-than, and derive the others from it.\<close>

definition cmpgt_epi32_mask :: "i32 list \<Rightarrow> i32 list \<Rightarrow> u16" where
  "cmpgt_epi32_mask = cmp_mask (\<lambda>a b. sint a > sint b)"

definition filter_eq_i32 :: "bool \<Rightarrow> i32 list \<Rightarrow> i32 \<Rightarrow> panic + bitmap" where
  "filter_eq_i32 avx col val =
     (if avx then filter_i32_avx512_inner col val (cmp_mask (=))
      else filter_scalar (\<lambda>c. c = val) col)"

definition filter_ne_i32 :: "bool \<Rightarrow> i32 list \<Rightarrow> i32 \<Rightarrow> panic + bitmap" where
  "filter_ne_i32 avx col val =
     (if avx then filter_i32_avx512_inner col val (\<lambda>v t. NOT (cmp_mask (=) v t))
      else filter_scalar (\<lambda>c. c \<noteq> val) col)"

definition filter_lt_i32 :: "bool \<Rightarrow> i32 list \<Rightarrow> i32 \<Rightarrow> panic + bitmap" where
  "filter_lt_i32 avx col val =
     (if avx then filter_i32_avx512_inner col val (\<lambda>v t. cmpgt_epi32_mask t v)
      else filter_scalar (\<lambda>c. sint c < sint val) col)"

definition filter_le_i32 :: "bool \<Rightarrow> i32 list \<Rightarrow> i32 \<Rightarrow> panic + bitmap" where
  "filter_le_i32 avx col val =
     (if avx then filter_i32_avx512_inner col val (\<lambda>v t. NOT (cmpgt_epi32_mask v t))
      else filter_scalar (\<lambda>c. sint c \<le> sint val) col)"

definition filter_gt_i32 :: "bool \<Rightarrow> i32 list \<Rightarrow> i32 \<Rightarrow> panic + bitmap" where
  "filter_gt_i32 avx col val =
     (if avx then filter_i32_avx512_inner col val cmpgt_epi32_mask
      else filter_scalar (\<lambda>c. sint c > sint val) col)"

definition filter_ge_i32 :: "bool \<Rightarrow> i32 list \<Rightarrow> i32 \<Rightarrow> panic + bitmap" where
  "filter_ge_i32 avx col val =
     (if avx then filter_i32_avx512_inner col val (\<lambda>v t. NOT (cmpgt_epi32_mask t v))
      else filter_scalar (\<lambda>c. sint c \<ge> sint val) col)"

lemma filter_scalar_ok: "filter_scalar p col = Inr (bm_of_rows (map p col))"
  using packed.filter_loop [of p col] bm_of_rows_unique by (auto simp: filter_scalar_def)

lemma bit_cmp_mask:
  "length v = w \<Longrightarrow> k < w \<Longrightarrow> w \<le> LENGTH('m) \<Longrightarrow>
   bit (cmp_mask p v (replicate w t) :: 'm::len word) k \<longleftrightarrow> p (v ! k) t"
  "length v = w \<Longrightarrow> k < w \<Longrightarrow> w \<le> LENGTH('m) \<Longrightarrow>
   bit (cmp_mask p (replicate w t) v :: 'm::len word) k \<longleftrightarrow> p t (v ! k)"
  by (simp_all add: cmp_mask_def mask_of_def bit_horner_sum_bit_word_iff)

text \<open>Every compare closure of the filters is lane-wise.\<close>

interpretation lanes: lanes64 "cmp_mask p" p for p
  by unfold_locales (simp add: bit_cmp_mask)

interpretation lanes_not: lanes64 "\<lambda>v t. NOT (cmp_mask p v t)" "\<lambda>a b. \<not> p a b" for p
  by unfold_locales (simp add: bit_cmp_mask bit_not_iff)

interpretation lanes_i32: lanes32 "cmp_mask p" p for p
  by unfold_locales (simp add: bit_cmp_mask)

interpretation lanes_i32_not: lanes32 "\<lambda>v t. NOT (cmp_mask p v t)" "\<lambda>a b. \<not> p a b" for p
  by unfold_locales (simp add: bit_cmp_mask bit_not_iff)

interpretation lanes_i32_swap: lanes32 "\<lambda>v t. cmp_mask p t v" "\<lambda>a b. p b a" for p
  by unfold_locales (simp add: bit_cmp_mask)

interpretation lanes_i32_swap_not: lanes32 "\<lambda>v t. NOT (cmp_mask p t v)" "\<lambda>a b. \<not> p b a" for p
  by unfold_locales (simp add: bit_cmp_mask bit_not_iff)

lemma filter_f64_inner_ok:
  "filter_f64_avx512_inner pred col val = Inr (bm_of_rows (map (\<lambda>c. f64_cmp pred c val) col))"
  using lanes.vector_then_tail [of "\<lambda>c. f64_cmp pred c val" "f64_cmp pred" val col]
  by (auto simp: filter_f64_avx512_inner_def Let_def)

lemmas inner_kernels_ok = lanes.inner_correct lanes_not.inner_correct filter_f64_inner_ok lanes_i32.inner_correct
  lanes_i32_not.inner_correct lanes_i32_swap.inner_correct lanes_i32_swap_not.inner_correct filter_scalar_ok

section \<open>Mask combinators\<close>

text \<open>In-place combination of two byte buffers: vector blocks of \<open>w\<close> bytes while they fit.\<close>

function block_zip :: "nat \<Rightarrow> (u8 \<Rightarrow> u8 \<Rightarrow> u8) \<Rightarrow> u8 list \<Rightarrow> nat \<Rightarrow> nat \<Rightarrow> u8 list \<Rightarrow> panic + nat \<times> u8 list" where
  "block_zip w op src n i dst =
     (if 0 < w \<and> i + w \<le> n
      then bind_panic (load_lanes w dst i) (\<lambda>d.
           bind_panic (load_lanes w src i) (\<lambda>s.
           bind_panic (store_lanes dst i (map2 op d s)) (\<lambda>dst'.
           block_zip w op src n (i + w) dst')))
      else Inr (i, dst))"
  by auto
termination
  by (relation "measure (\<lambda>(w, op, src, n, i, dst). n - i)") auto

declare block_zip.simps [simp del]

definition inplace_avx512 :: "(u8 \<Rightarrow> u8 \<Rightarrow> u8) \<Rightarrow> u8 list \<Rightarrow> u8 list \<Rightarrow> panic + u8 list" where
  "inplace_avx512 op dst src =
     bind_panic (block_zip 64 op src (length dst) 0 dst) (\<lambda>(i, dst).
     bind_panic (block_zip 16 op src (length dst) i dst) (\<lambda>(i, dst).
     bind_panic (block_zip 1 op src (length dst) i dst) (\<lambda>(i, dst). Inr dst)))"

definition and_inplace_avx512 :: "u8 list \<Rightarrow> u8 list \<Rightarrow> panic + u8 list" where
  "and_inplace_avx512 dst src = inplace_avx512 (AND) dst src"

definition or_inplace_avx512 :: "u8 list \<Rightarrow> u8 list \<Rightarrow> panic + u8 list" where
  "or_inplace_avx512 dst src = inplace_avx512 (OR) dst src"

definition inplace_loop :: "(u8 \<Rightarrow> u8 \<Rightarrow> u8) \<Rightarrow> nat \<Rightarrow> u8 list \<Rightarrow> u8 list \<Rightarrow> panic + u8 list" where
  "inplace_loop op n other bits =
     fold_panic (\<lambda>i bits. bind_panic (slice_index bits i) (\<lambda>x. bind_panic (slice_index other i) (\<lambda>y.
       slice_set bits i (op x y)))) [0..<n] bits"

definition bm_and_inplace :: "bool \<Rightarrow> bitmap \<Rightarrow> bitmap \<Rightarrow> panic + bitmap" where
  "bm_and_inplace avx s other =
     (let n = min (length (bm_bits s)) (length (bm_bits other))
      in if avx
         then bind_panic (and_inplace_avx512 (take n (bm_bits s)) (take n (bm_bits other))) (\<lambda>r.
              Inr (s\<lparr>bm_bits := r @ drop n (bm_bits s)\<rparr>))
         else bind_panic (inplace_loop (AND) n (bm_bits other) (bm_bits s)) (\<lambda>r. Inr (s\<lparr>bm_bits := r\<rparr>)))"

definition bm_or_inplace :: "bool \<Rightarrow> bitmap \<Rightarrow> bitmap \<Rightarrow> panic + bitmap" where
  "bm_or_inplace avx s other =
     (let n = min (length (bm_bits s)) (length (bm_bits other))
      in if avx
         then bind_panic (or_inplace_avx512 (take n (bm_bits s)) (take n (bm_bits other))) (\<lambda>r.
              Inr (s\<lparr>bm_bits := r @ drop n (bm_bits s)\<rparr>))
         else bind_panic (inplace_loop (OR) n (bm_bits other) (bm_bits s)) (\<lambda>r. Inr (s\<lparr>bm_bits := r\<rparr>)))"

text \<open>Combination with a \<open>[bool]\<close> mask. In the vector path the mask is its bytes: a Rust \<open>bool\<close> is the
  byte 0 or 1, and any other byte read back as \<open>bool\<close> is undefined behaviour.\<close>

definition bools_of_bytes :: "u8 list \<Rightarrow> panic + bool list" where
  "bools_of_bytes bytes =
     (if list_all (\<lambda>b. b = 0 \<or> b = 1) bytes then Inr (map (\<lambda>b. b = 1) bytes) else Inl Undefined_Behaviour)"

function mask_blocks64 :: "(u8 \<Rightarrow> u8 \<Rightarrow> u8) \<Rightarrow> u8 list \<Rightarrow> nat \<Rightarrow> nat \<Rightarrow> u8 list \<Rightarrow> panic + nat \<times> u8 list" where
  "mask_blocks64 comb bits n i bs =
     (if i + 64 \<le> n
      then bind_panic (load_lanes 64 bs i) (\<lambda>m.
           bind_panic (load_lanes 8 bits (i div 8)) (\<lambda>packed_bytes.
           bind_panic (store_lanes bs i (map2 comb m (maskz_set1 64 (read_u64_le packed_bytes) 0xFF))) (\<lambda>bs'.
           mask_blocks64 comb bits n (i + 64) bs')))
      else Inr (i, bs))"
  by auto
termination
  by (relation "measure (\<lambda>(comb, bits, n, i, bs). n - i)") auto

function mask_blocks8 :: "(u8 \<Rightarrow> u8 \<Rightarrow> u8) \<Rightarrow> u8 list \<Rightarrow> nat \<Rightarrow> nat \<Rightarrow> u8 list \<Rightarrow> panic + nat \<times> u8 list" where
  "mask_blocks8 comb bits n i bs =
     (if i + 8 \<le> n
      then bind_panic (load_lanes 8 bs i) (\<lambda>m.
           bind_panic (get_unchecked bits (i div 8)) (\<lambda>byte.
           bind_panic (store_lanes bs i (take 8 (map2 comb (m @ replicate 8 0) (maskz_set1 16 (ucast byte :: u16) 0xFF)))) (\<lambda>bs'.
           mask_blocks8 comb bits n (i + 8) bs')))
      else Inr (i, bs))"
  by auto
termination
  by (relation "measure (\<lambda>(comb, bits, n, i, bs). n - i)") auto

declare mask_blocks64.simps [simp del] mask_blocks8.simps [simp del]

text \<open>The remaining rows one by one: \<open>upd\<close> gives the new byte, if any, for the bit of the row.\<close>

definition mask_tail :: "(bool \<Rightarrow> u8 option) \<Rightarrow> u8 list \<Rightarrow> nat \<Rightarrow> nat \<Rightarrow> u8 list \<Rightarrow> panic + u8 list" where
  "mask_tail upd bits n i bs =
     fold_panic (\<lambda>i bs. bind_panic (slice_index bits (i div 8)) (\<lambda>b.
       case upd (drop_bit (i mod 8) b AND 1 \<noteq> 0) of None \<Rightarrow> Inr bs | Some x \<Rightarrow> set_unchecked bs i x)) [i..<n] bs"

definition into_bool_avx512 :: "(u8 \<Rightarrow> u8 \<Rightarrow> u8) \<Rightarrow> (bool \<Rightarrow> u8 option) \<Rightarrow> bitmap \<Rightarrow> bool list \<Rightarrow> panic + bool list" where
  "into_bool_avx512 comb upd bm bools =
     (let n = length bools; bits = bm_bits bm
      in bind_panic (mask_blocks64 comb bits n 0 (map of_bool bools)) (\<lambda>(i, bs).
         bind_panic (mask_blocks8 comb bits n i bs) (\<lambda>(i, bs).
         bind_panic (mask_tail upd bits n i bs) bools_of_bytes)))"

definition and_into_bool_avx512 :: "bitmap \<Rightarrow> bool list \<Rightarrow> panic + bool list" where
  "and_into_bool_avx512 = into_bool_avx512 (AND) (\<lambda>set. if set then None else Some 0)"

definition or_into_bool_avx512 :: "bitmap \<Rightarrow> bool list \<Rightarrow> panic + bool list" where
  "or_into_bool_avx512 = into_bool_avx512 (\<lambda>m e. min (m OR e) 1) (\<lambda>set. if set then Some 1 else None)"

definition and_into_bool :: "bool \<Rightarrow> bitmap \<Rightarrow> bool list \<Rightarrow> panic + bool list" where
  "and_into_bool avx bm bools =
     (if avx then and_into_bool_avx512 bm bools
      else fold_panic (\<lambda>i out. bind_panic (slice_index (bm_bits bm) (i div 8)) (\<lambda>b.
             if drop_bit (i mod 8) b AND 1 = 0 then slice_set out i False else Inr out)) [0..<length bools] bools)"

definition or_into_bool :: "bool \<Rightarrow> bitmap \<Rightarrow> bool list \<Rightarrow> panic + bool list" where
  "or_into_bool avx bm bools =
     (if avx then or_into_bool_avx512 bm bools
      else fold_panic (\<lambda>i out. bind_panic (slice_index (bm_bits bm) (i div 8)) (\<lambda>b.
             if drop_bit (i mod 8) b AND 1 \<noteq> 0 then slice_set out i True else Inr out)) [0..<length bools] bools)"

section \<open>The combinators are correct\<close>

text \<open>The loop invariant: elements below \<open>k\<close> are combined, the others are as before.\<close>

definition combined :: "(nat \<Rightarrow> 'a \<Rightarrow> 'a) \<Rightarrow> 'a list \<Rightarrow> nat \<Rightarrow> 'a list \<Rightarrow> bool" where
  "combined g orig k cur \<longleftrightarrow> length cur = length orig \<and>
     (\<forall>j < length orig. cur ! j = (if j < k then g j (orig ! j) else orig ! j))"

lemma combined_0: "combined g orig 0 orig"
  by (simp add: combined_def)

lemma combined_all: "combined g orig (length orig) cur \<Longrightarrow> cur = map (\<lambda>j. g j (orig ! j)) [0..<length orig]"
  by (auto simp: combined_def intro: nth_equalityI)

lemma combined_store:
  assumes "combined g orig i cur" "i + w \<le> length orig" "length v = w"
    and "\<And>k. k < w \<Longrightarrow> v ! k = g (i + k) (orig ! (i + k))"
  shows "store_lanes cur i v = Inr (take i cur @ v @ drop (i + w) cur)"
    "combined g orig (i + w) (take i cur @ v @ drop (i + w) cur)"
proof -
  show "store_lanes cur i v = Inr (take i cur @ v @ drop (i + w) cur)"
    using assms by (simp add: slice_access_ok combined_def)
  have "(take i cur @ v @ drop (i + w) cur) ! j = (if j < i + w then g j (orig ! j) else orig ! j)"
    if "j < length orig" for j
    using assms(1-3) that assms(4) [of "j - i"] by (auto simp: combined_def nth_append)
  then show "combined g orig (i + w) (take i cur @ v @ drop (i + w) cur)"
    using assms(1-3) by (auto simp: combined_def)
qed

lemma combined_lane:
  "combined g orig i cur \<Longrightarrow> i + w \<le> length orig \<Longrightarrow> k < w \<Longrightarrow> take w (drop i cur) ! k = orig ! (i + k)"
  by (simp add: combined_def)

lemma block_zip_ok:
  assumes "combined (\<lambda>j x. op x (src ! j)) orig i cur" "i \<le> length orig" "0 < w" "length orig \<le> length src"
  shows "\<exists>i' r. block_zip w op src (length orig) i cur = Inr (i', r) \<and>
    combined (\<lambda>j x. op x (src ! j)) orig i' r \<and> i' \<le> length orig \<and> length orig < i' + w"
  using assms
proof (induction "length orig - i" arbitrary: i cur rule: less_induct)
  case less
  show ?case
  proof (cases "i + w \<le> length orig")
    case True
    let ?v = "map2 op (take w (drop i cur)) (take w (drop i src))"
    have len: "length cur = length orig"
      using less.prems(1) by (simp add: combined_def)
    have "store_lanes cur i ?v = Inr (take i cur @ ?v @ drop (i + w) cur)"
      "combined (\<lambda>j x. op x (src ! j)) orig (i + w) (take i cur @ ?v @ drop (i + w) cur)"
      using combined_store [OF less.prems(1) True, of ?v] combined_lane [OF less.prems(1) True] True less.prems(4) len
      by simp_all
    then show ?thesis
      using less.hyps [of "i + w"] True less.prems(3,4) len by (subst block_zip.simps) (simp add: slice_access_ok)
  next
    case False
    then show ?thesis using less.prems by (subst block_zip.simps) auto
  qed
qed

lemma combined_length: "combined g orig k cur \<Longrightarrow> length cur = length orig"
  by (simp add: combined_def)

lemma inplace_avx512_ok:
  assumes "length dst \<le> length src"
  shows "inplace_avx512 op dst src = Inr (map (\<lambda>j. op (dst ! j) (src ! j)) [0..<length dst])"
proof -
  let ?g = "\<lambda>j x. op x (src ! j)"
  obtain i1 r1 where 1: "block_zip 64 op src (length dst) 0 dst = Inr (i1, r1)" "combined ?g dst i1 r1" "i1 \<le> length dst"
    using block_zip_ok [OF combined_0 _ _ assms, of 64 op] by auto
  obtain i2 r2 where 2: "block_zip 16 op src (length dst) i1 r1 = Inr (i2, r2)" "combined ?g dst i2 r2" "i2 \<le> length dst"
    using block_zip_ok [OF 1(2,3) _ assms, of 16] by auto
  obtain i3 r3 where 3: "block_zip 1 op src (length dst) i2 r2 = Inr (i3, r3)" "combined ?g dst i3 r3" "i3 \<le> length dst" "length dst < i3 + 1"
    using block_zip_ok [OF 2(2,3) _ assms, of 1] by auto
  then have "combined ?g dst (length dst) r3"
    by (simp add: le_antisym less_Suc_eq_le)
  from combined_all [OF this] show ?thesis
    using 1(1) 2(1) 3(1) combined_length [OF 1(2)] combined_length [OF 2(2)]
    by (simp add: inplace_avx512_def)
qed

lemma inplace_loop_ok:
  assumes "n \<le> length other" "n \<le> length bits"
  shows "inplace_loop op n other bits = Inr (map (\<lambda>j. op (bits ! j) (other ! j)) [0..<n] @ drop n bits)"
proof -
  let ?g = "\<lambda>j x. op x (other ! j)"
  have "\<exists>r. inplace_loop op n other bits = Inr r \<and> combined ?g bits n r"
    unfolding inplace_loop_def
    using assms by (intro fold_panic_upt) (auto simp: combined_def slice_access_ok nth_list_update less_Suc_eq)
  moreover have "r = map (\<lambda>j. op (bits ! j) (other ! j)) [0..<n] @ drop n bits" if "combined ?g bits n r" for r
    using that assms by (auto simp: combined_def nth_append intro!: nth_equalityI)
  ultimately show ?thesis by auto
qed

lemma inplace_paths_agree:
  assumes "n = min (length (bm_bits s)) (length (bm_bits other))"
  shows "bind_panic (inplace_avx512 op (take n (bm_bits s)) (take n (bm_bits other))) (\<lambda>r. Inr (r @ drop n (bm_bits s)))
    = inplace_loop op n (bm_bits other) (bm_bits s)"
proof -
  have "map (\<lambda>j. op (take n (bm_bits s) ! j) (take n (bm_bits other) ! j)) [0..<n] =
      map (\<lambda>j. op (bm_bits s ! j) (bm_bits other ! j)) [0..<n]"
    by simp
  then show ?thesis
    using assms by (simp add: inplace_avx512_ok inplace_loop_ok)
qed

text \<open>Bit \<open>k\<close> of a u64 read from eight bytes is bit \<open>k\<close> of the buffer.\<close>

lemma bit_read_u64_le:
  assumes "i mod 8 = 0" "i div 8 + 8 \<le> length bits" "k < 64"
  shows "bit (read_u64_le (take 8 (drop (i div 8) bits))) k \<longleftrightarrow> packed_bit bits (i + k)"
proof -
  have i: "i = 8 * (i div 8)"
    using assms(1) by auto
  have "(i + k) div 8 = i div 8 + k div 8" "(i + k) mod 8 = k mod 8"
    using i by (metis add.commute div_mult_self4 zero_neq_numeral) (metis i mod_mult_self4)
  moreover have "k div 8 < 8"
    using assms(3) by auto
  ultimately show ?thesis
    using assms(2,3) by (simp add: read_u64_le_def bit_from_le_bytes packed_bit_def)
qed

text \<open>The vector combination of a mask byte with an expanded bit.\<close>

definition mask_comb :: "(u8 \<Rightarrow> u8 \<Rightarrow> u8) \<Rightarrow> u8 list \<Rightarrow> nat \<Rightarrow> u8 \<Rightarrow> u8" where
  "mask_comb comb bits j m = comb m (if packed_bit bits j then 0xFF else 0)"

lemma mask_blocks64_ok:
  assumes "combined (mask_comb comb bits) orig i cur" "i \<le> length orig" "i mod 8 = 0" "length bits = (length orig + 7) div 8"
  shows "\<exists>i' r. mask_blocks64 comb bits (length orig) i cur = Inr (i', r) \<and>
    combined (mask_comb comb bits) orig i' r \<and> i' \<le> length orig \<and> i' mod 8 = 0"
  using assms
proof (induction "length orig - i" arbitrary: i cur rule: less_induct)
  case less
  show ?case
  proof (cases "i + 64 \<le> length orig")
    case True
    have idx: "i div 8 + 8 \<le> length bits"
      using True less.prems(4) div_le_mono [of "i + 64" "length orig + 7" 8] by simp
    let ?v = "map2 comb (take 64 (drop i cur)) (maskz_set1 64 (read_u64_le (take 8 (drop (i div 8) bits))) 0xFF)"
    have len: "length cur = length orig"
      using less.prems(1) by (rule combined_length)
    have v: "length ?v = 64" "\<And>k. k < 64 \<Longrightarrow> ?v ! k = mask_comb comb bits (i + k) (orig ! (i + k))"
      using True len combined_lane [OF less.prems(1) True] bit_read_u64_le [OF less.prems(3) idx]
      by (simp_all add: maskz_set1_def mask_comb_def del: upt_rec_numeral)
    note st = combined_store [OF less.prems(1) True v]
    show ?thesis
      using less.hyps [OF _ st(2)] True less.prems(3,4) len idx st(1)
      by (subst mask_blocks64.simps) (simp add: slice_access_ok(6) mod_add_eq [symmetric])
  next
    case False
    then show ?thesis using less.prems by (subst mask_blocks64.simps) auto
  qed
qed

lemma mask_blocks8_ok:
  assumes "combined (mask_comb comb bits) orig i cur" "i \<le> length orig" "i mod 8 = 0" "length bits = (length orig + 7) div 8"
  shows "\<exists>i' r. mask_blocks8 comb bits (length orig) i cur = Inr (i', r) \<and>
    combined (mask_comb comb bits) orig i' r \<and> i' \<le> length orig"
  using assms
proof (induction "length orig - i" arbitrary: i cur rule: less_induct)
  case less
  show ?case
  proof (cases "i + 8 \<le> length orig")
    case True
    have idx: "i div 8 < length bits"
      using True less.prems(4) by simp
    let ?v = "take 8 (map2 comb (take 8 (drop i cur) @ replicate 8 0) (maskz_set1 16 (ucast (bits ! (i div 8)) :: u16) 0xFF))"
    have len: "length cur = length orig"
      using less.prems(1) by (rule combined_length)
    have "bit (ucast (bits ! (i div 8)) :: u16) k \<longleftrightarrow> packed_bit bits (i + k)" if "k < 8" for k
      using that less.prems(3) by (simp add: bit_simps packed_bit_def div_add1_eq [of i k] mod_add_eq [of i 8 k, symmetric])
    then have v: "length ?v = 8" "\<And>k. k < 8 \<Longrightarrow> ?v ! k = mask_comb comb bits (i + k) (orig ! (i + k))"
      using True len combined_lane [OF less.prems(1) True]
      by (simp_all add: maskz_set1_def mask_comb_def nth_append del: upt_rec_numeral)
    note st = combined_store [OF less.prems(1) True v]
    show ?thesis
      using less.hyps [OF _ st(2)] True less.prems(3,4) len idx st(1)
      by (subst mask_blocks8.simps) (simp add: slice_access_ok(4,6) mod_add_eq [symmetric])
  next
    case False
    then show ?thesis using less.prems by (subst mask_blocks8.simps) auto
  qed
qed

lemma mask_tail_ok:
  assumes "combined g orig i cur" "i \<le> length orig" "length bits = (length orig + 7) div 8"
    and "\<And>j. j < length orig \<Longrightarrow> (case upd (packed_bit bits j) of None \<Rightarrow> orig ! j | Some x \<Rightarrow> x) = g j (orig ! j)"
  shows "\<exists>r. mask_tail upd bits (length orig) i cur = Inr r \<and> combined g orig (length orig) r"
  unfolding mask_tail_def
proof (rule fold_panic_upt [where I = "combined g orig", OF assms(2,1)])
  fix j s
  assume j: "i \<le> j" "j < length orig" "combined g orig j s"
  have idx: "j div 8 < length bits"
    using j(2) assms(3) by simp
  have "combined g orig (Suc j) (s[j := g j (orig ! j)])"
    using j by (auto simp: combined_def nth_list_update less_Suc_eq)
  moreover have "s[j := orig ! j] = s"
    using j by (auto simp: combined_def list_update_same_conv)
  ultimately show "\<exists>s'. bind_panic (slice_index bits (j div 8)) (\<lambda>b. case upd (drop_bit (j mod 8) b AND 1 \<noteq> 0) of
      None \<Rightarrow> Inr s | Some x \<Rightarrow> set_unchecked s j x) = Inr s' \<and> combined g orig (Suc j) s'"
    using assms(4) [OF j(2)] idx j(2) combined_length [OF j(3)]
    by (auto simp: slice_access_ok shift_and_one packed_bit_def split: option.splits)
qed

lemma bools_of_bytes_of_bool: "bools_of_bytes (map of_bool bs) = Inr bs"
  by (auto simp: bools_of_bytes_def list_all_iff o_def)

lemma into_bool_avx512_ok:
  assumes comb: "\<And>b m. comb (of_bool m) (if b then 0xFF else 0) = of_bool (h b m)"
    and upd: "\<And>b m. (case upd b of None \<Rightarrow> of_bool m | Some x \<Rightarrow> x) = of_bool (h b m)"
    and bm: "bm_ok bm" "bm_len bm = length bools"
  shows "into_bool_avx512 comb upd bm bools = Inr (map2 h (bm_rows bm) bools)"
proof -
  let ?o = "map of_bool bools :: u8 list" and ?g = "mask_comb comb (bm_bits bm)"
  have len: "length (bm_bits bm) = (length ?o + 7) div 8"
    using bm by (simp add: bm_ok_def)
  obtain i1 r1 where 1: "mask_blocks64 comb (bm_bits bm) (length ?o) 0 ?o = Inr (i1, r1)" "combined ?g ?o i1 r1" "i1 \<le> length ?o" "i1 mod 8 = 0"
    using mask_blocks64_ok [OF combined_0 _ _ len, of comb] by auto
  obtain i2 r2 where 2: "mask_blocks8 comb (bm_bits bm) (length ?o) i1 r1 = Inr (i2, r2)" "combined ?g ?o i2 r2" "i2 \<le> length ?o"
    using mask_blocks8_ok [OF 1(2-4) len] by auto
  have "(case upd (packed_bit (bm_bits bm) j) of None \<Rightarrow> ?o ! j | Some x \<Rightarrow> x) = ?g j (?o ! j)" if "j < length ?o" for j
  proof -
    have "?o ! j = of_bool (bools ! j)"
      using that by simp
    then show ?thesis
      by (simp only: upd comb mask_comb_def)
  qed
  then obtain r3 where 3: "mask_tail upd (bm_bits bm) (length ?o) i2 r2 = Inr r3" "combined ?g ?o (length ?o) r3"
    using mask_tail_ok [OF 2(2,3) len] by blast
  have "r3 = map of_bool (map2 h (bm_rows bm) bools)"
    using combined_all [OF 3(2)] bm comb by (auto simp: mask_comb_def bm_rows_def intro!: nth_equalityI)
  then show ?thesis
    using 1(1) 2(1) 3(1) by (simp add: into_bool_avx512_def Let_def bools_of_bytes_of_bool del: map_map)
qed

lemma into_bool_scalar_ok:
  assumes upd: "\<And>b m. (case upd b of None \<Rightarrow> m | Some x \<Rightarrow> x) = h b m"
    and bm: "bm_ok bm" "bm_len bm = length bools"
  shows "fold_panic (\<lambda>i out. bind_panic (slice_index (bm_bits bm) (i div 8)) (\<lambda>b.
       case upd (bit b (i mod 8)) of None \<Rightarrow> Inr out | Some x \<Rightarrow> slice_set out i x)) [0..<length bools] bools
    = Inr (map2 h (bm_rows bm) bools)"
proof -
  let ?g = "\<lambda>j. h (packed_bit (bm_bits bm) j)"
  have "\<exists>r. fold_panic (\<lambda>i out. bind_panic (slice_index (bm_bits bm) (i div 8)) (\<lambda>b.
       case upd (bit b (i mod 8)) of None \<Rightarrow> Inr out | Some x \<Rightarrow> slice_set out i x)) [0..<length bools] bools = Inr r \<and>
      combined ?g bools (length bools) r"
  proof (rule fold_panic_upt)
    fix j s
    assume j: "0 \<le> j" "j < length bools" "combined ?g bools j s"
    have idx: "j div 8 < length (bm_bits bm)"
      using j(2) bm by (simp add: bm_ok_def)
    have eq: "(case upd (packed_bit (bm_bits bm) j) of None \<Rightarrow> s | Some x \<Rightarrow> s[j := x]) = s[j := ?g j (bools ! j)]"
    proof -
      have "s[j := bools ! j] = s"
        using j(2,3) by (auto simp: combined_def list_update_same_conv)
      then show ?thesis
        using upd [where b = "packed_bit (bm_bits bm) j" and m = "bools ! j"] by (auto split: option.splits)
    qed
    have "combined ?g bools (Suc j) (s[j := ?g j (bools ! j)])"
      using j by (auto simp: combined_def nth_list_update less_Suc_eq)
    then show "\<exists>s'. bind_panic (slice_index (bm_bits bm) (j div 8)) (\<lambda>b. case upd (bit b (j mod 8)) of
        None \<Rightarrow> Inr s | Some x \<Rightarrow> slice_set s j x) = Inr s' \<and> combined ?g bools (Suc j) s'"
      using idx j(2) combined_length [OF j(3)] eq
      by (auto simp: slice_access_ok packed_bit_def split: option.splits)
  qed (simp_all add: combined_0)
  moreover have "r = map2 h (bm_rows bm) bools" if "combined ?g bools (length bools) r" for r
    using combined_all [OF that] bm by (auto simp: bm_rows_def intro!: nth_equalityI)
  ultimately show ?thesis by auto
qed

lemma and_into_bool_ok:
  assumes "bm_ok bm" "bm_len bm = length bools"
  shows "and_into_bool avx bm bools = Inr (map2 (\<and>) (bm_rows bm) bools)"
proof (cases avx)
  case True
  then show ?thesis
    using into_bool_avx512_ok [OF _ _ assms, of "(AND)" "(\<and>)" "\<lambda>set. if set then None else Some 0"]
    by (simp add: and_into_bool_def and_into_bool_avx512_def)
next
  case False
  have "(if drop_bit (i mod 8) b AND 1 = 0 then slice_set out i False else Inr out) =
      (case if bit b (i mod 8) then None else Some False of None \<Rightarrow> Inr out | Some x \<Rightarrow> slice_set out i x)"
    for b :: u8 and i and out :: "bool list"
    using shift_and_one [of "i mod 8" b] by (cases "bit b (i mod 8)") simp_all
  then show ?thesis
    using False into_bool_scalar_ok [OF _ assms, of "\<lambda>set. if set then None else Some False" "(\<and>)"]
    by (simp add: and_into_bool_def)
qed

lemma or_into_bool_ok:
  assumes "bm_ok bm" "bm_len bm = length bools"
  shows "or_into_bool avx bm bools = Inr (map2 (\<or>) (bm_rows bm) bools)"
proof (cases avx)
  case True
  have "min ((of_bool m :: u8) OR (if b then 0xFF else 0)) 1 = of_bool (b \<or> m)" for b m
    by (cases b; cases m) (simp_all add: min_def word_le_nat_alt)
  then show ?thesis
    using True into_bool_avx512_ok [OF _ _ assms, of "\<lambda>m e. min (m OR e) 1" "(\<or>)" "\<lambda>set. if set then Some 1 else None"]
    by (simp add: or_into_bool_def or_into_bool_avx512_def)
next
  case False
  have "(if drop_bit (i mod 8) b AND 1 \<noteq> 0 then slice_set out i True else Inr out) =
      (case if bit b (i mod 8) then Some True else None of None \<Rightarrow> Inr out | Some x \<Rightarrow> slice_set out i x)"
    for b :: u8 and i and out :: "bool list"
    using shift_and_one [of "i mod 8" b] by (cases "bit b (i mod 8)") simp_all
  then show ?thesis
    using False into_bool_scalar_ok [OF _ assms, of "\<lambda>set. if set then Some True else None" "(\<or>)"]
    by (simp add: or_into_bool_def)
qed

section \<open>Properties\<close>

text \<open>C12. Every integer filter (u64, signed view of u64, i32), on the AVX-512 path as on the scalar
  path, neither panics nor leaves its buffers, and returns the bitmap whose row \<open>i\<close> is the
  comparison of cell \<open>i\<close> with the constant. The vector kernels thus equal the scalar loops for every column length.\<close>

theorem integer_filters_correct:
  "filter_eq_u64 avx col val = Inr (bm_of_rows (map (\<lambda>c. c = val) col)) \<and>
   filter_ne_u64 avx col val = Inr (bm_of_rows (map (\<lambda>c. c \<noteq> val) col)) \<and>
   filter_lt_u64 avx col val = Inr (bm_of_rows (map (\<lambda>c. c < val) col)) \<and>
   filter_gt_u64 avx col val = Inr (bm_of_rows (map (\<lambda>c. c > val) col)) \<and>
   filter_le_u64 avx col val = Inr (bm_of_rows (map (\<lambda>c. c \<le> val) col)) \<and>
   filter_ge_u64 avx col val = Inr (bm_of_rows (map (\<lambda>c. c \<ge> val) col)) \<and>
   filter_lt_i64 avx col val = Inr (bm_of_rows (map (\<lambda>c. sint c < sint val) col)) \<and>
   filter_le_i64 avx col val = Inr (bm_of_rows (map (\<lambda>c. sint c \<le> sint val) col)) \<and>
   filter_gt_i64 avx col val = Inr (bm_of_rows (map (\<lambda>c. sint c > sint val) col)) \<and>
   filter_ge_i64 avx col val = Inr (bm_of_rows (map (\<lambda>c. sint c \<ge> sint val) col)) \<and>
   filter_eq_i32 avx col32 val32 = Inr (bm_of_rows (map (\<lambda>c. c = val32) col32)) \<and>
   filter_ne_i32 avx col32 val32 = Inr (bm_of_rows (map (\<lambda>c. c \<noteq> val32) col32)) \<and>
   filter_lt_i32 avx col32 val32 = Inr (bm_of_rows (map (\<lambda>c. sint c < sint val32) col32)) \<and>
   filter_le_i32 avx col32 val32 = Inr (bm_of_rows (map (\<lambda>c. sint c \<le> sint val32) col32)) \<and>
   filter_gt_i32 avx col32 val32 = Inr (bm_of_rows (map (\<lambda>c. sint c > sint val32) col32)) \<and>
   filter_ge_i32 avx col32 val32 = Inr (bm_of_rows (map (\<lambda>c. sint c \<ge> sint val32) col32))"
  by (simp add: filter_eq_u64_def filter_ne_u64_def filter_lt_u64_def filter_gt_u64_def filter_le_u64_def
      filter_ge_u64_def filter_lt_i64_def filter_le_i64_def filter_gt_i64_def filter_ge_i64_def
      filter_eq_i32_def filter_ne_i32_def filter_lt_i32_def filter_le_i32_def filter_gt_i32_def filter_ge_i32_def
      cmpgt_epi32_mask_def inner_kernels_ok not_less)

text \<open>C13. The ordered filters over doubles return the IEEE comparison of every cell on both paths, and
  the AVX-512 equality filter returns IEEE equality.\<close>

theorem f64_filters_correct:
  "filter_lt_f64 avx col val = Inr (bm_of_rows (map (\<lambda>c. f64_cmp CMP_LT_OQ c val) col)) \<and>
   filter_gt_f64 avx col val = Inr (bm_of_rows (map (\<lambda>c. f64_cmp CMP_GT_OQ c val) col)) \<and>
   filter_le_f64 avx col val = Inr (bm_of_rows (map (\<lambda>c. f64_cmp CMP_LE_OQ c val) col)) \<and>
   filter_ge_f64 avx col val = Inr (bm_of_rows (map (\<lambda>c. f64_cmp CMP_GE_OQ c val) col)) \<and>
   filter_eq_f64 True col val = Inr (bm_of_rows (map (\<lambda>c. f64_cmp CMP_EQ_OQ c val) col))"
  by (simp add: filter_lt_f64_def filter_gt_f64_def filter_le_f64_def filter_ge_f64_def filter_eq_f64_def inner_kernels_ok)

text \<open>The scalar path of the equality filter over doubles compares bit patterns: it rejects a
  negative zero that the AVX-512 path finds equal to zero, and accepts a NaN that the AVX-512 path rejects.\<close>

theorem filter_eq_f64_paths_differ:
  "filter_eq_f64 True [0x8000000000000000, 0] 0 = Inr (bm_of_rows [True, True]) \<and>
   filter_eq_f64 False [0x8000000000000000, 0] 0 = Inr (bm_of_rows [False, True]) \<and>
   filter_eq_f64 True [0x7FF8000000000000] 0x7FF8000000000000 = Inr (bm_of_rows [False]) \<and>
   filter_eq_f64 False [0x7FF8000000000000] 0x7FF8000000000000 = Inr (bm_of_rows [True])"
proof -
  have "take_bit 63 (0x8000000000000000 :: u64) = 0" "take_bit 63 (0x7FF8000000000000 :: u64) = 0x7FF8000000000000"
    by (simp_all add: take_bit_eq_mod)
  then show ?thesis
    by (simp add: filter_eq_f64_def inner_kernels_ok f64_cmp_def f64_is_nan_def f64_key_def word_less_nat_alt)
qed

text \<open>\<open>filter_eq_f64_exact\<close> returns the rows that differ from the constant.\<close>

theorem filter_eq_f64_exact_complements:
  "filter_eq_f64_exact True col val = Inr (bm_of_rows (map (\<lambda>c. \<not> f64_cmp CMP_EQ_OQ c val) col))"
  by (simp add: filter_eq_f64_exact_def filter_eq_f64_def inner_kernels_ok bm_not_ok bm_of_rows comp_def)

text \<open>Folding a bitmap into a mask of the same length is row-wise conjunction, or disjunction, on
  both paths; the vector stores leave only the bytes 0 and 1 in the mask.\<close>

theorem bool_mask_folds_correct:
  assumes "bm_ok bm" "bm_len bm = length bools"
  shows "and_into_bool avx bm bools = Inr (map2 (\<and>) (bm_rows bm) bools) \<and>
         or_into_bool avx bm bools = Inr (map2 (\<or>) (bm_rows bm) bools)"
  using and_into_bool_ok [OF assms] or_into_bool_ok [OF assms] by simp

text \<open>The in-place combinators do the same on both paths, and on bitmaps of equal length they
  are row-wise conjunction and disjunction.\<close>

lemma inplace_combinators_correct:
  assumes "bm_ok a" "bm_ok b" "bm_len a = bm_len b"
  shows "bm_and_inplace avx a b = bm_and a b \<and> bm_or_inplace avx a b = bm_or a b"
proof -
  let ?n = "length (bm_bits a)"
  have n: "length (bm_bits b) = ?n"
    using assms by (simp add: bm_ok_def)
  have avx: "bm_and_inplace avx a b = bm_and_inplace False a b" "bm_or_inplace avx a b = bm_or_inplace False a b"
    using inplace_paths_agree [of ?n a b] n
    by (cases avx; simp add: bm_and_inplace_def bm_or_inplace_def and_inplace_avx512_def or_inplace_avx512_def
        inplace_avx512_ok inplace_loop_ok)+
  have eq: "byte_loop op ?n (bm_bits a) (bm_bits b) (replicate ?n 0) = inplace_loop op ?n (bm_bits b) (bm_bits a)" for op
    using byte_loop_ok [of ?n "bm_bits a" "bm_bits b" "replicate ?n 0" op] n
    by (auto simp: inplace_loop_ok intro!: nth_equalityI)
  have upd: "a\<lparr>bm_bits := r\<rparr> = \<lparr>bm_bits = r, bm_len = bm_len b\<rparr>" for r
    using assms(3) by (cases a) simp
  have "(bm_len b + 7) div 8 = ?n"
    using assms(2) n by (simp add: bm_ok_def)
  then show ?thesis
    unfolding avx using assms(3) n eq
    by (simp add: bm_and_inplace_def bm_or_inplace_def bm_and_def bm_or_def bm_new_def upd)
qed

text \<open>The iterator over set bits returns exactly the rows that are set, in ascending order.\<close>

lemma iter_set_bits_ascending:
  assumes "bm_ok bm"
  shows "bm_iter_set_bits bm = Inr (filter (\<lambda>i. bm_rows bm ! i) [0..<bm_len bm])"
proof -
  have "filter (packed_bit (bm_bits bm)) [0..<bm_len bm] = filter (\<lambda>i. bm_rows bm ! i) [0..<bm_len bm]"
    by (auto simp: nth_bm_rows intro: filter_cong)
  then show ?thesis
    using assms by (simp add: bm_iter_set_bits_def collect_set_bits_ok bm_ok_def)
qed

text \<open>The remaining readers: a batch of rows, and a copy into a caller's slice, which leaves what lies
  beyond the bitmap's rows as it was. The disjunction is row-wise on bitmaps of one length.\<close>

lemma bm_get_batch_ok:
  "bm_ok bm \<Longrightarrow> list_all (\<lambda>j. j < bm_len bm) js \<Longrightarrow> bm_get_batch bm js = Inr (map ((!) (bm_rows bm)) js)"
  unfolding bm_get_batch_def by (rule map_panic_total) (simp add: bm_get_ok list_all_iff)

lemma bm_to_bool_slice_ok:
  assumes "bm_ok bm" "bm_len bm \<le> length out"
  shows "bm_to_bool_slice bm out = Inr (bm_rows bm @ drop (bm_len bm) out)"
proof -
  have "n \<le> bm_len bm \<Longrightarrow> fold_panic (\<lambda>i out. bind_panic (bm_get bm i) (slice_set out i)) [0..<n] out
      = Inr (take n (bm_rows bm) @ drop n out)" for n
  proof (induction n)
    case (Suc n)
    then show ?case
      using assms
      by (simp add: fold_panic_append bm_get_ok slice_set_def list_update_append take_Suc_conv_app_nth
          upd_conv_take_nth_drop Suc_diff_le flip: Cons_nth_drop_Suc)
  qed simp
  from this [of "bm_len bm"] show ?thesis
    by (simp add: bm_to_bool_slice_def)
qed

lemma bm_or_same_length:
  assumes "bm_ok a" "bm_ok b" "bm_len a = bm_len b"
  shows "bm_or a b = Inr (bm_of_rows (map2 (\<or>) (bm_rows a) (bm_rows b)))"
proof -
  have n: "length (bm_bits b) = length (bm_bits a)" "bm_len b \<le> 8 * length (bm_bits a)"
    using assms by (auto simp: bm_ok_def)
  have "map (\<lambda>i. i < 8 * length (bm_bits a) \<and> (packed_bit (bm_bits a) i \<or> packed_bit (bm_bits b) i)) [0..<bm_len b]
      = map2 (\<or>) (bm_rows a) (bm_rows b)"
    using assms(3) n(2) by (auto simp: nth_bm_rows intro!: nth_equalityI)
  then show ?thesis
    using bm_or_ok [OF assms(1,2) refl] assms(3) n(1) by simp
qed

text \<open>\<open>count_ones_range\<close> counts the set rows of \<open>[start, end)\<close>, except that a range which begins
  on a byte boundary and ends within that byte counts as empty: the partial tail is skipped because it
  starts at the head's end, and the head is skipped because it is aligned.\<close>

lemma count_ones_range_characterised:
  assumes "bm_ok bm" "start < end0" "start < bm_len bm"
  shows "bm_count_ones_range bm start end0 =
    Inr (if start mod 8 = 0 \<and> min end0 (bm_len bm) < start + 8 then 0
         else length (filter (\<lambda>i. bm_rows bm ! i) [start..<min end0 (bm_len bm)]))"
proof -
  have "filter (packed_bit (bm_bits bm)) [start..<min end0 (bm_len bm)] = filter (\<lambda>i. bm_rows bm ! i) [start..<min end0 (bm_len bm)]"
    by (auto simp: nth_bm_rows intro: filter_cong)
  then show ?thesis
    using bm_count_ones_range_ok [OF assms refl] by (simp add: rows_set_def)
qed

text \<open>C14. A well-formed bitmap is the list of its rows. Packing and unpacking are inverse, also into a
  caller's slice, whose rest is kept; get, a batch of gets, set and clear read and write rows below the
  length; the enumeration lists the set rows in ascending order; conjunction (of the common rows) and
  complement are row-wise, as are, on bitmaps of one length, disjunction and the two in-place operations,
  with AVX-512 or without; the population count counts the set rows; and the count of a non-empty range
  counts the set rows of it, except that an aligned range ending within its first byte counts as 0.\<close>

theorem bitmap_refines_bool_list:
  assumes "bm_ok a" "bm_ok b" "i < bm_len a" "list_all (\<lambda>j. j < bm_len a) js" "bm_len a \<le> length out" "i < j"
  shows "bm_ok (bm_of_rows bools) \<and> bm_rows (bm_of_rows bools) = bools \<and>
    bm_to_bool_vec a = Inr (bm_rows a) \<and> bm_from_bool_slice (bm_rows a) = Inr a \<and>
    bm_to_bool_slice a out = Inr (bm_rows a @ drop (bm_len a) out) \<and>
    bm_new n = bm_of_rows (replicate n False) \<and> bm_all_ones n = bm_of_rows (replicate n True) \<and>
    bm_set a i = Inr (bm_of_rows ((bm_rows a)[i := True])) \<and>
    bm_clear a i = Inr (bm_of_rows ((bm_rows a)[i := False])) \<and>
    bm_get a i = Inr (bm_rows a ! i) \<and> bm_get_batch a js = Inr (map ((!) (bm_rows a)) js) \<and>
    bm_iter_set_bits a = Inr (filter ((!) (bm_rows a)) [0..<bm_len a]) \<and>
    bm_and a b = Inr (bm_of_rows (map2 (\<and>) (bm_rows a) (bm_rows b))) \<and>
    bm_not a = Inr (bm_of_rows (map Not (bm_rows a))) \<and>
    (bm_len a = bm_len b \<longrightarrow>
       bm_or a b = Inr (bm_of_rows (map2 (\<or>) (bm_rows a) (bm_rows b))) \<and>
       bm_and_inplace avx a b = Inr (bm_of_rows (map2 (\<and>) (bm_rows a) (bm_rows b))) \<and>
       bm_or_inplace avx a b = Inr (bm_of_rows (map2 (\<or>) (bm_rows a) (bm_rows b)))) \<and>
    bm_count_ones a = length (filter (\<lambda>b. b) (bm_rows a)) \<and>
    bm_count_ones_range a i j =
      Inr (if i mod 8 = 0 \<and> min j (bm_len a) < i + 8 then 0
           else length (filter ((!) (bm_rows a)) [i..<min j (bm_len a)]))"
proof -
  have "bm_to_bool_vec a = Inr (map (\<lambda>i. bm_rows a ! i) [0..<bm_len a])"
    unfolding bm_to_bool_vec_def by (rule map_panic_total) (simp add: bm_get_ok [OF assms(1)])
  then have vec: "bm_to_bool_vec a = Inr (bm_rows a)"
    using map_nth [of "bm_rows a"] by simp
  have pack: "bm_from_bool_slice (bm_rows a) = Inr a"
    using bm_from_bool_slice_ok [of "bm_rows a"] bm_eqI [OF _ assms(1)] by auto
  have new: "bm_new n = bm_of_rows (replicate n False)"
    by (rule bm_of_rows_unique) (simp_all add: bm_new_ok)
  have set: "bm_set a i = Inr (bm_of_rows ((bm_rows a)[i := True]))"
    "bm_clear a i = Inr (bm_of_rows ((bm_rows a)[i := False]))"
    using bm_set_ok [OF assms(1,3)] bm_clear_ok [OF assms(1,3)] bm_of_rows_unique by auto
  show ?thesis
    using assms vec pack new set
    by (simp add: bm_of_rows bm_to_bool_slice_ok bm_all_ones_ok bm_get_ok bm_get_batch_ok iter_set_bits_ascending bm_and_ok
        bm_not_ok bm_or_same_length inplace_combinators_correct bm_count_ones_ok count_ones_range_characterised)
qed

text \<open>The disjunction of bitmaps of different length has the longer length but only the rows of the
  shorter operand's bytes: a set row of the longer operand beyond them is lost.\<close>

theorem or_drops_rows:
  assumes "bm_ok a" "bm_ok b" "8 * length (bm_bits a) \<le> i" "i < bm_len b"
  shows "\<exists>r. bm_or a b = Inr r \<and> bm_len r = bm_len b \<and> \<not> bm_rows r ! i"
proof -
  have "bm_len a \<le> 8 * length (bm_bits a)"
    using assms(1) by (auto simp: bm_ok_def)
  then have "max (bm_len a) (bm_len b) = bm_len b"
    using assms(3,4) by simp
  moreover have "\<not> i < 8 * min (length (bm_bits a)) (length (bm_bits b))"
    using assms(3) by linarith
  ultimately show ?thesis
    using bm_or_ok [OF assms(1,2) refl] assms(4) by (simp add: bm_of_rows)
qed

section \<open>Instances\<close>

theorem bool_mask_folds_correct_witness:
  "and_into_bool True (bm_of_rows [True, False, True]) [True, True, False] = Inr [True, False, False] \<and>
   or_into_bool True (bm_of_rows [True, False, True]) [True, True, False] = Inr [True, True, True]"
  using bool_mask_folds_correct [of "bm_of_rows [True, False, True]" "[True, True, False]" True]
  by (simp add: bm_of_rows)

text \<open>Ten rows, of which the first five are set, against ten set rows: the range of the five counts as
  empty, the range of all ten is counted.\<close>

theorem bitmap_refines_bool_list_witness:
  "bm_and_inplace True (bm_of_rows [True, False]) (bm_of_rows [True, True]) = Inr (bm_of_rows [True, False]) \<and>
   bm_iter_set_bits (bm_of_rows [True, True, True, True, True, False, False, False, False, False]) = Inr [0, 1, 2, 3, 4] \<and>
   bm_count_ones_range (bm_of_rows [True, True, True, True, True, False, False, False, False, False]) 0 5 = Inr 0 \<and>
   bm_count_ones_range (bm_of_rows [True, True, True, True, True, False, False, False, False, False]) 0 10 = Inr 5"
proof (intro conjI)
  show "bm_and_inplace True (bm_of_rows [True, False]) (bm_of_rows [True, True]) = Inr (bm_of_rows [True, False])"
    using bitmap_refines_bool_list [of "bm_of_rows [True, False]" "bm_of_rows [True, True]" 0 "[1]" "[True, True, True]" 2]
    by (simp add: bm_of_rows)
  let ?a = "bm_of_rows [True, True, True, True, True, False, False, False, False, False]"
  note law = bitmap_refines_bool_list [of ?a ?a 0 "[]" "replicate 10 True"]
  show "bm_iter_set_bits ?a = Inr [0, 1, 2, 3, 4]" "bm_count_ones_range ?a 0 10 = Inr 5"
    using law [of 10] by (simp_all add: bm_of_rows upt_conv_Cons)
  show "bm_count_ones_range ?a 0 5 = Inr 0"
    using law [of 5] by (simp add: bm_of_rows)
qed

theorem or_drops_rows_witness:
  "\<exists>r. bm_or (bm_of_rows [True]) (bm_of_rows (replicate 9 True)) = Inr r \<and>
     bm_len r = bm_len (bm_of_rows (replicate 9 True)) \<and> \<not> bm_rows r ! 8"
proof (rule or_drops_rows)
  show "8 * length (bm_bits (bm_of_rows [True])) \<le> 8"
    using bm_of_rows(1,3) [of "[True]"] by (simp add: bm_ok_def)
qed (simp_all add: bm_of_rows)

end
