(* ===== verification/Leapfrog.thy ===== *)
theory Leapfrog
  imports Prelude
begin

text \<open>
  The leapfrog join of \<open>src/kernel/leapfrog.rs\<close>: the multiway intersection of sorted key streams.
  The join calls its inputs through the trait \<open>SortedIterator\<close>; here its three methods are arguments
  of the join, and the contract of the trait is the locale \<open>sorted_iterator\<close>, in which the join is
  proved to return the intersection and to terminate. \<open>SliceSortedIterator\<close> is an interpretation.
\<close>

section \<open>The join\<close>

text \<open>\<open>while let Some(k) = it.current_key()\<close>: all keys of a single input.\<close>

partial_function (option) lf_drain ::
  "('it \<Rightarrow> u64 option) \<Rightarrow> ('it \<Rightarrow> 'it \<times> u64 option) \<Rightarrow> 'it \<Rightarrow> u64 list \<Rightarrow> ('it \<times> u64 list) option" where
  "lf_drain current nxt it out =
     (case current it of
        None \<Rightarrow> Some (it, out)
      | Some k \<Rightarrow> lf_drain current nxt (fst (nxt it)) (out @ [k]))"

text \<open>Position every input at its first key; \<open>None\<close> when one of them is empty.\<close>

fun lf_init :: "('it \<Rightarrow> u64 option) \<Rightarrow> ('it \<Rightarrow> u64 \<Rightarrow> 'it \<times> u64 option) \<Rightarrow> 'it list \<Rightarrow> 'it list \<times> bool" where
  "lf_init current seek [] = ([], True)"
| "lf_init current seek (it # its) =
     (let it' = (if current it = None then fst (seek it 0) else it)
      in if current it' = None then (it' # its, False)
         else let (its', ok) = lf_init current seek its in (it' # its', ok))"

text \<open>Step 1: the largest current key, \<open>None\<close> when an input is exhausted.\<close>

fun lf_max :: "('it \<Rightarrow> u64 option) \<Rightarrow> 'it list \<Rightarrow> u64 \<Rightarrow> u64 option" where
  "lf_max current [] max_key = Some max_key"
| "lf_max current (it # its) max_key =
     (case current it of
        None \<Rightarrow> None
      | Some k \<Rightarrow> lf_max current its (if k > max_key then k else max_key))"

text \<open>Step 2: seek every input to the largest key; \<open>None\<close> when an input is exhausted.\<close>

fun lf_seek_all ::
  "('it \<Rightarrow> u64 option) \<Rightarrow> ('it \<Rightarrow> u64 \<Rightarrow> 'it \<times> u64 option) \<Rightarrow> 'it list \<Rightarrow> u64 \<Rightarrow> bool \<Rightarrow> 'it list \<times> (u64 \<times> bool) option" where
  "lf_seek_all current seek [] max_key all_match = ([], Some (max_key, all_match))"
| "lf_seek_all current seek (it # its) max_key all_match =
     (case current it of
        Some k \<Rightarrow>
          (if k = max_key
           then (let (its', r) = lf_seek_all current seek its max_key all_match in (it # its', r))
           else if k > max_key
           then (let (its', r) = lf_seek_all current seek its max_key False in (it # its', r))
           else (case seek it max_key of
                   (it', None) \<Rightarrow> (it' # its, None)
                 | (it', Some k') \<Rightarrow>
                     (if k' = max_key
                      then (let (its', r) = lf_seek_all current seek its max_key all_match in (it' # its', r))
                      else (let (its', r) = lf_seek_all current seek its (if k' > max_key then k' else max_key) False
                            in (it' # its', r)))))
      | None \<Rightarrow> (case seek it max_key of
                   (it', None) \<Rightarrow> (it' # its, None)
                 | (it', Some k') \<Rightarrow>
                     (if k' = max_key
                      then (let (its', r) = lf_seek_all current seek its max_key all_match in (it' # its', r))
                      else (let (its', r) = lf_seek_all current seek its (if k' > max_key then k' else max_key) False
                            in (it' # its', r)))))"

partial_function (option) lf_loop ::
  "('it \<Rightarrow> u64 option) \<Rightarrow> ('it \<Rightarrow> u64 \<Rightarrow> 'it \<times> u64 option) \<Rightarrow> ('it \<Rightarrow> 'it \<times> u64 option) \<Rightarrow> 'it list \<Rightarrow> u64 list
     \<Rightarrow> ('it list \<times> u64 list) option" where
  "lf_loop current seek nxt its out =
     (case lf_max current its 0 of
        None \<Rightarrow> Some (its, out)
      | Some max_key \<Rightarrow>
          (case snd (lf_seek_all current seek its max_key True) of
             None \<Rightarrow> Some (fst (lf_seek_all current seek its max_key True), out)
           | Some r \<Rightarrow>
               (let its' = fst (lf_seek_all current seek its max_key True)
                in if snd r
                   then (let first = nxt (hd its')
                         in if snd first = None then Some (fst first # tl its', out @ [fst r])
                            else lf_loop current seek nxt (fst first # tl its') (out @ [fst r]))
                   else lf_loop current seek nxt its' out)))"

definition lf_run ::
  "('it \<Rightarrow> u64 option) \<Rightarrow> ('it \<Rightarrow> u64 \<Rightarrow> 'it \<times> u64 option) \<Rightarrow> ('it \<Rightarrow> 'it \<times> u64 option) \<Rightarrow> 'it list
     \<Rightarrow> ('it list \<times> u64 list) option" where
  "lf_run current seek nxt its =
     (case its of
        [] \<Rightarrow> Some ([], [])
      | [it] \<Rightarrow>
          (let it' = (if current it = None then fst (seek it 0) else it)
           in map_option (\<lambda>(it, out). ([it], out)) (lf_drain current nxt it' []))
      | _ \<Rightarrow>
          (case lf_init current seek its of
             (its', False) \<Rightarrow> Some (its', [])
           | (its', True) \<Rightarrow> lf_loop current seek nxt its' []))"

section \<open>Slices as inputs\<close>

record slice_iter =
  si_keys :: "u64 list"
  si_pos :: nat

definition si_new :: "u64 list \<Rightarrow> slice_iter" where
  "si_new keys = \<lparr>si_keys = keys, si_pos = 0\<rparr>"

definition si_at_start :: "u64 list \<Rightarrow> slice_iter" where
  "si_at_start keys = \<lparr>si_keys = keys, si_pos = 0\<rparr>"

definition si_current_key :: "slice_iter \<Rightarrow> u64 option" where
  "si_current_key it = slice_get (si_keys it) (si_pos it)"

text \<open>\<open>partition_point\<close> on a sorted slice: the number of leading elements that satisfy the predicate.\<close>

definition partition_point :: "('a \<Rightarrow> bool) \<Rightarrow> 'a list \<Rightarrow> nat" where
  "partition_point p xs = length (takeWhile p xs)"

definition si_seek :: "slice_iter \<Rightarrow> u64 \<Rightarrow> slice_iter \<times> u64 option" where
  "si_seek it key =
     (if length (si_keys it) \<le> si_pos it then (it, None)
      else if si_keys it ! si_pos it \<ge> key then (it, Some (si_keys it ! si_pos it))
      else let off = partition_point (\<lambda>k. k < key) (drop (si_pos it) (si_keys it));
               it' = it\<lparr>si_pos := si_pos it + off\<rparr>
           in (it', si_current_key it'))"

definition si_next :: "slice_iter \<Rightarrow> slice_iter \<times> u64 option" where
  "si_next it =
     (let it' = (if si_pos it < length (si_keys it) then it\<lparr>si_pos := si_pos it + 1\<rparr> else it)
      in (it', si_current_key it'))"

text \<open>The kernel wrapper: two slices behind each other in one buffer, the number of matches as result.
  The buffer must hold the two lengths; reading beyond it is undefined behaviour.\<close>

definition leapfrog_scalar_execute :: "u64 list \<Rightarrow> nat \<Rightarrow> u64 \<Rightarrow> (panic + nat) option" where
  "leapfrog_scalar_execute input cell_count target_u64 =
     (let n1 = cell_count; n2 = unat target_u64; total = n1 + n2
      in if total = 0 then Some (Inr 0)
         else if length input < total then Some (Inl Undefined_Behaviour)
         else let cells = take total input; left = take n1 cells; right = drop n1 cells
              in map_option (\<lambda>(its, matches). Inr (length matches))
                   (lf_run si_current_key si_seek si_next [si_at_start left, si_at_start right]))"

section \<open>The contract of a sorted input\<close>

text \<open>The keys all inputs have in common, and how many keys they have left.\<close>

definition common :: "('it \<Rightarrow> u64 list) \<Rightarrow> 'it list \<Rightarrow> u64 set" where
  "common remaining its = (\<Inter>it \<in> set its. set (remaining it))"

definition left_over :: "('it \<Rightarrow> u64 list) \<Rightarrow> 'it list \<Rightarrow> nat" where
  "left_over remaining its = sum_list (map (\<lambda>it. length (remaining it)) its)"

lemma dropWhile_least:
  fixes x :: u64
  assumes "sorted_wrt (<) xs" "x \<in> set (dropWhile (\<lambda>x. x < k) xs)"
  shows "k \<le> x"
proof -
  have "sorted_wrt (<) (dropWhile (\<lambda>x. x < k) xs)"
    using assms(1) by (metis sorted_wrt_append takeWhile_dropWhile_id)
  then show ?thesis
    using assms(2) hd_dropWhile [of "\<lambda>x. x < k" xs]
    by (cases "dropWhile (\<lambda>x. x < k) xs") (auto simp: not_less intro: less_imp_le order_trans)
qed

locale sorted_iterator =
  fixes current :: "'it \<Rightarrow> u64 option"
    and seek :: "'it \<Rightarrow> u64 \<Rightarrow> 'it \<times> u64 option"
    and nxt :: "'it \<Rightarrow> 'it \<times> u64 option"
    and remaining :: "'it \<Rightarrow> u64 list"
    and ok :: "'it \<Rightarrow> bool"
  assumes increasing: "ok it \<Longrightarrow> sorted_wrt (<) (remaining it)"
    and current: "ok it \<Longrightarrow> current it = (case remaining it of [] \<Rightarrow> None | k # _ \<Rightarrow> Some k)"
    and seek: "ok it \<Longrightarrow> ok (fst (seek it k))" "ok it \<Longrightarrow> snd (seek it k) = current (fst (seek it k))"
      "ok it \<Longrightarrow> remaining (fst (seek it k)) = dropWhile (\<lambda>x. x < k) (remaining it)"
    and nxt: "ok it \<Longrightarrow> ok (fst (nxt it))" "ok it \<Longrightarrow> snd (nxt it) = current (fst (nxt it))"
      "ok it \<Longrightarrow> remaining (fst (nxt it)) = tl (remaining it)"
begin

lemma current_None: "ok it \<Longrightarrow> current it = None \<longleftrightarrow> remaining it = []"
  by (simp add: current split: list.split)

lemma current_Some: "ok it \<Longrightarrow> current it = Some k \<longleftrightarrow> remaining it \<noteq> [] \<and> hd (remaining it) = k"
  by (auto simp: current split: list.split)

lemma least_first: "ok it \<Longrightarrow> x \<in> set (remaining it) \<Longrightarrow> hd (remaining it) \<le> x"
  using increasing [of it] by (cases "remaining it") (auto intro: less_imp_le)

lemma seek_keeps: "ok it \<Longrightarrow> x \<in> set (remaining it) \<Longrightarrow> k \<le> x \<Longrightarrow> x \<in> set (remaining (fst (seek it k)))"
  by (simp add: seek) (metis (no_types, lifting) Un_iff linorder_not_less set_append set_takeWhileD takeWhile_dropWhile_id)

lemma seek_subset: "ok it \<Longrightarrow> set (remaining (fst (seek it k))) \<subseteq> set (remaining it)"
  by (auto simp: seek dest: set_dropWhileD)

lemma seek_shorter:
  assumes "ok it" "current it = Some c" "c < k"
  shows "length (remaining (fst (seek it k))) < length (remaining it)"
proof -
  obtain xs where "remaining it = c # xs"
    using assms by (cases "remaining it") (auto simp: current_Some)
  then show ?thesis
    using assms by (simp add: seek le_imp_less_Suc length_dropWhile_le)
qed

lemma lf_max_None: "(\<And>it. it \<in> set its \<Longrightarrow> ok it) \<Longrightarrow> lf_max current its m = None \<Longrightarrow> \<exists>it \<in> set its. remaining it = []"
proof (induction its arbitrary: m)
  case (Cons it its)
  show ?case
  proof (cases "current it")
    case None
    then show ?thesis using Cons.prems(1) by (auto simp: current_None)
  next
    case (Some k)
    then show ?thesis using Cons.IH Cons.prems by auto
  qed
qed simp

lemma lf_max_Some:
  assumes "\<forall>it \<in> set its. ok it" "lf_max current its m = Some r"
  shows "m \<le> r \<and> (\<forall>it \<in> set its. remaining it \<noteq> [] \<and> hd (remaining it) \<le> r) \<and>
    (r = m \<or> (\<exists>it \<in> set its. hd (remaining it) = r))"
  using assms
proof (induction its arbitrary: m)
  case (Cons it its)
  then obtain k where k: "current it = Some k"
    by (auto split: option.splits)
  then have "remaining it \<noteq> []" "hd (remaining it) = k"
    using Cons.prems(1) by (auto simp: current_Some)
  then show ?case
    using Cons.IH [of "if k > m then k else m"] Cons.prems k by (auto split: if_splits)
qed simp

text \<open>The seek step: \<open>J\<close> stands for the common keys, all of them at least \<open>m\<close>.\<close>

lemma lf_seek_all_ok:
  assumes "\<forall>it \<in> set its. ok it \<and> J \<subseteq> set (remaining it) \<and> (remaining it \<noteq> [] \<longrightarrow> hd (remaining it) \<le> m)"
    and "\<forall>x \<in> J. m \<le> x" "lf_seek_all current seek its m am = (its', r)"
  shows "list_all2 (\<lambda>a b. ok b \<and> J \<subseteq> set (remaining b) \<and> set (remaining b) \<subseteq> set (remaining a)) its its' \<and>
    left_over remaining its' \<le> left_over remaining its \<and>
    (r = None \<longrightarrow> J = {}) \<and>
    (\<forall>m'. r = Some (m', True) \<longrightarrow> am \<and> m' = m \<and> (\<forall>it \<in> set its'. remaining it \<noteq> [] \<and> hd (remaining it) = m)) \<and>
    (\<forall>m'. r = Some (m', False) \<longrightarrow> am \<longrightarrow> left_over remaining its' < left_over remaining its)"
  using assms
proof (induction its arbitrary: m am its' r)
  case Nil
  then show ?case by auto
next
  case (Cons it its)
  have it: "ok it" "J \<subseteq> set (remaining it)" "remaining it \<noteq> [] \<Longrightarrow> hd (remaining it) \<le> m"
    and its: "\<forall>it \<in> set its. ok it \<and> J \<subseteq> set (remaining it) \<and> (remaining it \<noteq> [] \<longrightarrow> hd (remaining it) \<le> m)"
    using Cons.prems(1) by auto
  show ?case
  proof (cases "current it = Some m")
    case True
    then obtain its1 where rec: "lf_seek_all current seek its m am = (its1, r)" "its' = it # its1"
      using Cons.prems(3) by (auto split: prod.splits)
    show ?thesis
      using Cons.IH [OF its Cons.prems(2) rec(1)] rec(2) True it
      by (simp add: left_over_def current_Some)
  next
    case False
    define it' where "it' = fst (seek it m)"
    have it': "ok it'" "J \<subseteq> set (remaining it')" "set (remaining it') \<subseteq> set (remaining it)"
      using it Cons.prems(2) seek(1) seek_keeps seek_subset by (auto simp: it'_def)
    have below: "current it \<noteq> None \<Longrightarrow> length (remaining it') < length (remaining it)"
      using False it seek_shorter [OF it(1)] by (auto simp: it'_def current_Some order_neq_le_trans)
    have shorter: "length (remaining it') \<le> length (remaining it)"
      by (simp add: it'_def seek it length_dropWhile_le)
    have step: "lf_seek_all current seek (it # its) m am =
      (case current it' of None \<Rightarrow> (it' # its, None)
       | Some k' \<Rightarrow> (let (its', r) = lf_seek_all current seek its (if k' = m then m else if k' > m then k' else m) (am \<and> k' = m)
                       in (it' # its', r)))"
    proof -
      have "seek it m = (it', current it')"
        using seek(2) [OF it(1)] by (simp add: it'_def prod_eq_iff)
      moreover have "\<not> k > m" "k \<noteq> m" if "current it = Some k" for k
        using that False it(1,3) by (auto simp: current_Some)
      ultimately show ?thesis
        by (auto split: option.splits prod.splits)
    qed
    show ?thesis
    proof (cases "current it'")
      case None
      then have "its' = it' # its" "r = None"
        using Cons.prems(3) [unfolded step] by simp_all
      moreover have "J = {}"
        using None it'(1,2) by (simp add: current_None)
      ultimately show ?thesis
        using it' its shorter by (auto simp: left_over_def list_all2_same)
    next
      case (Some k')
      define m1 where "m1 = (if k' = m then m else if k' > m then k' else m)"
      obtain its1 where rec: "lf_seek_all current seek its m1 (am \<and> k' = m) = (its1, r)" "its' = it' # its1"
        using Cons.prems(3) [unfolded step] Some by (simp add: m1_def split: prod.splits)
      have hd: "remaining it' \<noteq> []" "hd (remaining it') = k'"
        using Some it'(1) by (simp_all add: current_Some)
      have "k' \<in> set (remaining it')"
        using hd_in_set [OF hd(1)] hd(2) by simp
      then have "m \<le> k'"
        unfolding it'_def seek(3) [OF it(1)] by (rule dropWhile_least [OF increasing [OF it(1)]])
      then have m1: "m1 = k'" "m \<le> m1"
        by (auto simp: m1_def)
      have J1: "\<forall>x \<in> J. m1 \<le> x"
        using it'(1,2) hd(2) m1(1) least_first by blast
      have its1: "\<forall>it \<in> set its. ok it \<and> J \<subseteq> set (remaining it) \<and> (remaining it \<noteq> [] \<longrightarrow> hd (remaining it) \<le> m1)"
        using its m1(2) order_trans by blast
      note ih = Cons.IH [OF its1 J1 rec(1)]
      have "remaining it \<noteq> []"
        using hd(1) it'(3) by auto
      then have strict: "length (remaining it') < length (remaining it)"
        using below current_None [OF it(1)] by simp
      show ?thesis
      proof (intro conjI)
        show "\<forall>m'. r = Some (m', True) \<longrightarrow> am \<and> m' = m \<and> (\<forall>it \<in> set its'. remaining it \<noteq> [] \<and> hd (remaining it) = m)"
          using conjunct1 [OF conjunct2 [OF conjunct2 [OF conjunct2 [OF ih]]]] rec(2) hd m1(1) by auto
        show "\<forall>m'. r = Some (m', False) \<longrightarrow> am \<longrightarrow> left_over remaining its' < left_over remaining (it # its)"
          using conjunct1 [OF conjunct2 [OF ih]] rec(2) strict by (simp add: left_over_def)
      qed (use ih rec(2) it' strict in \<open>simp_all add: left_over_def\<close>)
    qed
  qed
qed

lemma common_bounds:
  assumes "list_all2 (\<lambda>a b. ok b \<and> common remaining its \<subseteq> set (remaining b) \<and> set (remaining b) \<subseteq> set (remaining a)) its its'"
  shows "common remaining its' = common remaining its" "\<forall>it \<in> set its'. ok it" "length its' = length its"
proof -
  show "length its' = length its"
    using assms list_all2_lengthD by fastforce
  show "\<forall>it \<in> set its'. ok it"
    using list_all2_sets [OF assms] by blast
  show "common remaining its' = common remaining its"
  proof
    show "common remaining its \<subseteq> common remaining its'"
      using list_all2_sets [OF assms] unfolding common_def [of _ its'] by blast
    show "common remaining its' \<subseteq> common remaining its"
      using list_all2_sets [OF assms] unfolding common_def by blast
  qed
qed

lemma finite_common: "its \<noteq> [] \<Longrightarrow> finite (common remaining its)"
  by (cases its) (auto simp: common_def)

text \<open>Emitting a common first key and advancing one input removes exactly that key.\<close>

lemma common_advance:
  assumes "\<forall>it \<in> set (it # its). ok it \<and> remaining it \<noteq> [] \<and> hd (remaining it) = m"
  shows "common remaining (fst (nxt it) # its) = common remaining (it # its) - {m}"
    and "m \<in> common remaining (it # its)" "\<forall>x \<in> common remaining (it # its). m \<le> x"
proof -
  obtain xs where xs: "remaining it = m # xs"
    using assms by (cases "remaining it") auto
  then have "m \<notin> set xs"
    using increasing [of it] assms by auto
  then show "common remaining (fst (nxt it) # its) = common remaining (it # its) - {m}"
    using assms xs by (auto simp: common_def nxt)
  show "m \<in> common remaining (it # its)"
    using assms by (auto simp: common_def intro: hd_in_set) (metis hd_in_set)
  show "\<forall>x \<in> common remaining (it # its). m \<le> x"
    using assms least_first [of it] by (auto simp: common_def)
qed

lemma lf_loop_ok:
  assumes "its \<noteq> []" "\<forall>it \<in> set its. ok it"
  shows "\<exists>its'. lf_loop current seek nxt its out = Some (its', out @ sorted_list_of_set (common remaining its))"
  using assms
proof (induction "left_over remaining its" arbitrary: its out rule: less_induct)
  case less
  let ?J = "common remaining its"
  show ?case
  proof (cases "lf_max current its 0")
    case None
    then have "?J = {}"
      using lf_max_None [of its 0] less.prems(2) by (auto simp: common_def)
    then show ?thesis
      using None by (subst lf_loop.simps) simp
  next
    case (Some m)
    note max = lf_max_Some [OF less.prems(2) Some]
    have lower: "\<forall>x \<in> ?J. m \<le> x"
    proof (cases "m = 0")
      case False
      then obtain it where "it \<in> set its" "hd (remaining it) = m"
        using max by auto
      then show ?thesis
        using least_first less.prems(2) by (auto simp: common_def)
    qed simp
    obtain its' r where sa: "lf_seek_all current seek its m True = (its', r)"
      by fastforce
    have pre: "\<forall>it \<in> set its. ok it \<and> ?J \<subseteq> set (remaining it) \<and> (remaining it \<noteq> [] \<longrightarrow> hd (remaining it) \<le> m)"
      using less.prems(2) max by (auto simp: common_def)
    note seek_ok = lf_seek_all_ok [OF pre lower sa]
    note its' = common_bounds [OF conjunct1 [OF seek_ok]]
    show ?thesis
    proof (cases r)
      case None
      then have "?J = {}"
        using seek_ok by simp
      then show ?thesis
        using None Some sa by (subst lf_loop.simps) simp
    next
      case r: (Some mr)
      obtain m' am where mr: "mr = (m', am)"
        by fastforce
      show ?thesis
      proof (cases am)
        case False
        then have "left_over remaining its' < left_over remaining its"
          using seek_ok r mr by simp
        moreover have "its' \<noteq> []"
          using its'(3) less.prems(1) by auto
        ultimately show ?thesis
          using less.hyps [of its' out] its'(1,2) Some sa r mr False by (subst lf_loop.simps) simp
      next
        case True
        then have m': "m' = m" and heads: "\<forall>it \<in> set its'. remaining it \<noteq> [] \<and> hd (remaining it) = m"
          using seek_ok r mr by auto
        obtain it rest where split: "its' = it # rest"
          using its'(3) less.prems(1) by (cases its') auto
        have oks: "\<forall>it \<in> set (it # rest). ok it \<and> remaining it \<noteq> [] \<and> hd (remaining it) = m"
          using its'(2) heads split by simp
        note adv = common_advance [OF oks, folded split, unfolded its'(1)]
        have J: "sorted_list_of_set ?J = m # sorted_list_of_set (?J - {m})"
        proof -
          have "Min ?J = m"
            using adv(2,3) finite_common [OF less.prems(1)] by (intro Min_eqI) auto
          then show ?thesis
            using sorted_list_of_set_nonempty [OF finite_common [OF less.prems(1)]] adv(2) by auto
        qed
        let ?its = "fst (nxt it) # rest"
        have ok_its: "\<forall>it \<in> set ?its. ok it"
          using oks nxt(1) by simp
        have unfold: "lf_loop current seek nxt its out = (if snd (nxt it) = None then Some (?its, out @ [m])
            else lf_loop current seek nxt ?its (out @ [m]))"
          using Some sa r mr True m' split by (subst lf_loop.simps) (simp add: Let_def)
        show ?thesis
        proof (cases "snd (nxt it) = None")
          case True
          then have "remaining (fst (nxt it)) = []"
            using nxt(1,2) oks current_None by auto
          then have "common remaining ?its = {}"
            by (simp add: common_def)
          then have "sorted_list_of_set ?J = [m]"
            using J adv(1) by simp
          then show ?thesis
            using unfold True by simp
        next
          case False
          have "left_over remaining ?its < left_over remaining its'"
            using oks split by (auto simp: left_over_def nxt)
          also have "\<dots> \<le> left_over remaining its"
            using seek_ok by blast
          finally show ?thesis
            using less.hyps [of ?its "out @ [m]"] ok_its unfold False J adv(1) by simp
        qed
      qed
    qed
  qed
qed

lemma lf_drain_ok:
  "ok it \<Longrightarrow> \<exists>it'. lf_drain current nxt it out = Some (it', out @ remaining it)"
proof (induction "length (remaining it)" arbitrary: it out)
  case 0
  then show ?case by (subst lf_drain.simps) (simp add: current)
next
  case (Suc n)
  then obtain k xs where "remaining it = k # xs"
    by (cases "remaining it") auto
  then show ?case
    using Suc.prems Suc.hyps(1) [of "fst (nxt it)" "out @ [k]"] Suc.hyps(2)
    by (subst lf_drain.simps) (simp add: current nxt)
qed

lemma sorted_list_remaining: "ok it \<Longrightarrow> sorted_list_of_set (set (remaining it)) = remaining it"
  using increasing [of it] by (simp add: strict_sorted_iff sorted_list_of_set.idem_if_sorted_distinct)

lemma seek_0: "ok it \<Longrightarrow> remaining (fst (seek it 0)) = remaining it"
  by (simp add: seek dropWhile_eq_self_iff)

lemma lf_init_ok:
  assumes "\<forall>it \<in> set its. ok it" "lf_init current seek its = (its', b)"
  shows "(b \<longrightarrow> length its' = length its \<and> (\<forall>it \<in> set its'. ok it) \<and> common remaining its' = common remaining its) \<and>
    (\<not> b \<longrightarrow> common remaining its = {})"
  using assms
proof (induction its arbitrary: its' b)
  case (Cons it its)
  define it1 where "it1 = (if current it = None then fst (seek it 0) else it)"
  have it1: "ok it1" "remaining it1 = remaining it"
    using Cons.prems(1) seek(1) seek_0 by (auto simp: it1_def)
  show ?case
  proof (cases "current it1 = None")
    case True
    then have "remaining it = []"
      using it1 current_None by simp
    then show ?thesis
      using Cons.prems(2) True by (auto simp: common_def Let_def it1_def)
  next
    case False
    obtain its2 where rec: "lf_init current seek its = (its2, b)" "its' = it1 # its2"
      using Cons.prems(2) False by (auto simp: Let_def it1_def split: prod.splits if_splits)
    then show ?thesis
      using Cons.IH [OF _ rec(1)] Cons.prems(1) it1 by (auto simp: common_def)
  qed
qed simp

lemma run_intersects:
  assumes "its \<noteq> []" "\<forall>it \<in> set its. ok it"
  shows "\<exists>its'. lf_run current seek nxt its = Some (its', sorted_list_of_set (common remaining its))"
proof (cases "\<exists>it. its = [it]")
  case True
  then obtain it where it: "its = [it]"
    by blast
  define it1 where "it1 = (if current it = None then fst (seek it 0) else it)"
  have "ok it1" "remaining it1 = remaining it"
    using assms(2) it seek(1) seek_0 by (auto simp: it1_def)
  then show ?thesis
    using lf_drain_ok [of it1 "[]"] sorted_list_remaining [of it] assms(2) it
    by (auto simp: lf_run_def it1_def common_def Let_def)
next
  case False
  then obtain a b rest where its: "its = a # b # rest"
    using assms(1) by (metis neq_Nil_conv)
  obtain its' ok' where init: "lf_init current seek its = (its', ok')"
    by fastforce
  note i = lf_init_ok [OF assms(2) init]
  have run: "lf_run current seek nxt its = (if ok' then lf_loop current seek nxt its' [] else Some (its', []))"
    using init by (simp add: lf_run_def its)
  show ?thesis
  proof (cases ok')
    case True
    then have "its' \<noteq> []"
      using i assms(1) by auto
    then show ?thesis
      using run True i lf_loop_ok [of its' "[]"] by auto
  qed (use run i in simp)
qed

end

section \<open>Slices fulfil the contract\<close>

definition si_remaining :: "slice_iter \<Rightarrow> u64 list" where
  "si_remaining it = drop (si_pos it) (si_keys it)"

definition si_ok :: "slice_iter \<Rightarrow> bool" where
  "si_ok it \<longleftrightarrow> sorted_wrt (<) (si_keys it)"

lemma si_current_remaining: "si_current_key it = (case si_remaining it of [] \<Rightarrow> None | k # _ \<Rightarrow> Some k)"
  by (cases "si_pos it < length (si_keys it)")
     (auto simp: si_current_key_def slice_get_def si_remaining_def Cons_nth_drop_Suc [symmetric])

lemma si_seek_remaining:
  "si_remaining (fst (si_seek it k)) = dropWhile (\<lambda>x. x < k) (si_remaining it)"
  "snd (si_seek it k) = si_current_key (fst (si_seek it k))" "si_keys (fst (si_seek it k)) = si_keys it"
proof -
  let ?xs = "drop (si_pos it) (si_keys it)"
  have "drop (si_pos it + length (takeWhile (\<lambda>x. x < k) ?xs)) (si_keys it) = dropWhile (\<lambda>x. x < k) ?xs"
    using dropWhile_eq_drop [of "\<lambda>x. x < k" ?xs] by (simp add: add.commute)
  moreover have "dropWhile (\<lambda>x. x < k) ?xs = ?xs" if "si_pos it < length (si_keys it)" "k \<le> si_keys it ! si_pos it"
    using that by (simp add: dropWhile_eq_self_iff hd_drop_conv_nth not_less)
  ultimately show "si_remaining (fst (si_seek it k)) = dropWhile (\<lambda>x. x < k) (si_remaining it)"
    by (simp add: si_seek_def si_remaining_def partition_point_def Let_def)
  show "snd (si_seek it k) = si_current_key (fst (si_seek it k))" "si_keys (fst (si_seek it k)) = si_keys it"
    by (auto simp: si_seek_def Let_def si_current_key_def slice_get_def)
qed

lemma si_next_remaining:
  "si_remaining (fst (si_next it)) = tl (si_remaining it)" "snd (si_next it) = si_current_key (fst (si_next it))"
  "si_keys (fst (si_next it)) = si_keys it"
  by (auto simp: si_next_def Let_def si_remaining_def drop_Suc tl_drop)

interpretation slice: sorted_iterator si_current_key si_seek si_next si_remaining si_ok
  by unfold_locales
     (simp_all add: si_ok_def si_current_remaining si_seek_remaining si_next_remaining,
      simp add: si_remaining_def sorted_wrt_drop)

section \<open>Properties\<close>

text \<open>C21. The leapfrog join of any number of strictly increasing slices terminates and returns, in
  ascending order and without duplicates, exactly the keys all of them contain.\<close>

theorem leapfrog_join_intersects:
  assumes "slices \<noteq> []" "list_all (sorted_wrt (<)) slices"
  shows "\<exists>its. lf_run si_current_key si_seek si_next (map si_at_start slices) =
    Some (its, sorted_list_of_set (\<Inter>xs \<in> set slices. set xs))"
proof -
  have "common si_remaining (map si_at_start slices) = (\<Inter>xs \<in> set slices. set xs)"
    by (simp add: common_def si_remaining_def si_at_start_def)
  then show ?thesis
    using slice.run_intersects [of "map si_at_start slices"] assms
    by (simp add: si_ok_def si_at_start_def list_all_iff)
qed

text \<open>The two-way kernel returns the number of keys the two halves of its buffer share, and reads
  nothing beyond the buffer.\<close>

theorem leapfrog_kernel_counts:
  assumes "length input = n1 + unat n2" "sorted_wrt (<) (take n1 input)" "sorted_wrt (<) (drop n1 input)"
  shows "leapfrog_scalar_execute input n1 n2 = Some (Inr (card (set (take n1 input) \<inter> set (drop n1 input))))"
proof (cases "n1 + unat n2 = 0")
  case True
  then show ?thesis
    using assms(1) by (simp add: leapfrog_scalar_execute_def)
next
  case False
  have "common si_remaining [si_at_start (take n1 input), si_at_start (drop n1 input)] = set (take n1 input) \<inter> set (drop n1 input)"
    by (simp add: common_def si_remaining_def si_at_start_def)
  then show ?thesis
    using False assms slice.run_intersects [of "[si_at_start (take n1 input), si_at_start (drop n1 input)]"]
    by (auto simp: leapfrog_scalar_execute_def Let_def si_ok_def si_at_start_def)
qed

text \<open>A slice iterator delivers a strictly increasing slice key by key: seeking moves to the first
  key not below the target, \<open>next\<close> drops the current key, and both report the key they arrive at.\<close>

lemma slice_iterator_contract:
  assumes "sorted_wrt (<) (si_keys it)"
  shows "si_remaining (fst (si_seek it k)) = filter (\<lambda>x. k \<le> x) (si_remaining it) \<and>
    snd (si_seek it k) = si_current_key (fst (si_seek it k)) \<and>
    si_remaining (fst (si_next it)) = tl (si_remaining it) \<and>
    snd (si_next it) = si_current_key (fst (si_next it))"
proof -
  have "dropWhile (\<lambda>x. x < k) xs = filter (\<lambda>x. k \<le> x) xs" if "sorted_wrt (<) xs" for xs
    using that by (induction xs) (auto simp: not_less intro!: filter_True [symmetric] dest: order_trans less_imp_le)
  moreover have "sorted_wrt (<) (si_remaining it)"
    using sorted_wrt_drop [OF assms] by (simp add: si_remaining_def)
  ultimately show ?thesis
    by (simp add: si_seek_remaining si_next_remaining)
qed

section \<open>Instances\<close>

theorem leapfrog_join_intersects_witness:
  "\<exists>its. lf_run si_current_key si_seek si_next (map si_at_start [[1, 3, 5], [2, 3, 5, 9], [3, 4, 5]]) = Some (its, [3, 5])"
proof -
  let ?slices = "[[1, 3, 5], [2, 3, 5, 9], [3, 4, 5]] :: u64 list list"
  have "(\<Inter>xs \<in> set ?slices. set xs) = set [3, 5]"
    by auto
  moreover have "sorted_list_of_set (set [3, 5 :: u64]) = [3, 5]"
    by (intro sorted_list_of_set.idem_if_sorted_distinct) (simp_all add: word_le_nat_alt)
  ultimately show ?thesis
    using leapfrog_join_intersects [of ?slices] by (simp only:) (simp add: word_less_nat_alt)
qed

theorem leapfrog_kernel_counts_witness: "leapfrog_scalar_execute [1, 3, 2, 3] 2 2 = Some (Inr 1)"
proof -
  have "{1, 3} \<inter> {2, 3} = {3 :: u64}"
    by auto
  then show ?thesis
    using leapfrog_kernel_counts [of "[1, 3, 2, 3]" 2 2] by (simp add: word_less_nat_alt)
qed

end
