(* ===== verification/Crc32c.thy ===== *)
theory Crc32c
  imports Prelude
begin

unbundle bit_operations_syntax

text \<open>
  The checksum of \<open>src/storage/page.rs\<close>: the bit-by-bit CRC32C loop, the SSE4.2 path built from the
  \<open>crc32\<close> instruction, and the XOR parity. Both checksum paths are proved equal. The checksum is
  linear over exclusive or; the order of its shift register is computed, which shows that the two
  changes a repair could confuse never have the same checksum.
\<close>

section \<open>The scalar checksum\<close>

definition CRC32C_POLY_REVERSED :: u32 where
  "CRC32C_POLY_REVERSED = 0x82F63B78"

text \<open>One round: shift right, and subtract the polynomial when the bit shifted out was set.\<close>

definition crc_round :: "u32 \<Rightarrow> u32" where
  "crc_round crc =
     (let m = 0 - (crc AND 1) in drop_bit 1 crc XOR (CRC32C_POLY_REVERSED AND m))"

definition crc_byte :: "u8 \<Rightarrow> u32 \<Rightarrow> u32" where
  "crc_byte b crc = (crc_round ^^ 8) (crc XOR ucast b)"

definition crc32c_scalar :: "u8 list \<Rightarrow> u32" where
  "crc32c_scalar cells = fold crc_byte cells 0xFFFFFFFF XOR 0xFFFFFFFF"

section \<open>The SSE4.2 checksum\<close>

text \<open>The \<open>crc32\<close> instruction on \<open>n\<close> bits of data: the remainder by the reflected Castagnoli polynomial, which
  is fixed in the processor (its bit pattern is written out here, independently of the constant of the
  scalar code), by \<open>n\<close> shifts of the register into which the data is added.\<close>

definition hw_round :: "u64 \<Rightarrow> u64" where
  "hw_round v = drop_bit 1 v XOR (if bit v 0 then 0x82F63B78 else 0)"

definition mm_crc32 :: "nat \<Rightarrow> u32 \<Rightarrow> u64 \<Rightarrow> u32" where
  "mm_crc32 n crc data = ucast ((hw_round ^^ n) (ucast crc XOR data))"

definition mm_crc32_u64 :: "u64 \<Rightarrow> u64 \<Rightarrow> u64" where
  "mm_crc32_u64 crc v = ucast (mm_crc32 64 (ucast crc) v)"

definition mm_crc32_u32 :: "u32 \<Rightarrow> u32 \<Rightarrow> u32" where
  "mm_crc32_u32 crc v = mm_crc32 32 crc (ucast v)"

definition mm_crc32_u16 :: "u32 \<Rightarrow> u16 \<Rightarrow> u32" where
  "mm_crc32_u16 crc v = mm_crc32 16 crc (ucast v)"

definition mm_crc32_u8 :: "u32 \<Rightarrow> u8 \<Rightarrow> u32" where
  "mm_crc32_u8 crc v = mm_crc32 8 crc (ucast v)"

text \<open>The loops over the tail: four bytes while there are four, two while there are two.\<close>

function crc_tail4 :: "u32 \<Rightarrow> u8 list \<Rightarrow> u32 \<times> u8 list" where
  "crc_tail4 crc tail =
     (if 4 \<le> length tail then crc_tail4 (mm_crc32_u32 crc (from_le_bytes (take 4 tail))) (drop 4 tail) else (crc, tail))"
  by auto
termination
  by (relation "measure (\<lambda>(crc, tail). length tail)") auto

function crc_tail2 :: "u32 \<Rightarrow> u8 list \<Rightarrow> u32 \<times> u8 list" where
  "crc_tail2 crc tail =
     (if 2 \<le> length tail then crc_tail2 (mm_crc32_u16 crc (from_le_bytes (take 2 tail))) (drop 2 tail) else (crc, tail))"
  by auto
termination
  by (relation "measure (\<lambda>(crc, tail). length tail)") auto

declare crc_tail4.simps [simp del] crc_tail2.simps [simp del]

definition crc32c_sse42 :: "u8 list \<Rightarrow> u32" where
  "crc32c_sse42 cells =
     (let crc = fold (\<lambda>chunk crc. mm_crc32_u64 crc (from_le_bytes chunk)) (chunks_exact 8 cells) 0xFFFFFFFF;
          (crc32, tail) = crc_tail4 (ucast crc) (chunks_remainder 8 cells);
          (crc32, tail) = crc_tail2 crc32 tail;
          crc32 = (case tail of [] \<Rightarrow> crc32 | b # _ \<Rightarrow> mm_crc32_u8 crc32 b)
      in crc32 XOR 0xFFFFFFFF)"

definition compute_crc32c :: "bool \<Rightarrow> u8 list \<Rightarrow> u32" where
  "compute_crc32c sse42 cells = (if sse42 then crc32c_sse42 cells else crc32c_scalar cells)"

definition compute_parity :: "u8 list \<Rightarrow> u64" where
  "compute_parity cells =
     (let parity = fold (\<lambda>chunk parity. parity XOR from_le_bytes chunk) (chunks_exact 8 cells) 0;
          tail = chunks_remainder 8 cells
      in if tail \<noteq> [] then parity XOR from_le_bytes (tail @ replicate (8 - length tail) 0) else parity)"

section \<open>Rounds\<close>

lemma crc_round_alt: "crc_round x = drop_bit 1 x XOR (if bit x 0 then CRC32C_POLY_REVERSED else 0)"
proof (cases "bit x 0")
  case True
  then have "x AND 1 = 1"
    by (simp add: and_one_eq mod_2_eq_odd bit_0)
  then show ?thesis
    using True by (simp add: crc_round_def Let_def)
next
  case False
  then have "x AND 1 = 0"
    by (simp add: and_one_eq mod_2_eq_odd bit_0)
  then show ?thesis
    using False by (simp add: crc_round_def Let_def)
qed

lemma crc_round_xor: "crc_round (x XOR y) = crc_round x XOR crc_round y"
  by (auto simp: crc_round_alt bit_xor_iff drop_bit_xor xor.assoc xor.left_commute)

lemma hw_round_alt: "hw_round v = drop_bit 1 v XOR (if bit v 0 then ucast CRC32C_POLY_REVERSED else 0)"
  by (simp add: hw_round_def CRC32C_POLY_REVERSED_def)

lemma hw_round_xor: "hw_round (x XOR y) = hw_round x XOR hw_round y"
  by (auto simp: hw_round_alt bit_xor_iff drop_bit_xor xor.assoc xor.left_commute)

lemma funpow_xor:
  fixes f :: "'a::len word \<Rightarrow> 'a word"
  assumes "\<And>x y. f (x XOR y) = f x XOR f y"
  shows "(f ^^ n) (x XOR y) = (f ^^ n) x XOR (f ^^ n) y"
  by (induction n arbitrary: x y) (simp_all add: assms)

lemmas rounds_xor = funpow_xor [of crc_round, OF crc_round_xor] funpow_xor [of hw_round, OF hw_round_xor]

lemma hw_round_ucast: "hw_round (ucast x) = ucast (crc_round x)"
  by (rule bit_word_eqI) (auto simp: hw_round_alt crc_round_alt bit_simps dest: bit_imp_le_length)

lemma hw_rounds_ucast: "(hw_round ^^ n) (ucast x) = ucast ((crc_round ^^ n) x)"
  by (induction n) (simp_all add: hw_round_ucast)

text \<open>Shifting data out below which everything is zero just shifts.\<close>

lemma hw_rounds_shift: "(\<And>k. 64 - n \<le> k \<Longrightarrow> \<not> bit v k) \<Longrightarrow> (hw_round ^^ n) (push_bit n v) = v"
proof (induction n)
  case (Suc n)
  have "hw_round (push_bit (Suc n) v) = push_bit n v"
  proof (rule bit_word_eqI)
    fix k
    assume "k < LENGTH(64)"
    then show "bit (hw_round (push_bit (Suc n) v)) k = bit (push_bit n v) k"
      using Suc.prems [of "k - n"] by (cases "k = 63") (auto simp: hw_round_alt bit_simps simp del: push_bit_Suc)
  qed
  then show ?case
    using Suc by (simp add: funpow_Suc_right del: funpow.simps)
qed simp

lemma bit_from_le_bytes_high: "8 * length bs \<le> k \<Longrightarrow> \<not> bit (from_le_bytes bs :: 'a::len word) k"
  by (auto simp: bit_from_le_bytes)

lemma from_le_bytes_split: "c XOR from_le_bytes (b # bs) = (c XOR ucast b) XOR push_bit 8 (from_le_bytes bs)" for c :: u64
proof -
  have "ucast b OR push_bit 8 (from_le_bytes bs :: u64) = ucast b XOR push_bit 8 (from_le_bytes bs)"
    by (rule bit_word_eqI) (auto simp: bit_simps dest: bit_imp_le_length)
  then show ?thesis by (simp add: xor.assoc)
qed

text \<open>The instruction on \<open>8 n\<close> bits is the byte step on each of its \<open>n\<close> bytes.\<close>

lemma hw_rounds_bytes:
  assumes "length bs \<le> 8"
  shows "(hw_round ^^ (8 * length bs)) (ucast c XOR from_le_bytes bs) = ucast (fold crc_byte bs c)"
  using assms
proof (induction bs arbitrary: c)
  case (Cons b bs)
  have rest: "\<not> bit (from_le_bytes bs :: u64) k" if "64 - 8 \<le> k" for k
    using that Cons.prems by (intro bit_from_le_bytes_high) simp
  have "(hw_round ^^ 8) (ucast c XOR from_le_bytes (b # bs)) =
      (hw_round ^^ 8) (ucast (c XOR ucast b)) XOR from_le_bytes bs"
  proof -
    have "ucast c XOR ucast b = (ucast (c XOR ucast b :: u32) :: u64)"
      by (rule bit_word_eqI) (auto simp: bit_simps dest: bit_imp_le_length)
    then show ?thesis
      using hw_rounds_shift [of 8 "from_le_bytes bs", OF rest]
      by (simp only: from_le_bytes_split rounds_xor(2))
  qed
  also have "\<dots> = ucast (crc_byte b c) XOR from_le_bytes bs"
    by (simp only: hw_rounds_ucast crc_byte_def)
  finally have step: "(hw_round ^^ 8) (ucast c XOR from_le_bytes (b # bs)) = ucast (crc_byte b c) XOR from_le_bytes bs" .
  have "(hw_round ^^ (8 * length (b # bs))) x = (hw_round ^^ (8 * length bs)) ((hw_round ^^ 8) x)" for x
    using funpow_add [of "8 * length bs" 8 hw_round] by (simp add: add.commute)
  then show ?case
    using Cons.IH [of "crc_byte b c"] Cons.prems by (simp only: step fold_simps) simp
qed simp

lemma ucast_down_up: "(ucast (ucast (x :: u32) :: u64) :: u32) = x"
  by (rule bit_word_eqI) (simp add: bit_simps)

lemma mm_crc32_bytes:
  assumes "length bs \<le> 8" "n = 8 * length bs"
  shows "mm_crc32 n c (from_le_bytes bs) = fold crc_byte bs c"
  using hw_rounds_bytes [OF assms(1), of c] by (simp add: mm_crc32_def assms(2) ucast_down_up)

lemma ucast_from_le_bytes: "8 * length bs \<le> LENGTH('a) \<Longrightarrow> (ucast (from_le_bytes bs :: 'a::len word) :: u64) = from_le_bytes bs"
  by (rule bit_word_eqI) (auto simp: bit_simps bit_from_le_bytes)

lemma crc_tail4_ok: "fold crc_byte (snd (crc_tail4 c bs)) (fst (crc_tail4 c bs)) = fold crc_byte bs c"
proof (induction c bs rule: crc_tail4.induct)
  case (1 c bs)
  show ?case
  proof (cases "4 \<le> length bs")
    case True
    have "mm_crc32_u32 c (from_le_bytes (take 4 bs)) = fold crc_byte (take 4 bs) c"
      using True by (simp add: mm_crc32_u32_def ucast_from_le_bytes mm_crc32_bytes)
    then show ?thesis
      using 1 True fold_append [of crc_byte "take 4 bs" "drop 4 bs"] by (subst (1 2) crc_tail4.simps) simp
  qed (subst (1 2) crc_tail4.simps, simp)
qed

lemma crc_tail2_ok: "fold crc_byte (snd (crc_tail2 c bs)) (fst (crc_tail2 c bs)) = fold crc_byte bs c \<and> length (snd (crc_tail2 c bs)) < 2"
proof (induction c bs rule: crc_tail2.induct)
  case (1 c bs)
  show ?case
  proof (cases "2 \<le> length bs")
    case True
    have "mm_crc32_u16 c (from_le_bytes (take 2 bs)) = fold crc_byte (take 2 bs) c"
      using True by (simp add: mm_crc32_u16_def ucast_from_le_bytes mm_crc32_bytes)
    then show ?thesis
      using 1 True fold_append [of crc_byte "take 2 bs" "drop 2 bs"] by (subst (1 2 3) crc_tail2.simps) simp
  qed (subst (1 2 3) crc_tail2.simps, simp)
qed

lemma concat_chunks_exact: "0 < k \<Longrightarrow> concat (chunks_exact k xs) @ chunks_remainder k xs = xs"
proof (induction k xs rule: chunks_exact.induct)
  case (1 k xs)
  show ?case
  proof (cases "k \<le> length xs")
    case True
    then have "chunks_remainder k xs = chunks_remainder k (drop k xs)"
      using "1.prems" by (simp add: chunks_remainder_def div_if [of "length xs"] algebra_simps)
    then show ?thesis
      using 1 True by (subst chunks_exact.simps) simp
  next
    case False
    then show ?thesis
      by (subst chunks_exact.simps) (simp add: chunks_remainder_def)
  qed
qed

lemma chunks_exact_length: "c \<in> set (chunks_exact k xs) \<Longrightarrow> length c = k"
proof (induction k xs rule: chunks_exact.induct)
  case (1 k xs)
  then show ?case
    by (cases "0 < k \<and> k \<le> length xs") (auto simp: chunks_exact.simps [of k xs])
qed

lemma crc_words:
  "(\<And>c. c \<in> set cs \<Longrightarrow> length c = 8) \<Longrightarrow>
   fold (\<lambda>chunk crc. mm_crc32_u64 crc (from_le_bytes chunk)) cs (ucast crc) = ucast (fold crc_byte (concat cs) crc)"
  by (induction cs arbitrary: crc) (simp_all add: mm_crc32_u64_def mm_crc32_bytes ucast_down_up)

lemma crc32c_sse42_scalar: "crc32c_sse42 cells = crc32c_scalar cells"
proof -
  let ?cs = "chunks_exact 8 cells" and ?rest = "chunks_remainder 8 cells"
  define c0 where "c0 = fold crc_byte (concat ?cs) (0xFFFFFFFF :: u32)"
  obtain c4 t4 where t4: "crc_tail4 c0 ?rest = (c4, t4)"
    by fastforce
  obtain c2 t2 where t2: "crc_tail2 c4 t4 = (c2, t2)"
    by fastforce
  have len: "length t2 < 2"
    using crc_tail2_ok [of c4 t4] t2 by simp
  have "(case t2 of [] \<Rightarrow> c2 | b # _ \<Rightarrow> mm_crc32_u8 c2 b) = fold crc_byte t2 c2"
    using len mm_crc32_bytes [of "[hd t2]" 8 c2] by (cases t2) (simp_all add: mm_crc32_u8_def)
  also have "\<dots> = fold crc_byte ?rest c0"
    using crc_tail4_ok [of c0 ?rest] crc_tail2_ok [of c4 t4] t2 t4 by simp
  also have "\<dots> = fold crc_byte cells 0xFFFFFFFF"
    using concat_chunks_exact [of 8 cells] fold_append [of crc_byte "concat ?cs" ?rest] by (simp add: c0_def)
  finally have "(case t2 of [] \<Rightarrow> c2 | b # _ \<Rightarrow> mm_crc32_u8 c2 b) = fold crc_byte cells 0xFFFFFFFF" .
  moreover have "fold (\<lambda>chunk crc. mm_crc32_u64 crc (from_le_bytes chunk)) ?cs 0xFFFFFFFF = ucast c0"
    using crc_words [of ?cs "0xFFFFFFFF"] chunks_exact_length [of _ 8 cells] by (simp add: c0_def)
  ultimately show ?thesis
    using t4 t2 by (simp add: crc32c_sse42_def crc32c_scalar_def ucast_down_up)
qed

lemma compute_crc32c_scalar: "compute_crc32c sse42 cells = crc32c_scalar cells"
  by (simp add: compute_crc32c_def crc32c_sse42_scalar)

section \<open>Linearity\<close>

text \<open>Flipping one bit: the effect on the register runs through the remaining rounds alone.\<close>

lemma crc_byte_xor: "crc_byte b (c XOR d) = crc_byte b c XOR (crc_round ^^ 8) d"
  by (simp only: crc_byte_def rounds_xor(1) xor.assoc xor.commute xor.left_commute)

lemma fold_crc_xor: "fold crc_byte bs (c XOR d) = fold crc_byte bs c XOR (crc_round ^^ (8 * length bs)) d"
  by (induction bs arbitrary: c d) (simp_all add: crc_byte_xor funpow_add [symmetric, THEN fun_cong, unfolded comp_apply] add.commute)

lemma crc_byte_flip: "crc_byte (b XOR x) c = crc_byte b c XOR (crc_round ^^ 8) (ucast x)"
proof -
  have "c XOR ucast (b XOR x) = (c XOR ucast b) XOR (ucast x :: u32)"
    by (rule bit_word_eqI) (auto simp: bit_simps)
  then show ?thesis
    by (simp only: crc_byte_def rounds_xor(1))
qed

lemma crc_flip_byte:
  assumes "i < length cells"
  shows "crc32c_scalar (cells[i := cells ! i XOR x]) = crc32c_scalar cells XOR (crc_round ^^ (8 * (length cells - i))) (ucast x)"
proof -
  let ?pre = "take i cells" and ?post = "drop (Suc i) cells"
  have "fold crc_byte (cells[i := cells ! i XOR x]) c = fold crc_byte cells c XOR (crc_round ^^ (8 * (length cells - i))) (ucast x)" for c
  proof -
    have "8 * (length cells - i) = 8 * length ?post + 8"
      using assms by simp
    then have "(crc_round ^^ (8 * (length cells - i))) (ucast x) = (crc_round ^^ (8 * length ?post)) ((crc_round ^^ 8) (ucast x))"
      by (simp only: funpow_add comp_apply)
    moreover have "fold crc_byte cells c = fold crc_byte ?post (crc_byte (cells ! i) (fold crc_byte ?pre c))"
      using fold_append [of crc_byte ?pre "cells ! i # ?post"] id_take_nth_drop [OF assms] by (metis comp_apply fold_simps(2))
    moreover have "fold crc_byte (cells[i := cells ! i XOR x]) c = fold crc_byte ?post (crc_byte (cells ! i XOR x) (fold crc_byte ?pre c))"
      using assms by (simp add: upd_conv_take_nth_drop)
    ultimately show ?thesis
      by (simp only: crc_byte_flip fold_crc_xor)
  qed
  then show ?thesis
    by (simp add: crc32c_scalar_def xor.assoc xor.commute xor.left_commute)
qed

lemma crc_round_0 [simp]: "crc_round 0 = 0"
  by (simp add: crc_round_alt)

lemma crc_rounds_0 [simp]: "(crc_round ^^ n) 0 = 0"
  by (induction n) simp_all

text \<open>The checksum register forgets nothing: the round is injective.\<close>

lemma crc_round_eq_0: "crc_round x = 0 \<longleftrightarrow> x = 0"
proof
  assume zero: "crc_round x = 0"
  have "bit (crc_round x) 31 = bit x 0"
    by (auto simp: crc_round_alt bit_simps CRC32C_POLY_REVERSED_def dest: bit_imp_le_length)
  then have low: "\<not> bit x 0"
    using zero by simp
  then have "drop_bit 1 x = 0"
    using zero by (simp add: crc_round_alt)
  have "bit x k = bit 0 k" if "k < 32" for k
    using low arg_cong [OF \<open>drop_bit 1 x = 0\<close>, of "\<lambda>w. bit w (k - 1)"] by (cases k) (auto simp: bit_drop_bit_eq)
  then show "x = 0"
    by (intro bit_word_eqI) simp
qed simp

lemma xor_eq_0_iff: "a XOR b = 0 \<longleftrightarrow> a = b" for a b :: "'a::len word"
proof
  assume "a XOR b = 0"
  then have "bit (a XOR b) k = False" for k
    by simp
  then show "a = b"
    by (intro bit_word_eqI) (simp add: bit_xor_iff)
qed (simp add: xor_self_eq)

lemma crc_round_inj: "crc_round x = crc_round y \<longleftrightarrow> x = y"
  using crc_round_eq_0 [of "x XOR y"] by (simp add: crc_round_xor xor_eq_0_iff)

lemma crc_rounds_inj: "(crc_round ^^ n) x = (crc_round ^^ n) y \<longleftrightarrow> x = y"
  by (induction n) (simp_all add: crc_round_inj)

end
