(* ===== verification/Crc_Order.thy ===== *)
theory Crc_Order
  imports Crc32c
begin

unbundle bit_operations_syntax

text \<open>
  The order of the CRC32C shift register. A register of 32 bits is a polynomial over the field of two
  elements modulo the CRC polynomial, and a round multiplies by the variable. Squaring is linear on the
  register, so the register after \<open>2 ^ j\<close> rounds is computed by \<open>j\<close> squarings: after \<open>2 ^ 31\<close> rounds it is
  where it was after one. Hence no number of rounds that is coprime to \<open>2 ^ 31 - 1\<close> is a period, and in
  particular none of the distances between the words of a page.
\<close>

section \<open>Linear maps on registers\<close>

definition crc_unit :: u32 where
  "crc_unit = 0x80000000"

lemma linear_take_bit:
  fixes f g :: "u32 \<Rightarrow> u32"
  assumes f: "\<And>x y. f (x XOR y) = f x XOR f y" and g: "\<And>x y. g (x XOR y) = g x XOR g y"
    and basis: "\<And>i. i < 32 \<Longrightarrow> f (push_bit i 1) = g (push_bit i 1)"
  shows "n \<le> 32 \<Longrightarrow> f (take_bit n x) = g (take_bit n x)"
proof (induction n)
  case 0
  have "f 0 = 0" "g 0 = 0"
    using f [of 0 0] g [of 0 0] by (simp_all add: xor_self_eq)
  then show ?case by simp
next
  case (Suc n)
  have "take_bit (Suc n) x = take_bit n x XOR (if bit x n then push_bit n 1 else 0)"
    by (rule bit_word_eqI) (auto simp: bit_simps less_Suc_eq simp del: push_bit_of_1)
  then show ?case
    using Suc f g basis [of n] by (cases "bit x n") (simp_all del: push_bit_of_1)
qed

lemma linear_ext:
  fixes f g :: "u32 \<Rightarrow> u32"
  assumes "\<And>x y. f (x XOR y) = f x XOR f y" "\<And>x y. g (x XOR y) = g x XOR g y"
    and "\<And>i. i < 32 \<Longrightarrow> f (push_bit i 1) = g (push_bit i 1)"
  shows "f x = g x"
  using linear_take_bit [OF assms, of 32 x] by (simp add: take_bit_word_eq_self)

lemma crc_round_basis: "crc_round (push_bit (Suc i) 1) = push_bit i 1" if "Suc i < 32"
proof -
  have "\<not> bit (push_bit (Suc i) 1 :: u32) 0"
    by (simp add: bit_simps del: push_bit_of_1)
  moreover have "drop_bit 1 (push_bit (Suc i) 1 :: u32) = push_bit i 1"
    using that by (intro bit_word_eqI) (auto simp: bit_simps simp del: push_bit_of_1)
  ultimately show ?thesis
    by (simp add: crc_round_alt del: push_bit_of_1)
qed

section \<open>Squaring\<close>

text \<open>A linear map from its values on the bits of the register.\<close>

primrec combine_bits :: "(nat \<times> u32) list \<Rightarrow> u32 \<Rightarrow> u32" where
  "combine_bits [] y = 0"
| "combine_bits (c # cs) y = (if bit y (fst c) then snd c else 0) XOR combine_bits cs y"

text \<open>Bit \<open>i\<close> is the unit after \<open>31 - i\<close> rounds; its square is the unit after twice as many.\<close>

definition crc_squares :: "(nat \<times> u32) list" where
  "crc_squares =
    [(0, 3211207553), (1, 4131677158), (2, 3609531531), (3, 1386268991),
     (4, 1332695565), (5, 944848581), (6, 3779394324), (7, 2334619459),
     (8, 658845934), (9, 2635383736), (10, 2139874050), (11, 4223924985),
     (12, 3778769143), (13, 2329499855), (14, 549293790), (15, 2197175160),
     (16, 2), (17, 8), (18, 32), (19, 128),
     (20, 512), (21, 2048), (22, 8192), (23, 32768),
     (24, 131072), (25, 524288), (26, 2097152), (27, 8388608),
     (28, 33554432), (29, 134217728), (30, 536870912), (31, 2147483648)]"

definition crc_square :: "u32 \<Rightarrow> u32" where
  "crc_square = combine_bits crc_squares"

lemma combine_bits_xor: "combine_bits cs (x XOR y) = combine_bits cs x XOR combine_bits cs y"
  by (induction cs) (auto simp: bit_xor_iff xor.assoc xor.left_commute)

lemma combine_bits_basis:
  "distinct (map fst cs) \<Longrightarrow> i < 32 \<Longrightarrow> (i, c) \<in> set cs \<Longrightarrow> combine_bits cs (push_bit i 1) = c"
proof (induction cs)
  case (Cons a cs)
  have zero: "combine_bits cs (push_bit i 1) = 0" if "i \<notin> fst ` set cs"
    using that by (induction cs) (auto simp: bit_simps simp del: push_bit_of_1)
  show ?case
  proof (cases "fst a = i")
    case True
    then have "i \<notin> fst ` set cs" "snd a = c"
      using Cons.prems by (cases a, force)+
    then show ?thesis
      using zero True Cons.prems(2) by (simp add: bit_simps del: push_bit_of_1)
  next
    case False
    then show ?thesis
      using Cons by (auto simp: bit_simps simp del: push_bit_of_1)
  qed
qed simp

lemma crc_squares_index: "map fst crc_squares = [0..<32]"
  by (simp add: crc_squares_def) (simp add: numeral_eq_Suc)

lemma crc_square_basis: "i < 32 \<Longrightarrow> crc_square (push_bit i 1) = snd (crc_squares ! i)"
proof -
  assume i: "i < 32"
  have len: "length crc_squares = 32"
    using arg_cong [OF crc_squares_index, of length] by simp
  have "fst (crc_squares ! i) = i"
    using i len nth_map [of i crc_squares fst] by (simp add: crc_squares_index)
  then have "(i, snd (crc_squares ! i)) \<in> set crc_squares"
    using i len nth_mem [of i crc_squares] by (metis prod.collapse)
  then show ?thesis
    using i by (simp add: crc_square_def combine_bits_basis crc_squares_index del: push_bit_of_1)
qed

text \<open>Each entry of the table is its successor after two rounds.\<close>

primrec squares_chain :: "(nat \<times> u32) list \<Rightarrow> bool" where
  "squares_chain [] = True"
| "squares_chain (c # cs) = ((case cs of [] \<Rightarrow> True | d # _ \<Rightarrow> snd c = crc_round (crc_round (snd d))) \<and> squares_chain cs)"

lemma squares_chain_nth: "squares_chain cs \<Longrightarrow> Suc i < length cs \<Longrightarrow> snd (cs ! i) = crc_round (crc_round (snd (cs ! Suc i)))"
proof (induction cs arbitrary: i)
  case (Cons c cs)
  then show ?case
    by (cases i; cases cs) auto
qed simp

lemmas round_eval = crc_round_alt CRC32C_POLY_REVERSED_def

lemma crc_squares_chain: "squares_chain crc_squares"
  by (simp add: crc_squares_def round_eval)

lemma crc_square_xor: "crc_square (x XOR y) = crc_square x XOR crc_square y"
  by (simp add: crc_square_def combine_bits_xor)

lemma crc_square_poly: "crc_square CRC32C_POLY_REVERSED = crc_round (crc_round (snd (crc_squares ! 0)))"
  by (simp add: crc_square_def crc_squares_def round_eval)

lemma crc_square_round: "crc_square (crc_round y) = crc_round (crc_round (crc_square y))"
proof (rule linear_ext [where f = "\<lambda>y. crc_square (crc_round y)" and g = "\<lambda>y. crc_round (crc_round (crc_square y))"])
  fix i :: nat
  assume i: "i < 32"
  have len: "length crc_squares = 32"
    using arg_cong [OF crc_squares_index, of length] by simp
  show "crc_square (crc_round (push_bit i 1)) = crc_round (crc_round (crc_square (push_bit i 1)))"
  proof (cases i)
    case 0
    have "crc_round (push_bit 0 1) = CRC32C_POLY_REVERSED"
      by (simp add: crc_round_alt)
    then show ?thesis
      using 0 crc_square_basis [of 0] crc_square_poly by (simp del: push_bit_of_1 push_bit_0_id)
  next
    case (Suc j)
    then show ?thesis
      using i crc_round_basis [of j] crc_square_basis [of j] crc_square_basis [of i]
        squares_chain_nth [OF crc_squares_chain, of j] len
      by (simp del: push_bit_of_1)
  qed
qed (simp_all add: crc_square_xor crc_round_xor)

lemma crc_square_unit: "crc_square crc_unit = crc_unit"
  by (simp add: crc_square_def crc_squares_def crc_unit_def)

lemma crc_square_rounds: "crc_square ((crc_round ^^ n) crc_unit) = (crc_round ^^ (2 * n)) crc_unit"
  by (induction n) (simp_all add: crc_square_unit crc_square_round)

text \<open>Registers after \<open>2 ^ j\<close> rounds, by repeated squaring.\<close>

primrec squaring_chain :: "u32 list \<Rightarrow> bool" where
  "squaring_chain [] = True"
| "squaring_chain (x # xs) = ((case xs of [] \<Rightarrow> True | y # _ \<Rightarrow> crc_square x = y) \<and> squaring_chain xs)"

definition crc_powers :: "u32 list" where
  "crc_powers =
    [1073741824, 536870912, 134217728, 8388608, 32768, 2197175160, 1856165212, 414771736, 1359660442, 3089885525, 3103633895, 2296737650, 1958961316, 3826723606, 224753194, 903297634, 675681636, 3208991337, 3806999260, 4269228262, 4182139147, 1008750479, 1401259747, 1500670229, 1934447369, 3155871587, 2097619660, 3532245694, 3914115516, 95899455, 2770214722, 1073741824]"

lemma crc_powers_chain: "squaring_chain crc_powers"
  by (simp add: crc_powers_def crc_square_def crc_squares_def)

lemma squaring_chain_nth:
  "squaring_chain xs \<Longrightarrow> j < length xs \<Longrightarrow> xs ! 0 = (crc_round ^^ n) crc_unit \<Longrightarrow> xs ! j = (crc_round ^^ (n * 2 ^ j)) crc_unit"
proof (induction xs arbitrary: j n)
  case (Cons x xs)
  show ?case
  proof (cases j)
    case (Suc k)
    then obtain y ys where xs: "xs = y # ys"
      using Cons.prems(2) by (cases xs) auto
    have "xs ! 0 = (crc_round ^^ (2 * n)) crc_unit"
      using Cons.prems xs by (simp add: crc_square_rounds [symmetric])
    then show ?thesis
      using Cons.IH [of k "2 * n"] Cons.prems Suc xs by (simp add: ac_simps)
  qed (use Cons.prems in simp)
qed simp

lemma crc_unit_period: "(crc_round ^^ (2 ^ 31 - 1)) crc_unit = crc_unit"
proof -
  have "crc_powers ! 0 = (crc_round ^^ 1) crc_unit" "crc_powers ! 31 = (crc_round ^^ 1) crc_unit"
    by (simp_all add: crc_powers_def crc_unit_def round_eval)
  then have "(crc_round ^^ (2 ^ 31)) crc_unit = crc_round crc_unit"
    using squaring_chain_nth [OF crc_powers_chain, of 31 1] by (simp add: crc_powers_def)
  moreover have "(crc_round ^^ (2 ^ 31)) crc_unit = crc_round ((crc_round ^^ (2 ^ 31 - 1)) crc_unit)"
    by (subst funpow.simps(2) [symmetric, THEN fun_cong, unfolded comp_apply]) simp
  ultimately show ?thesis
    by (simp add: crc_round_inj)
qed

section \<open>Distances between words are not periods\<close>

lemma period_multiple: "(f ^^ n) x = x \<Longrightarrow> (f ^^ (k * n)) x = x"
  by (induction k) (simp_all add: funpow_add)

lemma period_gcd:
  assumes "(f ^^ a) x = x" "(f ^^ b) x = x" "a \<noteq> 0"
  shows "(f ^^ gcd a b) x = x"
proof -
  obtain u v where uv: "a * u = b * v + gcd a b"
    using bezout_nat [OF assms(3), of b] by blast
  have "(f ^^ (gcd a b + v * b)) x = x"
    using period_multiple [OF assms(1), of u] uv by (simp add: mult.commute add.commute)
  then show ?thesis
    using period_multiple [OF assms(2), of v] by (simp add: funpow_add)
qed

text \<open>The factorial of 503, the largest distance, is coprime to the period.\<close>

lemma foldl_mod_prod: "foldl (\<lambda>acc k. acc * k mod m) a xs mod m = (a * prod_list xs) mod m" for a m :: int
  by (induction xs arbitrary: a) (simp_all add: mult.assoc mod_mult_left_eq)

lemma fact_503_mod: "foldl (\<lambda>acc k. acc * k mod 2147483647) 1 [1..503] = (229212507 :: int)"
  by code_simp

lemma dvd_prod_list: "x \<in> set xs \<Longrightarrow> x dvd prod_list xs" for x :: int
  by (induction xs) auto

lemma coprime_distance:
  assumes "0 < d" "d \<le> 503"
  shows "gcd (64 * d) (2 ^ 31 - 1) = (1 :: nat)"
proof -
  let ?N = "2147483647 :: int" and ?P = "prod_list [1..503] :: int"
  have "?P mod ?N = 229212507"
    using foldl_mod_prod [of ?N 1 "[1..503]"] fact_503_mod by simp
  then have "gcd ?P ?N = gcd 229212507 ?N"
    by (metis gcd_red_int gcd.commute)
  also have "\<dots> = 1"
    by code_simp
  finally have P: "coprime ?P ?N"
    by (simp add: coprime_iff_gcd_eq_1)
  have "int d dvd ?P"
    using assms by (intro dvd_prod_list) auto
  then have "coprime (int d) ?N"
    using P coprime_divisors [of "int d" ?P ?N ?N] by simp
  moreover have "coprime 64 ?N"
    unfolding coprime_iff_gcd_eq_1 by code_simp
  ultimately have "coprime (int (64 * d)) (int (2 ^ 31 - 1))"
    by (simp add: coprime_mult_left_iff)
  then have "coprime (64 * d) (2 ^ 31 - 1 :: nat)"
    by (simp only: coprime_int_iff)
  then show ?thesis
    by (simp only: coprime_iff_gcd_eq_1)
qed

text \<open>A single bit is the unit after some rounds, so no distance of one to 503 words of eight bytes brings it back.\<close>

lemma bit_from_unit: "b < 32 \<Longrightarrow> push_bit b 1 = (crc_round ^^ (31 - b)) crc_unit"
proof (induction "31 - b" arbitrary: b)
  case 0
  then have "b = 31"
    by simp
  then show ?case
    by (simp add: crc_unit_def)
next
  case (Suc n)
  then have b: "n = 31 - Suc b" "31 - b = Suc (31 - Suc b)" "Suc b < 32"
    by auto
  with Suc.hyps(1) [OF b(1,3)] show ?case
    using crc_round_basis [of b] by (simp del: push_bit_of_1)
qed

lemma words_not_period:
  assumes "0 < d" "d \<le> 503" "b < 32"
  shows "(crc_round ^^ (64 * d)) (push_bit b 1) \<noteq> push_bit b 1"
proof
  let ?k = "31 - b"
  assume "(crc_round ^^ (64 * d)) (push_bit b 1) = push_bit b 1"
  then have "(crc_round ^^ (64 * d + ?k)) crc_unit = (crc_round ^^ ?k) crc_unit"
    using bit_from_unit [OF assms(3)] by (simp only: funpow_add comp_apply)
  then have "(crc_round ^^ (?k + 64 * d)) crc_unit = (crc_round ^^ ?k) crc_unit"
    by (simp only: add.commute)
  then have "(crc_round ^^ (64 * d)) crc_unit = crc_unit"
    by (simp add: funpow_add crc_rounds_inj)
  then have "(crc_round ^^ gcd (64 * d) (2 ^ 31 - 1)) crc_unit = crc_unit"
    using crc_unit_period assms(1) by (intro period_gcd) auto
  then have "crc_round crc_unit = crc_unit"
    using coprime_distance [OF assms(1,2)] by simp
  then show False
    by (simp add: crc_unit_def round_eval)
qed

end
