(* ===== verification/Page.thy ===== *)
theory Page
  imports Crc_Order
begin

unbundle bit_operations_syntax

text \<open>
  The 4 KB page of \<open>src/storage/page.rs\<close>: header, cell access, the stored checksum and parity, the
  single-bit repair, and the byte form with its checked reader. The header's byte form is produced by
  the crate \<open>bytemuck\<close>; its two functions are arguments (\<open>bytes_of\<close>, and \<open>header_of\<close>, which panics on
  a slice of the wrong size or alignment). \<open>sse42\<close> is the detected CPU feature.
\<close>

section \<open>Pages\<close>

definition PAGE_SIZE :: nat where
  "PAGE_SIZE = 4096"

definition HEADER_SIZE :: nat where
  "HEADER_SIZE = 64"

definition PAGE_CELLS :: nat where
  "PAGE_CELLS = (PAGE_SIZE - HEADER_SIZE) div 8"

record page_header =
  page_type :: u64
  tier_hint :: u64
  homogeneity :: u64
  ph_row_count :: u64
  checksum :: u64
  predecessor :: u64
  successor :: u64
  parity :: u64

definition compute_checksum :: "bool \<Rightarrow> u8 list \<Rightarrow> u64" where
  "compute_checksum sse42 cells = ucast (compute_crc32c sse42 cells)"

record page =
  header :: page_header
  cells :: "u8 list"

definition page_header_default :: page_header where
  "page_header_default = \<lparr>page_type = 0, tier_hint = 0, homogeneity = 0, ph_row_count = 0, checksum = 0,
     predecessor = 0, successor = 0, parity = 0\<rparr>"

definition page_new :: page where
  "page_new = \<lparr>header = page_header_default, cells = replicate (PAGE_SIZE - HEADER_SIZE) 0\<rparr>"

definition get_cell :: "page \<Rightarrow> nat \<Rightarrow> panic + u64" where
  "get_cell p index =
     (if \<not> index < PAGE_CELLS then Inl Assertion_Failed
      else let offset = index * 8
           in bind_panic (slice_range (cells p) offset (offset + 8)) (\<lambda>bs. Inr (from_le_bytes bs)))"

text \<open>\<open>copy_from_slice\<close> into the range \<open>offset .. offset + n\<close>.\<close>

definition copy_into :: "'a list \<Rightarrow> nat \<Rightarrow> 'a list \<Rightarrow> panic + 'a list" where
  "copy_into xs offset ys =
     bind_panic (slice_range xs offset (offset + length ys)) (\<lambda>_.
       Inr (take offset xs @ ys @ drop (offset + length ys) xs))"

definition set_cell :: "page \<Rightarrow> nat \<Rightarrow> u64 \<Rightarrow> panic + page" where
  "set_cell p index val =
     (if \<not> index < PAGE_CELLS then Inl Assertion_Failed
      else bind_panic (copy_into (cells p) (index * 8) (to_le_bytes 8 val)) (\<lambda>cs. Inr (p\<lparr>cells := cs\<rparr>)))"

definition as_u64_slice :: "page \<Rightarrow> u64 list" where
  "as_u64_slice p = map from_le_bytes (chunks_exact 8 (cells p))"

text \<open>The writes a caller makes through the mutable view, as a function on its words.\<close>

definition as_u64_slice_mut :: "(u64 list \<Rightarrow> u64 list) \<Rightarrow> page \<Rightarrow> page" where
  "as_u64_slice_mut f p = p\<lparr>cells := concat (map (to_le_bytes 8) (f (as_u64_slice p)))\<rparr>"

definition verify_checksum :: "bool \<Rightarrow> page \<Rightarrow> bool" where
  "verify_checksum sse42 p \<longleftrightarrow> (ucast (compute_crc32c sse42 (cells p)) :: u64) = checksum (header p)"

definition update_checksum :: "bool \<Rightarrow> page \<Rightarrow> page" where
  "update_checksum sse42 p =
     p\<lparr>header := (header p)\<lparr>checksum := ucast (compute_crc32c sse42 (cells p)), parity := compute_parity (cells p)\<rparr>\<rparr>"

section \<open>Repair\<close>

definition count_ones_u64 :: "u64 \<Rightarrow> nat" where
  "count_ones_u64 w = length (filter (bit w) [0..<64])"

definition trailing_zeros_u64 :: "u64 \<Rightarrow> nat" where
  "trailing_zeros_u64 w = length (takeWhile (\<lambda>i. \<not> bit w i) [0..<64])"

text \<open>\<open>{:#018x}\<close>\<close>

definition hex_digit :: "nat \<Rightarrow> char" where
  "hex_digit d = (if d < 10 then char_of (48 + d) else char_of (87 + d))"

definition show_hex018 :: "u64 \<Rightarrow> string" where
  "show_hex018 w = ''0x'' @ map (\<lambda>i. hex_digit (unat (take_bit 4 (drop_bit (4 * i) w)))) (rev [0..<16])"

text \<open>The search for the corrupted word: flip the bit in each word until the checksum matches.\<close>

fun repair_words :: "bool \<Rightarrow> nat \<Rightarrow> u8 \<Rightarrow> page \<Rightarrow> nat list \<Rightarrow> panic + page \<times> bool" where
  "repair_words sse42 byte_in_word flip_mask p [] = Inr (p, False)"
| "repair_words sse42 byte_in_word flip_mask p (word_idx # rest) =
     (let byte_idx = word_idx * 8 + byte_in_word
      in bind_panic (slice_index (cells p) byte_idx) (\<lambda>b.
         let p' = p\<lparr>cells := (cells p)[byte_idx := b XOR flip_mask]\<rparr>
         in if verify_checksum sse42 p' then Inr (p', True)
            else let p'' = p'\<lparr>cells := (cells p')[byte_idx := (cells p' ! byte_idx) XOR flip_mask]\<rparr>
                 in repair_words sse42 byte_in_word flip_mask p'' rest))"

definition verify_and_correct :: "bool \<Rightarrow> page \<Rightarrow> panic + page \<times> (string + bool)" where
  "verify_and_correct sse42 p =
     (if verify_checksum sse42 p then Inr (p, Inr False)
      else let syndrome = parity (header p) XOR compute_parity (cells p)
           in if count_ones_u64 syndrome \<noteq> 1
              then Inr (p, Inl (''uncorrectable corruption: syndrome = '' @ show_hex018 syndrome @ '' (''
                     @ show_nat (count_ones_u64 syndrome) @ '' bits set, expected 1)''))
              else let bit_pos = trailing_zeros_u64 syndrome;
                       byte_in_word = bit_pos div 8;
                       flip_mask = push_bit (bit_pos mod 8) 1
                   in bind_panic (repair_words sse42 byte_in_word flip_mask p [0..<length (cells p) div 8]) (\<lambda>(p', found).
                      Inr (p', if found then Inr True
                               else Inl (''uncorrectable corruption: syndrome = '' @ show_hex018 syndrome
                                      @ '' indicates a single bit, but no word flip repaired the CRC (stored CRC may itself be corrupt)''))))"

section \<open>Byte form\<close>

datatype page_error = Corruption string

definition page_to_bytes :: "(page_header \<Rightarrow> u8 list) \<Rightarrow> page \<Rightarrow> u8 list" where
  "page_to_bytes bytes_of p = bytes_of (header p) @ cells p"

definition page_write :: "bool \<Rightarrow> (page_header \<Rightarrow> u8 list) \<Rightarrow> page \<Rightarrow> page \<times> u8 list" where
  "page_write sse42 bytes_of p = (let p' = update_checksum sse42 p in (p', page_to_bytes bytes_of p'))"

definition page_from_bytes :: "(u8 list \<Rightarrow> panic + page_header) \<Rightarrow> u8 list \<Rightarrow> panic + (page_error + page)" where
  "page_from_bytes header_of bytes =
     (if length bytes < PAGE_SIZE
      then Inr (Inl (Corruption (''page too small: '' @ show_nat (length bytes) @ '' bytes'')))
      else bind_panic (header_of (take HEADER_SIZE bytes)) (\<lambda>h.
           bind_panic (slice_range bytes HEADER_SIZE PAGE_SIZE) (\<lambda>cs.
             Inr (Inr \<lparr>header = h, cells = cs\<rparr>))))"

definition page_read :: "bool \<Rightarrow> (u8 list \<Rightarrow> panic + page_header) \<Rightarrow> u8 list \<Rightarrow> panic + (page_error + page)" where
  "page_read sse42 header_of bytes =
     bind_panic (page_from_bytes header_of bytes) (\<lambda>r. Inr (case r of
        Inl e \<Rightarrow> Inl e
      | Inr p \<Rightarrow>
          if \<not> verify_checksum sse42 p
          then let all_zero = list_all (\<lambda>b. b = 0) (cells p) \<and> checksum (header p) = 0
               in if \<not> all_zero
                  then Inl (Corruption (''page checksum mismatch: stored '' @ show_hex018 (checksum (header p))
                         @ '', computed '' @ show_hex018 (ucast (compute_crc32c sse42 (cells p)))))
                  else Inr p
          else Inr p))"

text \<open>A page always holds 4032 bytes of cells.\<close>

definition page_ok :: "page \<Rightarrow> bool" where
  "page_ok p \<longleftrightarrow> length (cells p) = PAGE_SIZE - HEADER_SIZE"

lemmas page_consts = PAGE_SIZE_def HEADER_SIZE_def PAGE_CELLS_def

section \<open>Words and bytes\<close>

lemma chunks_exact_nth:
  "0 < k \<Longrightarrow> length (chunks_exact k xs) = length xs div k \<and>
     (\<forall>i < length xs div k. chunks_exact k xs ! i = take k (drop (i * k) xs))"
proof (induction k xs rule: chunks_exact.induct)
  case (1 k xs)
  show ?case
  proof (cases "k \<le> length xs")
    case True
    then have len: "length xs div k = Suc ((length xs - k) div k)"
      using 1 by (simp add: le_div_geq)
    have IH: "length (chunks_exact k (drop k xs)) = (length xs - k) div k"
        "\<forall>i < (length xs - k) div k. chunks_exact k (drop k xs) ! i = take k (drop (i * k) (drop k xs))"
      using 1 True by simp_all
    have unfolded: "chunks_exact k xs = take k xs # chunks_exact k (drop k xs)"
      using 1 True by (simp add: chunks_exact.simps [of k xs])
    have nth: "chunks_exact k xs ! i = take k (drop (i * k) xs)" if "i < length xs div k" for i
      using that IH len by (cases i) (simp_all add: unfolded add.commute)
    have "length (chunks_exact k xs) = length xs div k"
      using IH len by (simp only: unfolded list.size)
    then show ?thesis
      using nth by blast
  qed (simp add: chunks_exact.simps [of k xs] 1)
qed

lemmas chunks_exact_len = chunks_exact_nth [THEN conjunct1]
lemmas chunks_exact_at = chunks_exact_nth [THEN conjunct2, rule_format]

lemma chunks_exact_update:
  assumes "0 < k" "i < length xs" "k dvd length xs"
  shows "chunks_exact k (xs[i := v]) = (chunks_exact k xs)[i div k := (chunks_exact k xs ! (i div k))[i mod k := v]]"
proof (rule nth_equalityI)
  fix j
  assume "j < length (chunks_exact k (xs[i := v]))"
  then have j: "j < length xs div k"
    using assms by (simp add: chunks_exact_len)
  have "take k (drop (j * k) (xs[i := v])) = (if i div k = j then (take k (drop (j * k) xs))[i mod k := v] else take k (drop (j * k) xs))"
  proof (cases "i div k = j")
    case True
    then have "i = j * k + i mod k"
      by (metis div_mult_mod_eq)
    then have "drop (j * k) (xs[i := v]) = (drop (j * k) xs)[i mod k := v]"
      by (metis drop_update_swap le_add1 add_diff_cancel_left')
    then show ?thesis
      using True by (simp add: take_update_swap)
  next
    case False
    then consider "i < j * k" | "j * k + k \<le> i"
      using assms(1) by (metis add.commute div_less_iff_less_mult leI less_mult_imp_div_less linorder_neqE_nat
          mult_Suc not_less_eq div_mult_mod_eq)
    then show ?thesis
    proof cases
      case 2
      then have "drop (j * k) (xs[i := v]) = (drop (j * k) xs)[i - j * k := v]"
        by (simp add: drop_update_swap)
      then show ?thesis
        using False 2 by (simp add: take_update_cancel)
    qed (use False in \<open>simp add: drop_update_cancel\<close>)
  qed
  then show "chunks_exact k (xs[i := v]) ! j = (chunks_exact k xs)[i div k := (chunks_exact k xs ! (i div k))[i mod k := v]] ! j"
    using assms j by (simp add: chunks_exact_at chunks_exact_len nth_list_update)
qed (use assms in \<open>simp add: chunks_exact_len\<close>)

lemma from_le_bytes_flip:
  assumes "j < length bs"
  shows "from_le_bytes (bs[j := bs ! j XOR x]) = from_le_bytes bs XOR (push_bit (8 * j) (ucast x) :: 'a::len word)"
proof (rule bit_word_eqI)
  fix k
  assume "k < LENGTH('a)"
  moreover have "k div 8 = j \<longleftrightarrow> 8 * j \<le> k \<and> k - 8 * j < 8"
    by linarith
  ultimately show "bit (from_le_bytes (bs[j := bs ! j XOR x]) :: 'a word) k = bit (from_le_bytes bs XOR (push_bit (8 * j) (ucast x) :: 'a::len word)) k"
    using assms
    by (auto simp: bit_from_le_bytes bit_xor_iff bit_push_bit_iff bit_ucast_iff nth_list_update
        minus_mult_div_eq_mod [symmetric] dest: bit_imp_le_length)
qed

section \<open>Parity and syndrome\<close>

lemma fold_xor_acc: "fold (\<lambda>w acc. acc XOR f w) ws (a XOR b) = fold (\<lambda>w acc. acc XOR f w) ws a XOR b" for b :: "'a::len word"
proof (induction ws arbitrary: a)
  case (Cons w ws)
  have "(a XOR b) XOR f w = (a XOR f w) XOR b"
    by (simp only: xor.assoc xor.commute [of b])
  then show ?case
    using Cons by simp
qed simp

lemma fold_xor_update:
  assumes "i < length ws" "f w' = f (ws ! i) XOR d"
  shows "fold (\<lambda>w acc. acc XOR f w) (ws[i := w']) a = fold (\<lambda>w acc. acc XOR f w) ws a XOR (d :: 'a::len word)"
proof -
  let ?g = "\<lambda>w acc. acc XOR f w"
  let ?post = "drop (Suc i) ws" and ?acc = "fold ?g (take i ws) a"
  have "fold ?g (ws[i := w']) a = fold ?g ?post (?acc XOR f w')"
    using assms(1) by (simp add: upd_conv_take_nth_drop)
  also have "\<dots> = fold ?g ?post (?acc XOR f (ws ! i)) XOR d"
    by (simp only: assms(2) fold_xor_acc flip: xor.assoc)
  also have "fold ?g ?post (?acc XOR f (ws ! i)) = fold ?g ws a"
    using assms(1) id_take_nth_drop [of i ws] by (metis fold_append fold_simps(2) comp_apply)
  finally show ?thesis .
qed

lemma page_words: "page_ok p \<Longrightarrow> length (cells p) = 4032 \<and> chunks_remainder 8 (cells p) = [] \<and> length (cells p) div 8 = 504"
  by (simp add: page_ok_def page_consts chunks_remainder_def)

lemma compute_parity_flip:
  assumes "page_ok p" "i < length (cells p)"
  shows "compute_parity ((cells p)[i := cells p ! i XOR x]) = compute_parity (cells p) XOR push_bit (8 * (i mod 8)) (ucast x)"
proof -
  let ?cs = "chunks_exact 8 (cells p)"
  have i: "i div 8 < length ?cs" "i < 4032"
    using assms by (simp_all add: page_words chunks_exact_len)
  then have chunk: "?cs ! (i div 8) = take 8 (drop (i div 8 * 8) (cells p))"
    using assms by (simp add: chunks_exact_at page_words)
  have room: "i mod 8 < 4032 - i div 8 * 8"
    using i(2) by presburger
  have byte: "?cs ! (i div 8) ! (i mod 8) = cells p ! i" "i mod 8 < length (?cs ! (i div 8))"
    using i assms(1) room by (simp_all add: chunk page_words)
  have "from_le_bytes ((?cs ! (i div 8))[i mod 8 := cells p ! i XOR x]) = from_le_bytes (?cs ! (i div 8)) XOR (push_bit (8 * (i mod 8)) (ucast x) :: u64)"
    using from_le_bytes_flip [OF byte(2), of x] by (simp only: byte(1))
  then have "fold (\<lambda>chunk parity. parity XOR from_le_bytes chunk) (?cs[i div 8 := (?cs ! (i div 8))[i mod 8 := cells p ! i XOR x]]) 0
      = fold (\<lambda>chunk parity. parity XOR from_le_bytes chunk) ?cs 0 XOR (push_bit (8 * (i mod 8)) (ucast x) :: u64)"
    by (rule fold_xor_update [OF i(1)])
  moreover have "chunks_remainder 8 ((cells p)[i := v]) = []" for v
    using assms(1) page_words [of p] by (simp add: chunks_remainder_def)
  moreover have "chunks_exact 8 ((cells p)[i := cells p ! i XOR x]) = ?cs[i div 8 := (?cs ! (i div 8))[i mod 8 := cells p ! i XOR x]]"
    using assms page_words [of p] by (intro chunks_exact_update) simp_all
  ultimately show ?thesis
    using assms(1) page_words [of p] by (simp add: compute_parity_def)
qed

lemma bit_push_one: "bit (push_bit pos 1 :: 'a::len word) i \<longleftrightarrow> i = pos \<and> pos < LENGTH('a)"
  by (auto simp: bit_push_bit_iff bit_1_iff simp del: push_bit_of_1)

lemma filter_upt_eq: "pos < n \<Longrightarrow> filter (\<lambda>i. i = pos) [0..<n] = [pos]"
  by (induction n) (auto simp: less_Suc_eq)

lemma takeWhile_upt_neq:
  assumes "pos < n"
  shows "takeWhile (\<lambda>i. i \<noteq> pos) [0..<n] = [0..<pos]"
proof -
  have "[0..<n] = [0..<pos] @ pos # [Suc pos..<n]"
    using assms upt_add_eq_append [of 0 pos "n - pos"] by (simp add: upt_conv_Cons)
  then show ?thesis
    using takeWhile_append2 [of "[0..<pos]" "\<lambda>i. i \<noteq> pos" "pos # [Suc pos..<n]"] by simp
qed

lemma one_bit_syndrome:
  assumes "pos < 64"
  shows "count_ones_u64 (push_bit pos 1) = 1" "trailing_zeros_u64 (push_bit pos 1) = pos"
proof -
  have bits: "bit (push_bit pos 1 :: u64) = (\<lambda>i. i = pos)"
    using assms by (intro ext) (simp add: bit_push_one del: push_bit_of_1)
  show "count_ones_u64 (push_bit pos 1) = 1"
    using assms by (simp only: count_ones_u64_def bits) (simp add: filter_upt_eq)
  show "trailing_zeros_u64 (push_bit pos 1) = pos"
    using assms by (simp only: trailing_zeros_u64_def bits) (simp add: takeWhile_upt_neq)
qed

lemma count_ones_1D:
  assumes "count_ones_u64 w = 1"
  shows "trailing_zeros_u64 w < 64 \<and> w = push_bit (trailing_zeros_u64 w) 1"
proof -
  obtain pos where pos: "filter (bit w) [0..<64] = [pos]"
    using assms by (auto simp: count_ones_u64_def length_Suc_conv)
  have "set (filter (bit w) [0..<64]) = {pos}"
    by (simp only: pos) simp
  then have "{i. i < 64 \<and> bit w i} = {pos}"
    by (simp only: set_filter set_upt atLeastLessThan_iff) simp
  then have bits: "i < 64 \<and> bit w i \<longleftrightarrow> i = pos" for i
    by (simp add: set_eq_iff)
  then have pos64: "pos < 64"
    by blast
  have "bit w i = bit (push_bit pos 1 :: u64) i" if "i < 64" for i
    using bits [of i] that pos64 by (simp add: bit_push_one del: push_bit_of_1)
  then have "w = push_bit pos 1"
    by (intro bit_word_eqI) (simp del: push_bit_of_1)
  then show ?thesis
    using pos64 by (simp add: one_bit_syndrome del: push_bit_of_1)
qed

section \<open>Repair\<close>

definition flip_byte :: "nat \<Rightarrow> u8 \<Rightarrow> page \<Rightarrow> page" where
  "flip_byte i x p = p\<lparr>cells := (cells p)[i := (cells p ! i) XOR x]\<rparr>"

lemma flip_byte_simps [simp]:
  "header (flip_byte i x p) = header p" "page_ok (flip_byte i x p) = page_ok p"
  "length (cells (flip_byte i x p)) = length (cells p)"
  by (simp_all add: flip_byte_def page_ok_def)

lemma flip_byte_twice [simp]: "flip_byte i x (flip_byte i x p) = p"
proof (cases "i < length (cells p)")
  case True
  have "(cells p ! i XOR x) XOR x = cells p ! i"
    by (simp only: xor.assoc xor_self_eq xor.right_neutral)
  then have "(cells p)[i := (cells p ! i XOR x) XOR x] = cells p"
    by simp
  then show ?thesis
    using True by (simp add: flip_byte_def)
qed (simp add: flip_byte_def list_update_beyond)

lemma verify_checksum_scalar: "verify_checksum sse42 p \<longleftrightarrow> ucast (crc32c_scalar (cells p)) = checksum (header p)"
  by (simp add: verify_checksum_def compute_crc32c_scalar)

text \<open>The repair loop takes the first word whose flip satisfies the checksum, and undoes every other.\<close>

lemma repair_words_find:
  assumes "\<And>w. w \<in> set ws \<Longrightarrow> w * 8 + j < length (cells p)"
  shows "repair_words sse42 j x p ws =
    Inr (case find (\<lambda>w. verify_checksum sse42 (flip_byte (w * 8 + j) x p)) ws of
           None \<Rightarrow> (p, False) | Some w \<Rightarrow> (flip_byte (w * 8 + j) x p, True))"
  using assms
proof (induction ws)
  case (Cons w ws)
  let ?i = "w * 8 + j"
  have i: "?i < length (cells p)"
    using Cons.prems by simp
  have flip: "p\<lparr>cells := (cells p)[?i := cells p ! ?i XOR x]\<rparr> = flip_byte ?i x p"
    by (simp add: flip_byte_def)
  have undo: "(flip_byte ?i x p)\<lparr>cells := (cells (flip_byte ?i x p))[?i := cells (flip_byte ?i x p) ! ?i XOR x]\<rparr> = p"
    using flip_byte_twice [of ?i x p] by (simp only: flip_byte_def [of ?i x "flip_byte ?i x p"])
  have "repair_words sse42 j x p (w # ws) =
      (if verify_checksum sse42 (flip_byte ?i x p) then Inr (flip_byte ?i x p, True) else repair_words sse42 j x p ws)"
    using i by (simp only: repair_words.simps Let_def slice_access_ok(1) bind_panic_simps flip undo)
  then show ?case
    using Cons by simp
qed simp

text \<open>After one flipped bit, a flip at another word never satisfies the checksum.\<close>

lemma push_bit_u8_u32: "k < 8 \<Longrightarrow> ucast (push_bit k 1 :: u8) = (push_bit k 1 :: u32)"
  by (rule bit_word_eqI) (simp add: bit_ucast_iff bit_push_one del: push_bit_of_1)

lemma push_bit_u8_u64: "k < 8 \<Longrightarrow> push_bit (8 * j) (ucast (push_bit k 1 :: u8)) = (push_bit (8 * j + k) 1 :: u64)"
proof -
  assume "k < 8"
  then have "ucast (push_bit k 1 :: u8) = (push_bit k 1 :: u64)"
    by (intro bit_word_eqI) (simp add: bit_ucast_iff bit_push_one del: push_bit_of_1)
  then show ?thesis
    by (simp only: push_bit_push_bit)
qed

lemma crc_bits_distinct:
  assumes "i < 4032" "i' < 4032" "i mod 8 = i' mod 8" "k < 8"
    "(crc_round ^^ (8 * (4032 - i))) (push_bit k 1) = (crc_round ^^ (8 * (4032 - i'))) (push_bit k 1)"
  shows "i = i'"
proof -
  have ne: "\<not> a < b" if "(crc_round ^^ (8 * (4032 - a))) (push_bit k 1) = (crc_round ^^ (8 * (4032 - b))) (push_bit k 1)"
    "a < 4032" "b < 4032" "a mod 8 = b mod 8" for a b
  proof
    assume "a < b"
    define A B r where "A = a div 8" and "B = b div 8" and "r = a mod 8"
    then have "a = 8 * A + r" "b = 8 * B + r"
      using that(4) by (metis mult_div_mod_eq)+
    then have d: "0 < B - A" "B - A \<le> 503" "8 * (4032 - a) = 8 * (4032 - b) + 64 * (B - A)"
      using \<open>a < b\<close> that(2,3) by linarith+
    have "(crc_round ^^ (8 * (4032 - b))) ((crc_round ^^ (64 * (B - A))) (push_bit k 1)) = (crc_round ^^ (8 * (4032 - b))) (push_bit k 1)"
      using that(1) by (simp only: d(3) funpow_add comp_apply)
    then have "(crc_round ^^ (64 * (B - A))) (push_bit k 1) = push_bit k 1"
      by (simp only: crc_rounds_inj)
    then show False
      using words_not_period [OF d(1,2), of k] assms(4) by simp
  qed
  show ?thesis
    using ne [of i i'] ne [of i' i] assms by (metis linorder_neqE_nat)
qed

lemma checksum_after_flip:
  assumes "page_ok p" "i < length (cells p)" "k < 8"
  shows "crc32c_scalar (cells (flip_byte i (push_bit k 1) p)) = crc32c_scalar (cells p) XOR (crc_round ^^ (8 * (4032 - i))) (push_bit k 1)"
  using crc_flip_byte [OF assms(2), of "push_bit k 1"] assms
  by (simp add: flip_byte_def page_words push_bit_u8_u32 del: push_bit_of_1)

lemma ucast_u32_u64_inj: "(ucast (x :: u32) :: u64) = ucast y \<longleftrightarrow> x = y"
  by (metis ucast_down_up)

lemma xor_cancel_left: "a XOR b = a \<longleftrightarrow> b = 0" for a b :: "'a::len word"
  by (metis xor.assoc xor_self_eq xor.left_neutral xor.right_neutral)

lemma flip_detected:
  assumes "page_ok p" "i < length (cells p)" "k < 8" "verify_checksum sse42 p"
  shows "\<not> verify_checksum sse42 (flip_byte i (push_bit k 1) p)"
proof -
  have "bit (push_bit k 1 :: u32) k"
    using assms(3) by (simp add: bit_push_one del: push_bit_of_1)
  then have "push_bit k 1 \<noteq> (0 :: u32)"
    by (metis bit_0_eq bot_apply bot_bool_def)
  then have "(crc_round ^^ n) (push_bit k 1) \<noteq> 0" for n
    using crc_rounds_inj [of n "push_bit k 1" 0] by simp
  then have "crc32c_scalar (cells (flip_byte i (push_bit k 1) p)) \<noteq> crc32c_scalar (cells p)"
    by (simp only: checksum_after_flip [OF assms(1-3)] xor_cancel_left) simp
  then show ?thesis
    using assms(4) unfolding verify_checksum_scalar flip_byte_simps by (metis ucast_u32_u64_inj)
qed

lemma find_unique:
  assumes "w \<in> set ws" "P w" "\<And>v. v \<in> set ws \<Longrightarrow> P v \<Longrightarrow> v = w"
  shows "find P ws = Some w"
proof (cases "find P ws")
  case None
  then show ?thesis
    using assms(1,2) by (auto simp: find_None_iff)
next
  case (Some v)
  then have "v \<in> set ws" "P v"
    by (auto simp: find_Some_iff)
  then show ?thesis
    using Some assms(3) by blast
qed

lemma word_byte_bound: "w < n div 8 \<Longrightarrow> w * 8 + i mod 8 < n" for w n i :: nat
proof -
  assume "w < n div 8"
  then have "Suc w * 8 \<le> n"
    by (metis Suc_leI less_eq_div_iff_mult_less_eq zero_less_numeral)
  moreover have "i mod 8 < 8"
    by simp
  ultimately show ?thesis
    unfolding mult_Suc by linarith
qed

lemma repair_single:
  assumes ok: "page_ok p" "verify_checksum sse42 p" "i < length (cells p)" "k < 8"
    and n: "n = length (cells p) div 8"
  shows "repair_words sse42 (i mod 8) (push_bit k 1) (flip_byte i (push_bit k 1) p) [0..<n] = Inr (p, True)"
proof -
  let ?x = "push_bit k 1 :: u8" and ?q = "flip_byte i (push_bit k 1) p"
  have i: "i < 4032" "i div 8 * 8 + i mod 8 = i" "i div 8 \<in> set [0..<n]"
    using ok page_words [of p] by (simp_all add: n less_mult_imp_div_less del: upt_rec_numeral)
  have bound: "w * 8 + i mod 8 < 4032" if "w \<in> set [0..<n]" for w
    using that word_byte_bound [of w 4032 i] page_words [OF ok(1)] by (simp add: n)
  have here: "v = i div 8" if v: "v \<in> set [0..<n]" "verify_checksum sse42 (flip_byte (v * 8 + i mod 8) ?x ?q)" for v
  proof -
    let ?j = "v * 8 + i mod 8"
    have j: "?j < 4032"
      by (rule bound [OF v(1)])
    have "crc32c_scalar (cells (flip_byte ?j ?x ?q)) = crc32c_scalar (cells p)"
      using v(2) ok(2) unfolding verify_checksum_scalar flip_byte_simps by (metis ucast_u32_u64_inj)
    moreover have "crc32c_scalar (cells (flip_byte ?j ?x ?q)) =
        crc32c_scalar (cells p) XOR (crc_round ^^ (8 * (4032 - i))) (push_bit k 1) XOR (crc_round ^^ (8 * (4032 - ?j))) (push_bit k 1)"
      using ok j page_words [of p] checksum_after_flip [of ?q ?j k] checksum_after_flip [of p i k] by (simp add: xor.assoc)
    ultimately have "(crc_round ^^ (8 * (4032 - i))) (push_bit k 1) = (crc_round ^^ (8 * (4032 - ?j))) (push_bit k 1)"
      by (simp only: xor.assoc xor_cancel_left xor_eq_0_iff)
    then have "i = ?j"
      by (rule crc_bits_distinct [OF i(1) j, rotated 2]) (use ok in simp_all)
    then show ?thesis
      by presburger
  qed
  have "find (\<lambda>w. verify_checksum sse42 (flip_byte (w * 8 + i mod 8) ?x ?q)) [0..<n] = Some (i div 8)"
    by (rule find_unique [OF i(3) _ here]) (simp_all only: i(2) flip_byte_twice ok(2))
  moreover have "w * 8 + i mod 8 < length (cells ?q)" if "w \<in> set [0..<n]" for w
    using bound [OF that] page_words [OF ok(1)] by simp
  ultimately show ?thesis
    by (simp only: repair_words_find option.case i(2) flip_byte_twice)
qed

text \<open>The parity of a page that differs in one bit from a page with a stored parity.\<close>

lemma single_bit_parity:
  assumes "page_ok p" "parity (header p) = compute_parity (cells p)" "i < length (cells p)" "k < 8"
  shows "parity (header p) XOR compute_parity (cells (flip_byte i (push_bit k 1) p)) = push_bit (8 * (i mod 8) + k) 1"
proof -
  have "compute_parity (cells (flip_byte i (push_bit k 1) p)) = compute_parity (cells p) XOR push_bit (8 * (i mod 8) + k) 1"
    using compute_parity_flip [OF assms(1,3), of "push_bit k 1"] assms(4)
    by (simp add: flip_byte_def push_bit_u8_u64 del: push_bit_of_1)
  then show ?thesis
    by (simp only: assms(2)) (simp only: xor.assoc [symmetric] xor_self_eq xor.left_neutral)
qed

section \<open>Cells as words\<close>

lemma concat_uniform:
  assumes "\<forall>c \<in> set cs. length c = k"
  shows "length (concat cs) = length cs * k"
    "take (i * k) (concat cs) = concat (take i cs)" "drop (i * k) (concat cs) = concat (drop i cs)"
proof -
  show len: "length (concat cs) = length cs * k"
    using assms by (induction cs) auto
  show "take (i * k) (concat cs) = concat (take i cs)"
    using assms by (induction cs arbitrary: i) (auto simp: take_Cons split: nat.split)
  show "drop (i * k) (concat cs) = concat (drop i cs)"
    using assms by (induction cs arbitrary: i) (auto simp: drop_Cons split: nat.split)
qed

lemma chunks_exact_concat:
  assumes "0 < k" "\<forall>c \<in> set cs. length c = k"
  shows "chunks_exact k (concat cs) = cs"
  using assms(2)
proof (induction cs)
  case (Cons c cs)
  then show ?case
    using assms(1) chunks_exact.simps [of k "concat (c # cs)"] by simp
qed (use assms(1) in \<open>simp add: chunks_exact.simps\<close>)

lemma page_chunks:
  assumes "page_ok p"
  shows "concat (chunks_exact 8 (cells p)) = cells p" "length (chunks_exact 8 (cells p)) = 504"
    "\<forall>c \<in> set (chunks_exact 8 (cells p)). length c = 8"
  using concat_chunks_exact [of 8 "cells p"] page_words [OF assms] by (auto simp: chunks_exact_len chunks_exact_length)

lemma to_le_bytes_length [simp]: "length (to_le_bytes n w) = n"
  by (simp add: to_le_bytes_def)

lemma cells_of_words:
  assumes "page_ok p"
  shows "concat (map (to_le_bytes 8) (as_u64_slice p)) = cells p" "length (as_u64_slice p) = 504"
proof -
  have "map (to_le_bytes 8) (map (from_le_bytes :: _ \<Rightarrow> u64) cs) = cs" if "\<forall>c \<in> set cs. length c = 8" for cs
    using that by (induction cs) (simp_all add: to_from_le_bytes)
  then show "concat (map (to_le_bytes 8) (as_u64_slice p)) = cells p"
    using page_chunks [OF assms] by (simp add: as_u64_slice_def)
  show "length (as_u64_slice p) = 504"
    using page_chunks [OF assms] by (simp add: as_u64_slice_def)
qed

lemma as_u64_slice_mut_ok:
  assumes "length (f (as_u64_slice p)) = 504"
  shows "page_ok (as_u64_slice_mut f p)" "as_u64_slice (as_u64_slice_mut f p) = f (as_u64_slice p)"
proof -
  show "page_ok (as_u64_slice_mut f p)"
    using assms concat_uniform(1) [of "map (to_le_bytes 8) (f (as_u64_slice p))" 8]
    by (simp add: page_ok_def as_u64_slice_mut_def page_consts)
  have "map from_le_bytes (map (to_le_bytes 8) ws) = ws" for ws :: "u64 list"
    by (induction ws) (simp_all add: from_to_le_bytes)
  then show "as_u64_slice (as_u64_slice_mut f p) = f (as_u64_slice p)"
    by (simp add: as_u64_slice_def as_u64_slice_mut_def chunks_exact_concat del: map_map)
qed

lemma get_cell_word:
  assumes "page_ok p" "i < 504"
  shows "get_cell p i = Inr (as_u64_slice p ! i)"
proof -
  have "slice_range (cells p) (i * 8) (i * 8 + 8) = Inr (drop (i * 8) (take (i * 8 + 8) (cells p)))"
    using assms page_words [OF assms(1)] by (simp add: slice_range_def)
  moreover have "drop (i * 8) (take (i * 8 + 8) (cells p)) = take 8 (drop (i * 8) (cells p))"
    by (simp add: drop_take)
  ultimately show ?thesis
    using assms page_words [OF assms(1)] page_chunks(2) [OF assms(1)]
    by (simp add: get_cell_def page_consts as_u64_slice_def chunks_exact_at)
qed

lemma set_cell_word:
  assumes "page_ok p" "i < 504"
  shows "set_cell p i v = Inr (as_u64_slice_mut (\<lambda>ws. ws[i := v]) p)"
proof -
  let ?cs = "map (to_le_bytes 8) (as_u64_slice p)"
  have uni: "\<forall>c \<in> set ?cs. length c = 8"
    by simp
  have "concat (map (to_le_bytes 8) ((as_u64_slice p)[i := v])) = concat (take i ?cs) @ to_le_bytes 8 v @ concat (drop (Suc i) ?cs)"
    using assms cells_of_words(2) [OF assms(1)] by (simp add: upd_conv_take_nth_drop take_map drop_map)
  also have "\<dots> = take (i * 8) (cells p) @ to_le_bytes 8 v @ drop (i * 8 + 8) (cells p)"
    using concat_uniform(2) [OF uni, of i] concat_uniform(3) [OF uni, of "Suc i"] cells_of_words(1) [OF assms(1)]
    by (simp add: add.commute)
  finally show ?thesis
    using assms page_words [OF assms(1)]
    by (simp add: set_cell_def copy_into_def page_consts slice_range_def as_u64_slice_mut_def)
qed

section \<open>Pages as bytes\<close>

lemma from_bytes_layout:
  assumes "length hb = HEADER_SIZE" "length cs = PAGE_SIZE - HEADER_SIZE" "header_of hb = Inr h"
  shows "page_from_bytes header_of (hb @ cs @ rest) = Inr (Inr \<lparr>header = h, cells = cs\<rparr>)"
  using assms by (simp add: page_from_bytes_def slice_range_def page_consts)

text \<open>The \<open>repr(C)\<close> layout of the header on a little-endian machine, for concrete pages.\<close>

definition header_bytes :: "page_header \<Rightarrow> u8 list" where
  "header_bytes h = concat (map (to_le_bytes 8)
     [page_type h, tier_hint h, homogeneity h, ph_row_count h, checksum h, predecessor h, successor h, parity h])"

definition header_decode :: "u8 list \<Rightarrow> panic + page_header" where
  "header_decode bs =
     (case map from_le_bytes (chunks_exact 8 bs) of
        [a, b, c, d, e, f, g, h] \<Rightarrow> Inr \<lparr>page_type = a, tier_hint = b, homogeneity = c, ph_row_count = d, checksum = e,
          predecessor = f, successor = g, parity = h\<rparr>
      | _ \<Rightarrow> Inl Assertion_Failed)"

lemma header_codec: "header_decode (header_bytes h) = Inr h" "length (header_bytes h) = HEADER_SIZE"
proof -
  have "chunks_exact 8 (header_bytes h) = map (to_le_bytes 8)
     [page_type h, tier_hint h, homogeneity h, ph_row_count h, checksum h, predecessor h, successor h, parity h]"
    unfolding header_bytes_def by (rule chunks_exact_concat) simp_all
  then show "header_decode (header_bytes h) = Inr h"
    by (simp add: header_decode_def from_to_le_bytes)
qed (simp add: header_bytes_def page_consts)

section \<open>Properties\<close>

text \<open>C19. \<open>compute_crc32c\<close> returns the same checksum with the SSE4.2 instructions (eight bytes at a time and
  the four-, two- and one-byte tails) as with the bit-by-bit loop, on every byte string.\<close>

theorem crc32c_paths_agree: "compute_crc32c True bytes = compute_crc32c False bytes"
  by (simp add: compute_crc32c_scalar)

text \<open>C17. Single-bit error correction: if any one bit of the 4032 payload bytes of a page with fresh
  checksum and parity is flipped, \<open>verify_and_correct\<close> reports a repair and restores the page exactly,
  header and cells.\<close>

theorem verify_and_correct_repairs_single_bit:
  assumes "page_ok p" "i < length (cells p)" "k < 8"
  shows "verify_and_correct sse42 (flip_byte i (push_bit k 1) (update_checksum sse42 p)) = Inr (update_checksum sse42 p, Inr True)"
proof -
  let ?p = "update_checksum sse42 p"
  let ?q = "flip_byte i (push_bit k 1) ?p" and ?pos = "8 * (i mod 8) + k"
  have ok: "page_ok ?p" "verify_checksum sse42 ?p" "i < length (cells ?p)" "parity (header ?p) = compute_parity (cells ?p)"
    using assms by (simp_all add: update_checksum_def page_ok_def verify_checksum_def)
  have pos: "?pos < 64"
    using assms(3) mod_less_divisor [of 8 i] by linarith
  have parts: "?pos div 8 = i mod 8" "?pos mod 8 = k"
    using assms(3) by simp_all
  have syn: "parity (header ?q) XOR compute_parity (cells ?q) = push_bit ?pos 1"
    using single_bit_parity [OF ok(1,4,3) assms(3)] by simp
  have "repair_words sse42 (i mod 8) (push_bit k 1) ?q [0..<length (cells ?q) div 8] = Inr (?p, True)"
    by (rule repair_single [OF ok(1,2,3) assms(3)]) simp
  then show ?thesis
    using flip_detected [OF ok(1,3) assms(3) ok(2)]
    unfolding verify_and_correct_def Let_def syn one_bit_syndrome [OF pos] parts by simp
qed

lemma page_new_ok: "page_ok page_new"
  by (simp add: page_ok_def page_new_def)

theorem verify_and_correct_repairs_single_bit_witness:
  "page_ok page_new \<and> 10 < length (cells page_new) \<and> (3 :: nat) < 8
   \<and> verify_and_correct True (flip_byte 10 (push_bit 3 1) (update_checksum True page_new)) = Inr (update_checksum True page_new, Inr True)"
  using verify_and_correct_repairs_single_bit [of page_new 10 3 True] page_new_ok page_words [OF page_new_ok] by simp

text \<open>When the flip of one bit makes the stored parity match, the syndrome points at that bit.\<close>

lemma flip_syndrome:
  assumes "page_ok p" "i < length (cells p)" "k < 8" "compute_parity (cells (flip_byte i (push_bit k 1) p)) = parity (header p)"
  shows "parity (header p) XOR compute_parity (cells p) = push_bit (8 * (i mod 8) + k) 1"
proof -
  have "parity (header p) = compute_parity (cells p) XOR push_bit (8 * (i mod 8) + k) 1"
    using compute_parity_flip [OF assms(1,2), of "push_bit k 1"] assms(3,4)
    by (simp add: flip_byte_def push_bit_u8_u64 del: push_bit_of_1)
  then show ?thesis
    by (simp only: xor.commute [of "compute_parity (cells p)"] xor.assoc xor_self_eq xor.right_neutral)
qed

lemma flip_candidate:
  assumes "page_ok p" "i < length (cells p)" "k < 8" "compute_parity (cells (flip_byte i (push_bit k 1) p)) = parity (header p)"
    and "syn = parity (header p) XOR compute_parity (cells p)"
  shows "count_ones_u64 syn = 1" "trailing_zeros_u64 syn = 8 * (i mod 8) + k"
proof -
  have "8 * (i mod 8) + k < 64"
    using assms(3) mod_less_divisor [of 8 i] by linarith
  then show "count_ones_u64 syn = 1" "trailing_zeros_u64 syn = 8 * (i mod 8) + k"
    unfolding assms(5) flip_syndrome [OF assms(1-4)] using one_bit_syndrome by blast+
qed

lemma repaired_parity:
  assumes "page_ok p" "i < length (cells p)" "k < 8" "parity (header p) XOR compute_parity (cells p) = push_bit (8 * (i mod 8) + k) 1"
  shows "compute_parity (cells (flip_byte i (push_bit k 1) p)) = parity (header p)"
proof -
  have "compute_parity (cells (flip_byte i (push_bit k 1) p)) =
      compute_parity (cells p) XOR (parity (header p) XOR compute_parity (cells p))"
    using compute_parity_flip [OF assms(1,2), of "push_bit k 1"] assms(3)
    unfolding assms(4) by (simp add: flip_byte_def push_bit_u8_u64 del: push_bit_of_1)
  then show ?thesis
    by (simp only: xor.commute [of "parity (header p)"]) (simp only: xor.assoc [symmetric] xor_self_eq xor.left_neutral)
qed

text \<open>C18. Soundness and completeness of the repair on an arbitrary page: \<open>verify_and_correct\<close> never panics
  and never touches the header. It answers \<open>Ok(false)\<close> exactly when the stored checksum matches, without
  looking at the parity, and then leaves the page as it was. On \<open>Ok(true)\<close> the page differs from the input
  in one bit, and both the stored checksum and the stored parity match it. On an error the page is left as it
  was, its checksum does not match, and no change of a single bit would make both fields match.\<close>

theorem verify_and_correct_sound:
  assumes "page_ok p"
  shows "\<exists>p' r. verify_and_correct sse42 p = Inr (p', r) \<and> header p' = header p \<and> (r = Inr False \<longleftrightarrow> verify_checksum sse42 p)
    \<and> (case r of
         Inr False \<Rightarrow> p' = p
       | Inr True \<Rightarrow> verify_checksum sse42 p' \<and> compute_parity (cells p') = parity (header p')
           \<and> (\<exists>i k. i < length (cells p) \<and> k < 8 \<and> p' = flip_byte i (push_bit k 1) p)
       | Inl msg \<Rightarrow> p' = p \<and> \<not> verify_checksum sse42 p \<and>
           \<not> (\<exists>i k. i < length (cells p) \<and> k < 8 \<and> verify_checksum sse42 (flip_byte i (push_bit k 1) p) \<and>
                compute_parity (cells (flip_byte i (push_bit k 1) p)) = parity (header p)))"
proof (cases "verify_checksum sse42 p")
  case True
  then show ?thesis
    by (simp add: verify_and_correct_def)
next
  case bad: False
  define syn where "syn = parity (header p) XOR compute_parity (cells p)"
  note cand = flip_candidate [OF assms _ _ _ syn_def]
  show ?thesis
  proof (cases "count_ones_u64 syn = 1")
    case False
    then show ?thesis
      using bad cand by (auto simp: verify_and_correct_def Let_def simp flip: syn_def)
  next
    case True
    define pos where "pos = trailing_zeros_u64 syn"
    define j where "j = pos div 8"
    define x where "x = (push_bit (pos mod 8) 1 :: u8)"
    define n where "n = length (cells p) div 8"
    have pos: "pos < 64" "syn = push_bit pos 1"
      using count_ones_1D [OF True] by (simp_all add: pos_def)
    then have j: "j mod 8 = j" "8 * j + pos mod 8 = pos"
      by (simp_all add: j_def)
    let ?P = "\<lambda>w. verify_checksum sse42 (flip_byte (w * 8 + j) x p)"
    have bound: "w * 8 + j < length (cells p)" if "w \<in> set [0..<n]" for w
      using that word_byte_bound [of w "length (cells p)" j] j by (simp add: n_def)
    then have run: "repair_words sse42 j x p [0..<n] =
        Inr (case find ?P [0..<n] of None \<Rightarrow> (p, False) | Some w \<Rightarrow> (flip_byte (w * 8 + j) x p, True))"
      by (rule repair_words_find)
    show ?thesis
    proof (cases "find ?P [0..<n]")
      case None
      have "\<not> verify_checksum sse42 (flip_byte i (push_bit k 1) p)"
        if "i < length (cells p)" "k < 8" "compute_parity (cells (flip_byte i (push_bit k 1) p)) = parity (header p)" for i k
      proof -
        have "j = i mod 8" "x = push_bit k 1"
          using cand [OF that] that(2) by (simp_all add: pos_def j_def x_def)
        moreover have "i div 8 \<in> set [0..<n]"
          using that(1) page_words [OF assms] by (simp add: n_def less_mult_imp_div_less)
        ultimately show ?thesis
          using None by (auto simp: find_None_iff mult.commute simp del: push_bit_of_1)
      qed
      then show ?thesis
        using bad True run None
        by (auto simp: verify_and_correct_def Let_def simp del: push_bit_of_1 simp flip: syn_def pos_def j_def x_def n_def)
    next
      case (Some w)
      then have w: "w \<in> set [0..<n]" "?P w"
        by (auto simp: find_Some_iff)
      let ?i = "w * 8 + j"
      have par: "compute_parity (cells (flip_byte ?i x p)) = parity (header p)"
        unfolding x_def using j pos by (intro repaired_parity [OF assms bound [OF w(1)]]) (simp_all add: syn_def [symmetric] del: push_bit_of_1)
      have "\<exists>i k. i < length (cells p) \<and> k < 8 \<and> flip_byte ?i x p = flip_byte i (push_bit k 1) p"
        using bound [OF w(1)] by (intro exI [of _ ?i] exI [of _ "pos mod 8"]) (simp add: x_def del: push_bit_of_1)
      then show ?thesis
        using bad True run Some w(2) par
        by (simp add: verify_and_correct_def Let_def del: push_bit_of_1 flip: syn_def pos_def j_def x_def n_def)
    qed
  qed
qed

theorem verify_and_correct_sound_witness:
  "page_ok page_new \<and> (\<exists>p' r. verify_and_correct True page_new = Inr (p', r) \<and> header p' = header page_new)"
  using verify_and_correct_sound [OF page_new_ok, of True] page_new_ok by blast

text \<open>The cell accessors refine an array of 504 words. The word view has 504 entries; \<open>get_cell\<close> reads
  and \<open>set_cell\<close> writes entry \<open>index\<close> of it and both panic exactly from index 504 on; writes made through
  the mutable view are what the view shows afterwards, and the payload stays 4032 bytes long.\<close>

theorem cells_refine_words:
  assumes "page_ok p"
  shows "length (as_u64_slice p) = PAGE_CELLS
    \<and> (\<forall>i. get_cell p i = (if i < PAGE_CELLS then Inr (as_u64_slice p ! i) else Inl Assertion_Failed))
    \<and> (\<forall>i v. set_cell p i v = (if i < PAGE_CELLS then Inr (as_u64_slice_mut (\<lambda>ws. ws[i := v]) p) else Inl Assertion_Failed))
    \<and> (\<forall>f. length (f (as_u64_slice p)) = PAGE_CELLS \<longrightarrow>
         page_ok (as_u64_slice_mut f p) \<and> as_u64_slice (as_u64_slice_mut f p) = f (as_u64_slice p))"
proof -
  have cells: "PAGE_CELLS = 504"
    by (simp add: page_consts)
  have "get_cell p i = (if i < PAGE_CELLS then Inr (as_u64_slice p ! i) else Inl Assertion_Failed)" for i
    using get_cell_word [OF assms, of i] by (simp add: cells get_cell_def)
  moreover have "set_cell p i v = (if i < PAGE_CELLS then Inr (as_u64_slice_mut (\<lambda>ws. ws[i := v]) p) else Inl Assertion_Failed)" for i v
    using set_cell_word [OF assms, of i v] by (simp add: cells set_cell_def)
  ultimately show ?thesis
    using cells_of_words(2) [OF assms] as_u64_slice_mut_ok by (simp add: cells)
qed

theorem cells_refine_words_witness:
  "page_ok page_new
   \<and> as_u64_slice (as_u64_slice_mut (\<lambda>ws. ws[7 := 42]) page_new) = (as_u64_slice page_new)[7 := 42]
   \<and> set_cell page_new 504 42 = Inl Assertion_Failed"
  using cells_refine_words [OF page_new_ok] page_new_ok by (simp add: page_consts)

text \<open>C20. Round trip of the checked byte form: what \<open>write\<close> produces, \<open>read\<close> accepts and turns back into
  the page with its refreshed checksum, also when writer and reader run on machines with and without SSE4.2
  and when the buffer continues after the page. The hypotheses state that \<open>bytemuck\<close> reads back the 64
  header bytes it produced.\<close>

theorem page_write_read_roundtrip:
  assumes "page_ok p" "\<And>h. length (bytes_of h) = HEADER_SIZE" "\<And>h. header_of (bytes_of h) = Inr h"
  shows "page_read sse42' header_of (snd (page_write sse42 bytes_of p) @ rest) = Inr (Inr (fst (page_write sse42 bytes_of p)))
    \<and> cells (fst (page_write sse42 bytes_of p)) = cells p"
proof -
  let ?p = "update_checksum sse42 p"
  have "page_from_bytes header_of (bytes_of (header ?p) @ cells ?p @ rest) = Inr (Inr ?p)"
    using from_bytes_layout [of "bytes_of (header ?p)" "cells ?p" header_of "header ?p" rest] assms
    by (simp add: page_ok_def update_checksum_def)
  moreover have "verify_checksum sse42' ?p"
    by (simp add: verify_checksum_def update_checksum_def compute_crc32c_scalar)
  ultimately show ?thesis
    by (simp add: page_read_def page_write_def page_to_bytes_def Let_def) (simp add: update_checksum_def)
qed

theorem page_write_read_roundtrip_witness:
  "page_ok page_new
   \<and> page_read False header_decode (snd (page_write True header_bytes page_new) @ [1, 2]) = Inr (Inr (update_checksum True page_new))"
  using page_write_read_roundtrip [OF page_new_ok header_codec(2,1), of False True "[1, 2]"] page_new_ok
  by (simp add: page_write_def Let_def)

text \<open>Detection by the checked reader: flip any one payload bit of a written page and \<open>read\<close> returns a
  corruption error naming the stored and the computed checksum. (A stored checksum of 0 is set apart: the
  code accepts a payload of zeros under it.) A buffer shorter than a page is a corruption error too.\<close>

theorem page_read_detects_bit_flip:
  assumes "page_ok p" "\<And>h. length (bytes_of h) = HEADER_SIZE" "\<And>h. header_of (bytes_of h) = Inr h"
    and "i < length (cells p)" "k < 8" "compute_crc32c sse42 (cells p) \<noteq> 0"
  shows "let bytes = snd (page_write sse42 bytes_of p); pos = HEADER_SIZE + i
    in (\<exists>computed. page_read sse42 header_of (bytes[pos := bytes ! pos XOR push_bit k 1]) =
         Inr (Inl (Corruption (''page checksum mismatch: stored '' @ show_hex018 (ucast (compute_crc32c sse42 (cells p)))
           @ '', computed '' @ show_hex018 computed)))
         \<and> computed \<noteq> ucast (compute_crc32c sse42 (cells p)))
      \<and> (\<forall>n < PAGE_SIZE. page_read sse42 header_of (take n bytes) =
           Inr (Inl (Corruption (''page too small: '' @ show_nat n @ '' bytes''))))"
proof -
  let ?p = "update_checksum sse42 p" and ?x = "push_bit k 1 :: u8"
  let ?q = "flip_byte i ?x ?p" and ?hb = "bytes_of (header (update_checksum sse42 p))"
  have cells: "cells ?p = cells p" "page_ok ?p" "checksum (header ?p) = ucast (compute_crc32c sse42 (cells p))"
    using assms(1) by (simp_all add: update_checksum_def page_ok_def)
  have bytes: "snd (page_write sse42 bytes_of p) = ?hb @ cells p"
    by (simp add: page_write_def page_to_bytes_def Let_def cells)
  have "(?hb @ cells p)[HEADER_SIZE + i := (?hb @ cells p) ! (HEADER_SIZE + i) XOR ?x] = ?hb @ cells ?q @ []"
    using assms(2) by (simp add: list_update_append nth_append flip_byte_def cells)
  moreover have "page_from_bytes header_of (?hb @ cells ?q @ []) = Inr (Inr ?q)"
    using from_bytes_layout [of ?hb "cells ?q" header_of "header ?q" "[]"] assms(2,3) cells
    by (simp add: page_ok_def flip_byte_def)
  moreover have "\<not> verify_checksum sse42 ?q"
    by (rule flip_detected) (use assms cells in \<open>simp_all add: verify_checksum_def\<close>)
  moreover have "checksum (header ?q) \<noteq> 0"
    using assms(6) cells ucast_u32_u64_inj [of "compute_crc32c sse42 (cells p)" 0] by simp
  ultimately have "\<exists>computed. page_read sse42 header_of ((?hb @ cells p)[HEADER_SIZE + i := (?hb @ cells p) ! (HEADER_SIZE + i) XOR ?x]) =
       Inr (Inl (Corruption (''page checksum mismatch: stored '' @ show_hex018 (ucast (compute_crc32c sse42 (cells p)))
         @ '', computed '' @ show_hex018 computed)))
       \<and> computed \<noteq> ucast (compute_crc32c sse42 (cells p))"
    by (simp add: page_read_def Let_def verify_checksum_def cells del: push_bit_of_1) blast
  moreover have "page_read sse42 header_of (take n (?hb @ cells p)) = Inr (Inl (Corruption (''page too small: '' @ show_nat n @ '' bytes'')))"
    if "n < PAGE_SIZE" for n
  proof -
    have "length (take n (?hb @ cells p)) = n"
      using that assms(1,2) by (simp add: page_ok_def page_consts)
    then show ?thesis
      using that by (simp only: page_read_def page_from_bytes_def if_True bind_panic_simps sum.case)
  qed
  ultimately show ?thesis
    unfolding Let_def bytes by blast
qed

definition nonzero_crc_page :: page where
  "nonzero_crc_page = (if compute_crc32c True (cells page_new) = 0 then flip_byte 0 (push_bit 0 1) page_new else page_new)"

lemma nonzero_crc_page_ok: "page_ok nonzero_crc_page" "compute_crc32c True (cells nonzero_crc_page) \<noteq> 0"
proof -
  show "page_ok nonzero_crc_page"
    by (simp add: nonzero_crc_page_def page_new_ok)
  have "\<not> verify_checksum True (flip_byte 0 (push_bit 0 1) page_new)" if "verify_checksum True page_new"
    using that page_words [OF page_new_ok] by (intro flip_detected page_new_ok) simp_all
  then show "compute_crc32c True (cells nonzero_crc_page) \<noteq> 0"
    by (auto simp: nonzero_crc_page_def verify_checksum_def page_new_def page_header_default_def flip_byte_def)
qed

theorem page_read_detects_bit_flip_witness:
  "page_ok nonzero_crc_page \<and> compute_crc32c True (cells nonzero_crc_page) \<noteq> 0 \<and> (5 :: nat) < 8 \<and> 100 < length (cells nonzero_crc_page)
   \<and> (let bytes = snd (page_write True header_bytes nonzero_crc_page)
      in \<exists>msg. page_read True header_decode (bytes[HEADER_SIZE + 100 := bytes ! (HEADER_SIZE + 100) XOR push_bit 5 1]) = Inr (Inl (Corruption msg)))"
proof -
  have len: "100 < length (cells nonzero_crc_page)"
    using page_words [OF nonzero_crc_page_ok(1)] by simp
  show ?thesis
    using page_read_detects_bit_flip [OF nonzero_crc_page_ok(1) header_codec(2,1) len _ nonzero_crc_page_ok(2), of 5]
      nonzero_crc_page_ok len by (auto simp: Let_def)
qed

end
