(* ===== verification/Io_Monad.thy ===== *)
theory Io_Monad
  imports Prelude
begin

text \<open>
  Calls that may fail and change the state: the result is an error or a value, together with the state
  reached. The outcomes of the system calls to come are part of the state of a disk, so that every error
  branch of the code can be taken.
\<close>

type_synonym ('e, 's, 'a) fallible = "'s \<Rightarrow> ('e + 'a) \<times> 's"

definition io_return :: "'a \<Rightarrow> ('e, 's, 'a) fallible" where
  "io_return x = (\<lambda>s. (Inr x, s))"

definition io_fail :: "'e \<Rightarrow> ('e, 's, 'a) fallible" where
  "io_fail e = (\<lambda>s. (Inl e, s))"

text \<open>The \<open>?\<close> operator: an error ends the call and keeps the state reached.\<close>

definition io_bind :: "('e, 's, 'a) fallible \<Rightarrow> ('a \<Rightarrow> ('e, 's, 'b) fallible) \<Rightarrow> ('e, 's, 'b) fallible" where
  "io_bind m f = (\<lambda>s. case m s of (Inl e, s') \<Rightarrow> (Inl e, s') | (Inr x, s') \<Rightarrow> f x s')"

lemmas io_defs = io_return_def io_fail_def io_bind_def

lemma io_bind_cases:
  assumes "io_bind m f d = (r, d')"
  obtains (Fail) e where "m d = (Inl e, d')" "r = Inl e" | (Ok) x d1 where "m d = (Inr x, d1)" "f x d1 = (r, d')"
  using assms by (cases "m d"; cases "fst (m d)") (auto simp: io_bind_def)

lemma io_bind_run [simp]:
  "m s = (Inr x, s') \<Longrightarrow> io_bind m f s = f x s'"
  "m s = (Inl e, s') \<Longrightarrow> io_bind m f s = (Inl e, s')"
  by (simp_all add: io_bind_def)

lemma io_return_run [simp]: "io_return x s = (Inr x, s)"
  by (simp add: io_return_def)

lemma io_fail_run [simp]: "io_fail e s = (Inl e, s)"
  by (simp add: io_fail_def)

text \<open>A loop over a list whose steps may fail.\<close>

primrec io_each :: "('a \<Rightarrow> ('e, 's, unit) fallible) \<Rightarrow> 'a list \<Rightarrow> ('e, 's, unit) fallible" where
  "io_each f [] = io_return ()"
| "io_each f (x # xs) = io_bind (f x) (\<lambda>_. io_each f xs)"

text \<open>A system call succeeds, or fails, a write after some of its bytes; calls beyond the given outcomes
  succeed.\<close>

datatype io_outcome = Io_Ok | Io_Fails nat

fun next_outcome :: "io_outcome list \<Rightarrow> io_outcome \<times> io_outcome list" where
  "next_outcome [] = (Io_Ok, [])"
| "next_outcome (oc # rest) = (oc, rest)"

end
