(* ===== verification/Buffer_Pool.thy ===== *)
theory Buffer_Pool
  imports Page Io_Monad
begin

text \<open>
  The buffer pool of \<open>src/storage/buffer_pool.rs\<close>: frames, page table, clock replacement, write-back and
  flushing, over the table files of the data directory. The state of the pool contains the state of the
  disk (\<open>pool_disk\<close>): file contents, open handles, and the outcomes of the system calls to come, so that
  every error branch of the code can be taken. The operations are written over the two disk operations
  they call, and their properties are proved from the contract of these (locale \<open>page_store\<close>), which
  the file-level definitions meet. Pin counts and page numbers wrap at 32 bits as in a release build.
\<close>

section \<open>Operations that may fail\<close>

datatype pool_error = Pool_Panic panic | Os_Error | Resource_Busy string | Invalid_Data string

type_synonym ('s, 'a) io = "(pool_error, 's, 'a) fallible"

section \<open>Table files\<close>

record page_id =
  table_id :: u64
  page_num :: u32

record disk =
  table_files :: "(u64, u8 list) hash_map"
  open_handles :: "(u64, unit) hash_map"
  outcomes :: "io_outcome list"

text \<open>The next system call.\<close>

definition sys_call :: "(disk, io_outcome) io" where
  "sys_call d = (case next_outcome (outcomes d) of (oc, rest) \<Rightarrow> (Inr oc, d\<lparr>outcomes := rest\<rparr>))"

definition sys_call_ok :: "(disk, unit) io" where
  "sys_call_ok = io_bind sys_call (\<lambda>oc. case oc of Io_Ok \<Rightarrow> io_return () | Io_Fails _ \<Rightarrow> io_fail Os_Error)"

definition file_bytes :: "disk \<Rightarrow> u64 \<Rightarrow> u8 list" where
  "file_bytes d tid = (case hm_get (table_files d) tid of None \<Rightarrow> [] | Some bs \<Rightarrow> bs)"

text \<open>\<open>OpenOptions::new().read(true).write(true).create(true).open(..)\<close>\<close>

definition open_table :: "u64 \<Rightarrow> (disk, unit) io" where
  "open_table tid = io_bind sys_call_ok (\<lambda>_ d. (Inr (), d\<lparr>table_files := hm_insert (table_files d) tid (file_bytes d tid)\<rparr>))"

definition get_file :: "u64 \<Rightarrow> (disk, unit) io" where
  "get_file tid d =
     (case hm_get (open_handles d) tid of
        Some _ \<Rightarrow> open_table tid d
      | None \<Rightarrow>
          io_bind (open_table tid) (\<lambda>_.
          io_bind sys_call_ok (\<lambda>_ d.
            (Inr (), d\<lparr>open_handles := hm_insert (open_handles d) tid ()\<rparr>))) d)"

definition page_offset :: "page_id \<Rightarrow> nat" where
  "page_offset pid = unat (page_num pid) * PAGE_SIZE"

definition read_page_from_disk :: "(u8 list \<Rightarrow> panic + page_header) \<Rightarrow> page_id \<Rightarrow> (disk, page) io" where
  "read_page_from_disk header_of pid =
     io_bind (get_file (table_id pid)) (\<lambda>_.
     io_bind sys_call_ok (\<lambda>_.
     io_bind sys_call_ok (\<lambda>_ d.
       let bs = file_bytes d (table_id pid); offset = page_offset pid
       in if offset + PAGE_SIZE \<le> length bs
          then (case page_from_bytes header_of (take PAGE_SIZE (drop offset bs)) of
                  Inl p \<Rightarrow> (Inl (Pool_Panic p), d)
                | Inr (Inl (Corruption msg)) \<Rightarrow> (Inl (Invalid_Data (''corruption: '' @ msg)), d)
                | Inr (Inr p) \<Rightarrow> (Inr p, d))
          else (Inr page_new, d))))"

text \<open>A write at an offset overwrites, extends the file, and fills a gap with zeros.\<close>

definition write_at :: "nat \<Rightarrow> u8 list \<Rightarrow> u8 list \<Rightarrow> u8 list" where
  "write_at offset bs file =
     (if bs = [] then file
      else take offset file @ replicate (offset - length file) 0 @ bs @ drop (offset + length bs) file)"

definition write_file :: "page_id \<Rightarrow> u8 list \<Rightarrow> disk \<Rightarrow> disk" where
  "write_file pid bs d =
     d\<lparr>table_files := hm_insert (table_files d) (table_id pid) (write_at (page_offset pid) bs (file_bytes d (table_id pid)))\<rparr>"

definition write_page_to_disk :: "(page_header \<Rightarrow> u8 list) \<Rightarrow> page_id \<Rightarrow> page \<Rightarrow> (disk, unit) io" where
  "write_page_to_disk bytes_of pid p =
     io_bind (get_file (table_id pid)) (\<lambda>_.
     io_bind sys_call_ok (\<lambda>_.
     let bytes = page_to_bytes bytes_of p
     in io_bind sys_call (\<lambda>oc d.
          case oc of
            Io_Ok \<Rightarrow> (Inr (), write_file pid bytes d)
          | Io_Fails n \<Rightarrow> (Inl Os_Error, write_file pid (take n bytes) d))))"

section \<open>The pool\<close>

record frame =
  frame_page :: page
  pin_count :: u32
  dirty :: bool
  referenced :: bool
  frame_page_id :: "page_id option"

record 'd buffer_pool =
  frames :: "frame list"
  page_table :: "(page_id, nat) hash_map"
  clock_hand :: nat
  next_page_num :: "(u64, u32) hash_map"
  pool_disk :: 'd

type_synonym ('d, 'a) pool_op = "('d buffer_pool, 'a) io"

definition frame_new :: frame where
  "frame_new = \<lparr>frame_page = page_new, pin_count = 0, dirty = False, referenced = False, frame_page_id = None\<rparr>"

definition pool_of :: "nat \<Rightarrow> 'd \<Rightarrow> 'd buffer_pool" where
  "pool_of capacity d =
     \<lparr>frames = replicate capacity frame_new, page_table = hm_new, clock_hand = 0, next_page_num = hm_new, pool_disk = d\<rparr>"

text \<open>\<open>BufferPool::new\<close>: \<open>create_dir_all\<close>, then the empty pool.\<close>

definition pool_new :: "nat \<Rightarrow> disk \<Rightarrow> pool_error + disk buffer_pool" where
  "pool_new capacity d =
     (case sys_call_ok d of (Inl e, _) \<Rightarrow> Inl e | (Inr _, d') \<Rightarrow> Inr (pool_of capacity d'))"

text \<open>\<open>self.frames[idx]\<close>, read and updated, and a disk operation.\<close>

definition index_frame :: "nat \<Rightarrow> ('d, frame) pool_op" where
  "index_frame idx P =
     (case slice_index (frames P) idx of Inl p \<Rightarrow> (Inl (Pool_Panic p), P) | Inr f \<Rightarrow> (Inr f, P))"

definition update_frame :: "nat \<Rightarrow> (frame \<Rightarrow> frame) \<Rightarrow> ('d, unit) pool_op" where
  "update_frame idx g =
     io_bind (index_frame idx) (\<lambda>f P. (Inr (), P\<lparr>frames := (frames P)[idx := g f]\<rparr>))"

definition on_disk :: "('d, 'a) io \<Rightarrow> ('d, 'a) pool_op" where
  "on_disk m P = (case m (pool_disk P) of (r, d) \<Rightarrow> (r, P\<lparr>pool_disk := d\<rparr>))"

definition modify_pool :: "('d buffer_pool \<Rightarrow> 'd buffer_pool) \<Rightarrow> ('d, unit) pool_op" where
  "modify_pool g P = (Inr (), g P)"

primrec clock_loop :: "nat \<Rightarrow> ('d, nat option) pool_op" where
  "clock_loop 0 = io_return None"
| "clock_loop (Suc k) = (\<lambda>P.
     let idx = clock_hand P
     in io_bind (modify_pool (\<lambda>P. P\<lparr>clock_hand := (clock_hand P + 1) mod length (frames P)\<rparr>)) (\<lambda>_.
        io_bind (index_frame idx) (\<lambda>f.
          if pin_count f = 0
          then if referenced f
               then io_bind (update_frame idx (\<lambda>f. f\<lparr>referenced := False\<rparr>)) (\<lambda>_. clock_loop k)
               else io_return (Some idx)
          else clock_loop k)) P)"

definition find_victim :: "('d, nat option) pool_op" where
  "find_victim P = clock_loop (2 * length (frames P)) P"

definition fetch_page ::
  "(page_id \<Rightarrow> ('d, page) io) \<Rightarrow> (page_id \<Rightarrow> page \<Rightarrow> ('d, unit) io) \<Rightarrow> page_id \<Rightarrow> ('d, nat) pool_op" where
  "fetch_page rd wr pid P =
     (case hm_get (page_table P) pid of
        Some idx \<Rightarrow>
          io_bind (update_frame idx (\<lambda>f. f\<lparr>pin_count := pin_count f + 1, referenced := True\<rparr>)) (\<lambda>_. io_return idx) P
      | None \<Rightarrow>
          io_bind find_victim (\<lambda>v.
          case v of
            None \<Rightarrow> io_fail (Resource_Busy ''buffer pool exhausted: all frames pinned (increase capacity)'')
          | Some idx \<Rightarrow>
              io_bind (index_frame idx) (\<lambda>f.
              io_bind (case frame_page_id f of
                         Some vpid \<Rightarrow> if dirty f then on_disk (wr vpid (frame_page f)) else io_return ()
                       | None \<Rightarrow> io_return ()) (\<lambda>_.
              io_bind (case frame_page_id f of
                         Some vpid \<Rightarrow> modify_pool (\<lambda>P. P\<lparr>page_table := hm_remove (page_table P) vpid\<rparr>)
                       | None \<Rightarrow> io_return ()) (\<lambda>_.
              io_bind (on_disk (rd pid)) (\<lambda>page.
              io_bind (update_frame idx (\<lambda>_.
                 \<lparr>frame_page = page, pin_count = 1, dirty = False, referenced = True, frame_page_id = Some pid\<rparr>)) (\<lambda>_.
              io_bind (modify_pool (\<lambda>P. P\<lparr>page_table := hm_insert (page_table P) pid idx\<rparr>)) (\<lambda>_.
              io_return idx))))))) P)"

definition new_page ::
  "(page_id \<Rightarrow> ('d, page) io) \<Rightarrow> (page_id \<Rightarrow> page \<Rightarrow> ('d, unit) io) \<Rightarrow> u64 \<Rightarrow> ('d, page_id) pool_op" where
  "new_page rd wr tid P =
     (let num = (case hm_get (next_page_num P) tid of None \<Rightarrow> 0 | Some num \<Rightarrow> num);
          pid = \<lparr>table_id = tid, page_num = num\<rparr>
      in io_bind (modify_pool (\<lambda>P. P\<lparr>next_page_num := hm_insert (next_page_num P) tid (num + 1)\<rparr>)) (\<lambda>_.
         io_bind (fetch_page rd wr pid) (\<lambda>idx.
         io_bind (update_frame idx (\<lambda>f. f\<lparr>dirty := True\<rparr>)) (\<lambda>_. io_return pid))) P)"

definition unpin_page :: "page_id \<Rightarrow> bool \<Rightarrow> ('d, unit) pool_op" where
  "unpin_page pid d P =
     (case hm_get (page_table P) pid of
        Some idx \<Rightarrow>
          io_bind (update_frame idx (\<lambda>f. if pin_count f > 0 then f\<lparr>pin_count := pin_count f - 1\<rparr> else f)) (\<lambda>_.
          if d then update_frame idx (\<lambda>f. f\<lparr>dirty := True\<rparr>) else io_return ()) P
      | None \<Rightarrow> (Inr (), P))"

definition get_page :: "nat \<Rightarrow> ('d, page) pool_op" where
  "get_page idx = io_bind (index_frame idx) (\<lambda>f. io_return (frame_page f))"

text \<open>The write \<open>g\<close> a caller makes through the reference \<open>get_page_mut\<close> returns.\<close>

definition get_page_mut :: "nat \<Rightarrow> (page \<Rightarrow> page) \<Rightarrow> ('d, unit) pool_op" where
  "get_page_mut idx g = update_frame idx (\<lambda>f. f\<lparr>frame_page := g (frame_page f)\<rparr>)"

text \<open>Writing back one frame, as the flush operations do it.\<close>

definition flush_frame :: "(page_id \<Rightarrow> page \<Rightarrow> ('d, unit) io) \<Rightarrow> page_id \<Rightarrow> nat \<Rightarrow> ('d, unit) pool_op" where
  "flush_frame wr pid idx =
     io_bind (index_frame idx) (\<lambda>f.
       if dirty f
       then io_bind (on_disk (wr pid (frame_page f))) (\<lambda>_. update_frame idx (\<lambda>f. f\<lparr>dirty := False\<rparr>))
       else io_return ())"

primrec flush_entries :: "(page_id \<Rightarrow> page \<Rightarrow> ('d, unit) io) \<Rightarrow> (page_id \<times> nat) list \<Rightarrow> ('d, unit) pool_op" where
  "flush_entries wr [] = io_return ()"
| "flush_entries wr (e # es) = io_bind (flush_frame wr (fst e) (snd e)) (\<lambda>_. flush_entries wr es)"

definition flush_table :: "(page_id \<Rightarrow> page \<Rightarrow> ('d, unit) io) \<Rightarrow> u64 \<Rightarrow> ('d, unit) pool_op" where
  "flush_table wr tid P = flush_entries wr (filter (\<lambda>(pid, idx). table_id pid = tid) (page_table P)) P"

definition mark_dirty :: "page_id \<Rightarrow> ('d, unit) pool_op" where
  "mark_dirty pid P =
     (case hm_get (page_table P) pid of
        Some idx \<Rightarrow> update_frame idx (\<lambda>f. f\<lparr>dirty := True\<rparr>) P
      | None \<Rightarrow> (Inr (), P))"

definition flush_page :: "(page_id \<Rightarrow> page \<Rightarrow> ('d, unit) io) \<Rightarrow> page_id \<Rightarrow> ('d, unit) pool_op" where
  "flush_page wr pid P =
     (case hm_get (page_table P) pid of
        Some idx \<Rightarrow> flush_frame wr pid idx P
      | None \<Rightarrow> (Inr (), P))"

primrec flush_keys :: "(page_id \<Rightarrow> page \<Rightarrow> ('d, unit) io) \<Rightarrow> page_id list \<Rightarrow> ('d, unit) pool_op" where
  "flush_keys wr [] = io_return ()"
| "flush_keys wr (pid # pids) = (\<lambda>P.
     case hm_get (page_table P) pid of
       None \<Rightarrow> (Inl (Pool_Panic Unwrap_None), P)
     | Some idx \<Rightarrow> io_bind (flush_frame wr pid idx) (\<lambda>_. flush_keys wr pids) P)"

definition flush_all :: "(page_id \<Rightarrow> page \<Rightarrow> ('d, unit) io) \<Rightarrow> ('d, unit) pool_op" where
  "flush_all wr P = flush_keys wr (map fst (page_table P)) P"

definition page_count :: "u64 \<Rightarrow> disk \<Rightarrow> u32 \<times> disk" where
  "page_count tid d =
     (case hm_get (table_files d) tid of
        None \<Rightarrow> (0, d)
      | Some bs \<Rightarrow> (case sys_call_ok d of
          (Inr _, d') \<Rightarrow> (word_of_nat (length bs div PAGE_SIZE), d')
        | (Inl _, d') \<Rightarrow> (0, d')))"

section \<open>Clock\<close>

text \<open>One step of the clock that finds no victim: the hand moves on and an unpinned frame loses its bit.\<close>

definition clock_step :: "'d buffer_pool \<Rightarrow> 'd buffer_pool" where
  "clock_step P = P\<lparr>clock_hand := (clock_hand P + 1) mod length (frames P),
     frames := (frames P)[clock_hand P := (let f = frames P ! clock_hand P in if pin_count f = 0 then f\<lparr>referenced := False\<rparr> else f)]\<rparr>"

lemma clock_loop_Suc:
  assumes "clock_hand P < length (frames P)"
  shows "clock_loop (Suc k) P =
    (let f = frames P ! clock_hand P
     in if pin_count f = 0 \<and> \<not> referenced f
        then (Inr (Some (clock_hand P)), P\<lparr>clock_hand := (clock_hand P + 1) mod length (frames P)\<rparr>)
        else clock_loop k (clock_step P))"
  using assms
  by (auto simp: io_defs Let_def modify_pool_def index_frame_def update_frame_def slice_index_def clock_step_def)

declare clock_loop.simps(2) [simp del]

text \<open>What the clock may change: the hand, and the bit of unpinned frames.\<close>

definition same_but_bits :: "'d buffer_pool \<Rightarrow> 'd buffer_pool \<Rightarrow> bool" where
  "same_but_bits P P' \<longleftrightarrow>
     page_table P' = page_table P \<and> pool_disk P' = pool_disk P \<and> next_page_num P' = next_page_num P
     \<and> length (frames P') = length (frames P) \<and> (frames P \<noteq> [] \<longrightarrow> clock_hand P' < length (frames P))
     \<and> (\<forall>i < length (frames P). frames P' ! i = frames P ! i
           \<or> pin_count (frames P ! i) = 0 \<and> frames P' ! i = (frames P ! i)\<lparr>referenced := False\<rparr>)"

lemma clock_step_same: "clock_hand P < length (frames P) \<Longrightarrow> same_but_bits P (clock_step P)"
  by (auto simp: same_but_bits_def clock_step_def Let_def nth_list_update intro!: mod_less_divisor)

lemma same_but_bits_trans:
  assumes "same_but_bits P Q" "same_but_bits Q R"
  shows "same_but_bits P R"
proof -
  have "frames R ! i = frames P ! i \<or> pin_count (frames P ! i) = 0 \<and> frames R ! i = (frames P ! i)\<lparr>referenced := False\<rparr>"
    if "i < length (frames P)" for i
    using assms that unfolding same_but_bits_def by (elim conjE allE [of _ i]) auto
  then show ?thesis
    using assms unfolding same_but_bits_def by (metis length_0_conv)
qed

lemma clock_loop_spec:
  assumes "clock_hand P < length (frames P)"
  shows "\<exists>v P'. clock_loop k P = (Inr v, P') \<and> same_but_bits P P'
    \<and> (case v of None \<Rightarrow> True | Some i \<Rightarrow> i < length (frames P) \<and> pin_count (frames P ! i) = 0)"
  using assms
proof (induction k arbitrary: P)
  case 0
  then show ?case
    by (simp add: io_return_def same_but_bits_def)
next
  case (Suc k)
  let ?f = "frames P ! clock_hand P"
  show ?case
  proof (cases "pin_count ?f = 0 \<and> \<not> referenced ?f")
    case True
    then show ?thesis
      using Suc.prems by (auto simp: clock_loop_Suc Let_def same_but_bits_def intro!: mod_less_divisor)
  next
    case False
    have same: "same_but_bits P (clock_step P)"
      using Suc.prems by (rule clock_step_same)
    then have "clock_hand (clock_step P) < length (frames (clock_step P))"
      using Suc.prems by (auto simp: same_but_bits_def)
    then obtain v P' where v: "clock_loop k (clock_step P) = (Inr v, P')" "same_but_bits (clock_step P) P'"
        "case v of None \<Rightarrow> True | Some i \<Rightarrow> i < length (frames (clock_step P)) \<and> pin_count (frames (clock_step P) ! i) = 0"
      using Suc.IH by blast
    have "case v of None \<Rightarrow> True | Some i \<Rightarrow> i < length (frames P) \<and> pin_count (frames P ! i) = 0"
      using v(3) same by (force simp: same_but_bits_def split: option.splits)
    then show ?thesis
      using Suc.prems False v(1) same_but_bits_trans [OF same v(2)] by (auto simp: clock_loop_Suc Let_def)
  qed
qed

text \<open>An unpinned frame whose bit is clear is found when the hand reaches it; one whose bit is set, in the
  next turn of the hand.\<close>

lemma clock_step_toward:
  assumes "clock_hand P < length (frames P)" "(clock_hand P + Suc d) mod length (frames P) = i"
  shows "(clock_hand (clock_step P) + d) mod length (frames (clock_step P)) = i"
  using assms by (simp add: clock_step_def mod_add_left_eq)

lemma clock_step_hand: "clock_hand P < length (frames P) \<Longrightarrow> clock_hand (clock_step P) < length (frames (clock_step P))"
  by (simp add: clock_step_def) (rule mod_less_divisor, linarith)

lemma clock_reaches_clear:
  assumes "clock_hand P < length (frames P)" "(clock_hand P + d) mod length (frames P) = i" "d < k"
    "pin_count (frames P ! i) = 0" "\<not> referenced (frames P ! i)"
  shows "\<exists>j. fst (clock_loop k P) = Inr (Some j)"
  using assms
proof (induction d arbitrary: P k)
  case 0
  then show ?case
    by (cases k) (simp_all add: clock_loop_Suc Let_def)
next
  case (Suc d)
  then obtain k' where k: "k = Suc k'" "d < k'"
    by (cases k) auto
  have keep: "pin_count (frames (clock_step P) ! i) = 0" "\<not> referenced (frames (clock_step P) ! i)"
    using Suc.prems by (auto simp: clock_step_def Let_def nth_list_update)
  have "\<exists>j. fst (clock_loop k' (clock_step P)) = Inr (Some j)"
    by (rule Suc.IH [OF clock_step_hand clock_step_toward k(2) keep]) (use Suc.prems in simp_all)
  then show ?case
    using Suc.prems(1) k(1) by (simp add: clock_loop_Suc Let_def)
qed

lemma clock_reaches_unpinned:
  assumes "clock_hand P < length (frames P)" "(clock_hand P + d) mod length (frames P) = i" "d + length (frames P) < k"
    "pin_count (frames P ! i) = 0"
  shows "\<exists>j. fst (clock_loop k P) = Inr (Some j)"
  using assms
proof (induction d arbitrary: P k)
  case 0
  let ?n = "length (frames P)"
  obtain k' where k: "k = Suc k'" "?n - 1 < k'"
    using 0 by (cases k) auto
  have hand: "clock_hand P = i"
    using 0 by simp
  have keep: "pin_count (frames (clock_step P) ! i) = 0" "\<not> referenced (frames (clock_step P) ! i)"
    using 0 hand by (simp_all add: clock_step_def Let_def)
  have "Suc (?n - 1) = ?n"
    using 0(1) by linarith
  then have "(clock_hand P + Suc (?n - 1)) mod ?n = i"
    using 0 by (simp only: mod_add_self2) simp
  then have "(clock_hand (clock_step P) + (?n - 1)) mod length (frames (clock_step P)) = i"
    using 0(1) by (rule clock_step_toward [rotated])
  then have "\<exists>j. fst (clock_loop k' (clock_step P)) = Inr (Some j)"
    by (rule clock_reaches_clear [OF clock_step_hand [OF 0(1)] _ k(2) keep])
  then show ?case
    using 0(1) k(1) by (simp add: clock_loop_Suc Let_def)
next
  case (Suc d)
  then obtain k' where k: "k = Suc k'" "d + length (frames P) < k'"
    by (cases k) auto
  have keep: "pin_count (frames (clock_step P) ! i) = 0" "d + length (frames (clock_step P)) < k'"
    using Suc.prems k by (auto simp: clock_step_def Let_def nth_list_update)
  have "\<exists>j. fst (clock_loop k' (clock_step P)) = Inr (Some j)"
    by (rule Suc.IH [OF clock_step_hand clock_step_toward keep(2,1)]) (use Suc.prems in simp_all)
  then show ?case
    using Suc.prems(1) k(1) by (simp add: clock_loop_Suc Let_def)
qed

definition hand_ok :: "'d buffer_pool \<Rightarrow> bool" where
  "hand_ok P \<longleftrightarrow> frames P \<noteq> [] \<longrightarrow> clock_hand P < length (frames P)"

lemma find_victim_spec:
  assumes "hand_ok P"
  obtains v P' where "find_victim P = (Inr v, P')" "same_but_bits P P'"
    "v = None \<longleftrightarrow> (\<forall>f \<in> set (frames P). pin_count f \<noteq> 0)"
    "\<And>i. v = Some i \<Longrightarrow> i < length (frames P) \<and> pin_count (frames P ! i) = 0"
proof (cases "frames P = []")
  case True
  then have "find_victim P = (Inr None, P)"
    by (simp add: find_victim_def io_return_def)
  then show ?thesis
    using True by (intro that [of None P]) (simp_all add: same_but_bits_def)
next
  case False
  let ?n = "length (frames P)"
  have hand: "clock_hand P < ?n"
    using False assms by (simp add: hand_ok_def)
  obtain v P' where v: "find_victim P = (Inr v, P')" "same_but_bits P P'"
      "case v of None \<Rightarrow> True | Some i \<Rightarrow> i < ?n \<and> pin_count (frames P ! i) = 0"
    using clock_loop_spec [OF hand, of "2 * ?n"] by (auto simp: find_victim_def)
  have "v \<noteq> None" if "i < ?n" "pin_count (frames P ! i) = 0" for i
  proof -
    have "(clock_hand P + (i + ?n - clock_hand P) mod ?n) mod ?n = i"
      using hand that(1) by (simp add: mod_add_right_eq)
    moreover have "(i + ?n - clock_hand P) mod ?n + ?n < 2 * ?n"
      using hand mod_less_divisor [of ?n "i + ?n - clock_hand P"] by linarith
    ultimately show ?thesis
      using clock_reaches_unpinned [OF hand _ _ that(2)] v(1) by (fastforce simp: find_victim_def)
  qed
  then have "v = None \<longleftrightarrow> (\<forall>f \<in> set (frames P). pin_count f \<noteq> 0)"
    using v(3) by (cases v) (auto simp: in_set_conv_nth dest: nth_mem)
  then show ?thesis
    using v by (intro that [of v P']) auto
qed

section \<open>Contract of the disk and state of the pool\<close>

text \<open>What the pool relies on. \<open>disk_page\<close> is the page a later read finds; \<open>torn\<close> are pages of which a failed
  write left a part at the end of the file. A read changes nothing. A write that succeeds stores the page
  and keeps every other page that is not torn; one that fails may tear its own page.\<close>

locale page_store =
  fixes rd :: "page_id \<Rightarrow> ('d, page) io"
    and wr :: "page_id \<Rightarrow> page \<Rightarrow> ('d, unit) io"
    and disk_page :: "'d \<Rightarrow> page_id \<Rightarrow> page"
    and torn :: "'d \<Rightarrow> page_id set"
  assumes disk_page_ok: "page_ok (disk_page d pid)"
    and rd_keeps: "rd pid d = (r, d') \<Longrightarrow> disk_page d' = disk_page d \<and> torn d' = torn d"
    and rd_value: "rd pid d = (Inr p, d') \<Longrightarrow> p = disk_page d pid"
    and wr_stores: "page_ok p \<Longrightarrow> wr pid p d = (Inr u, d') \<Longrightarrow> disk_page d' pid = p \<and> torn d' \<subseteq> torn d - {pid}"
    and wr_others: "page_ok p \<Longrightarrow> wr pid p d = (w, d') \<Longrightarrow> q \<noteq> pid \<Longrightarrow> q \<notin> torn d \<Longrightarrow> disk_page d' q = disk_page d q"
    and wr_torn: "page_ok p \<Longrightarrow> wr pid p d = (w, d') \<Longrightarrow> torn d' \<subseteq> insert pid (torn d)"

text \<open>The state of a pool: the page table lists exactly the resident pages, clean frames hold what is on
  disk, and a torn page is resident and dirty.\<close>

definition resident :: "'d buffer_pool \<Rightarrow> nat \<Rightarrow> page_id \<Rightarrow> bool" where
  "resident P i pid \<longleftrightarrow> i < length (frames P) \<and> frame_page_id (frames P ! i) = Some pid"

definition pool_inv :: "('d \<Rightarrow> page_id \<Rightarrow> page) \<Rightarrow> ('d \<Rightarrow> page_id set) \<Rightarrow> 'd buffer_pool \<Rightarrow> bool" where
  "pool_inv disk_page torn P \<longleftrightarrow>
     hm_ok (page_table P) \<and> hand_ok P \<and> (\<forall>pid i. hm_get (page_table P) pid = Some i \<longleftrightarrow> resident P i pid)
     \<and> (\<forall>f \<in> set (frames P). page_ok (frame_page f))
     \<and> (\<forall>i pid. resident P i pid \<longrightarrow> \<not> dirty (frames P ! i) \<longrightarrow> frame_page (frames P ! i) = disk_page (pool_disk P) pid)
     \<and> (\<forall>pid \<in> torn (pool_disk P). \<exists>i. resident P i pid \<and> dirty (frames P ! i))"

text \<open>The abstract state: the current content of every page.\<close>

definition content :: "('d \<Rightarrow> page_id \<Rightarrow> page) \<Rightarrow> 'd buffer_pool \<Rightarrow> page_id \<Rightarrow> page" where
  "content disk_page P pid =
     (case hm_get (page_table P) pid of Some i \<Rightarrow> frame_page (frames P ! i) | None \<Rightarrow> disk_page (pool_disk P) pid)"

lemma pool_inv_get: "pool_inv disk_page torn P \<Longrightarrow> hm_get (page_table P) pid = Some i \<longleftrightarrow> resident P i pid"
  by (simp add: pool_inv_def)

lemma same_but_bits_keeps:
  assumes "same_but_bits P P'" "pool_inv disk_page torn P"
  shows "pool_inv disk_page torn P'" "content disk_page P' = content disk_page P" "\<And>i pid. resident P' i pid = resident P i pid"
proof -
  have f: "frame_page (frames P' ! i) = frame_page (frames P ! i)" "dirty (frames P' ! i) = dirty (frames P ! i)"
      "frame_page_id (frames P' ! i) = frame_page_id (frames P ! i)" if "i < length (frames P)" for i
    using assms(1) that by (auto simp: same_but_bits_def dest!: spec [of _ i])
  have same: "page_table P' = page_table P" "pool_disk P' = pool_disk P" "length (frames P') = length (frames P)" "hand_ok P'"
    using assms(1) by (auto simp: same_but_bits_def hand_ok_def)
  show res: "resident P' i pid = resident P i pid" for i pid
    by (auto simp: resident_def same f)
  have "page_ok (frame_page (frames P' ! i))" if "i < length (frames P)" for i
    using assms(2) that f(1) [OF that] by (simp add: pool_inv_def)
  then have pages: "\<forall>f \<in> set (frames P'). page_ok (frame_page f)"
    by (auto simp: in_set_conv_nth same)
  have d: "resident P i pid \<Longrightarrow> dirty (frames P' ! i) = dirty (frames P ! i)"
    "resident P i pid \<Longrightarrow> frame_page (frames P' ! i) = frame_page (frames P ! i)" for i pid
    by (auto simp: resident_def f)
  show "pool_inv disk_page torn P'"
    unfolding pool_inv_def same(1,2) res
  proof (intro conjI same(4) pages)
    show "\<forall>i pid. resident P i pid \<longrightarrow> \<not> dirty (frames P' ! i) \<longrightarrow> frame_page (frames P' ! i) = disk_page (pool_disk P) pid"
      using assms(2) by (simp add: d pool_inv_def)
    show "\<forall>pid \<in> torn (pool_disk P). \<exists>i. resident P i pid \<and> dirty (frames P' ! i)"
      using assms(2) by (simp add: d pool_inv_def cong: conj_cong)
  qed (use assms(2) in \<open>simp_all add: pool_inv_def\<close>)
  show "content disk_page P' = content disk_page P"
  proof (rule ext)
    fix pid
    have "frame_page (frames P' ! i) = frame_page (frames P ! i)" if "hm_get (page_table P) pid = Some i" for i
      using d(2) [of i pid] pool_inv_get [OF assms(2), of pid i] that by blast
    then show "content disk_page P' pid = content disk_page P pid"
      by (simp add: content_def same split: option.split)
  qed
qed

lemma pool_invD:
  assumes "pool_inv disk_page torn P"
  shows "hand_ok P" "i < length (frames P) \<Longrightarrow> page_ok (frame_page (frames P ! i))"
    "resident P i pid \<Longrightarrow> \<not> dirty (frames P ! i) \<Longrightarrow> frame_page (frames P ! i) = disk_page (pool_disk P) pid"
    "pid \<in> torn (pool_disk P) \<Longrightarrow> \<exists>i. resident P i pid \<and> dirty (frames P ! i)"
  using assms by (auto simp: pool_inv_def)

lemma table_entries:
  assumes "pool_inv disk_page torn P"
  shows "\<forall>e \<in> set (filter p (page_table P)). resident P (snd e) (fst e)"
proof
  fix e
  assume "e \<in> set (filter p (page_table P))"
  then have "hm_get (page_table P) (fst e) = Some (snd e)"
    using assms hm_get_in [of "page_table P" "fst e" "snd e"] by (simp add: pool_inv_def)
  then show "resident P (snd e) (fst e)"
    using pool_inv_get [OF assms] by blast
qed

lemma resident_unique: "pool_inv disk_page torn P \<Longrightarrow> resident P i pid \<Longrightarrow> resident P j pid \<Longrightarrow> i = j"
  by (metis pool_inv_get option.inject)

lemma content_resident: "pool_inv disk_page torn P \<Longrightarrow> resident P i pid \<Longrightarrow> content disk_page P pid = frame_page (frames P ! i)"
  using pool_inv_get [of disk_page torn P pid i] by (simp add: content_def)

lemma content_absent: "hm_get (page_table P) pid = None \<Longrightarrow> content disk_page P pid = disk_page (pool_disk P) pid"
  by (simp add: content_def)

lemma same_disk_pages:
  assumes "disk_page d' = disk_page (pool_disk P)" "torn d' = torn (pool_disk P)"
  shows "pool_inv disk_page torn (P\<lparr>pool_disk := d'\<rparr>) = pool_inv disk_page torn P"
    "content disk_page (P\<lparr>pool_disk := d'\<rparr>) = content disk_page P"
  using assms by (simp_all add: pool_inv_def hand_ok_def resident_def content_def fun_eq_iff split: option.split)

text \<open>Changing one frame and keeping its page: a frame may become dirty, and only a dirty frame may change.\<close>

lemma update_frame_keeps:
  assumes inv: "pool_inv disk_page torn P" and i: "i < length (frames P)"
    and f': "frame_page_id f' = frame_page_id (frames P ! i)" "page_ok (frame_page f')"
      "dirty (frames P ! i) \<longrightarrow> dirty f'" "\<not> dirty f' \<longrightarrow> frame_page f' = frame_page (frames P ! i)"
  shows "pool_inv disk_page torn (P\<lparr>frames := (frames P)[i := f']\<rparr>)"
    "content disk_page (P\<lparr>frames := (frames P)[i := f']\<rparr>) =
       (\<lambda>pid. if frame_page_id (frames P ! i) = Some pid then frame_page f' else content disk_page P pid)"
    "resident (P\<lparr>frames := (frames P)[i := f']\<rparr>) = resident P"
proof -
  let ?P = "P\<lparr>frames := (frames P)[i := f']\<rparr>"
  show res: "resident ?P = resident P"
    using f'(1) i by (intro ext) (auto simp: resident_def nth_list_update)
  have pages: "\<forall>f \<in> set (frames ?P). page_ok (frame_page f)"
    using pool_invD(2) [OF inv] f'(2) i by (auto simp: in_set_conv_nth nth_list_update)
  show "pool_inv disk_page torn ?P"
    unfolding pool_inv_def res
  proof (intro conjI pages)
    show "hm_ok (page_table ?P)"
      using inv by (simp add: pool_inv_def)
    show "hand_ok ?P"
      using inv by (simp add: pool_inv_def hand_ok_def)
    show "\<forall>pid j. (hm_get (page_table ?P) pid = Some j) = resident P j pid"
      using inv by (simp add: pool_inv_def)
    show "\<forall>j pid. resident P j pid \<longrightarrow> \<not> dirty (frames ?P ! j) \<longrightarrow> frame_page (frames ?P ! j) = disk_page (pool_disk ?P) pid"
      using pool_invD(3) [OF inv] f'(3,4) i by (auto simp: nth_list_update)
    show "\<forall>pid \<in> torn (pool_disk ?P). \<exists>j. resident P j pid \<and> dirty (frames ?P ! j)"
    proof
      fix pid
      assume "pid \<in> torn (pool_disk ?P)"
      then obtain j where "resident P j pid" "dirty (frames P ! j)"
        using pool_invD(4) [OF inv, of pid] by auto
      then show "\<exists>j. resident P j pid \<and> dirty (frames ?P ! j)"
        using f'(3) i by (intro exI [of _ j]) (auto simp: nth_list_update)
    qed
  qed
  show "content disk_page ?P = (\<lambda>pid. if frame_page_id (frames P ! i) = Some pid then frame_page f' else content disk_page P pid)"
  proof (rule ext)
    fix pid
    show "content disk_page ?P pid = (if frame_page_id (frames P ! i) = Some pid then frame_page f' else content disk_page P pid)"
    proof (cases "frame_page_id (frames P ! i) = Some pid")
      case True
      then have "hm_get (page_table P) pid = Some i"
        using pool_inv_get [OF inv] i by (simp add: resident_def)
      then show ?thesis
        using True i by (simp add: content_def)
    next
      case False
      then have "hm_get (page_table P) pid \<noteq> Some i"
        using pool_inv_get [OF inv] by (simp add: resident_def)
      then show ?thesis
        using False i by (auto simp: content_def nth_list_update split: option.split)
    qed
  qed
qed

definition drop_entry :: "page_id option \<Rightarrow> (page_id, nat) hash_map \<Rightarrow> (page_id, nat) hash_map" where
  "drop_entry v m = (case v of None \<Rightarrow> m | Some vpid \<Rightarrow> hm_remove m vpid)"

lemma drop_entry_get: "hm_get (drop_entry v m) q = (if v = Some q then None else hm_get m q)"
  by (auto simp: drop_entry_def hm_laws split: option.split)

text \<open>A miss, step by step: choose the victim, write it back when dirty, drop its entry, read, install.\<close>

definition write_back :: "(page_id \<Rightarrow> page \<Rightarrow> ('d, unit) io) \<Rightarrow> frame \<Rightarrow> ('d, unit) io" where
  "write_back wr f d =
     (case frame_page_id f of Some vpid \<Rightarrow> if dirty f then wr vpid (frame_page f) d else (Inr (), d) | None \<Rightarrow> (Inr (), d))"

definition installed :: "page \<Rightarrow> page_id \<Rightarrow> frame" where
  "installed p pid = \<lparr>frame_page = p, pin_count = 1, dirty = False, referenced = True, frame_page_id = Some pid\<rparr>"

lemma fetch_miss:
  assumes "hm_get (page_table P) pid = None" "find_victim P = (Inr v, P1)" "\<And>i. v = Some i \<Longrightarrow> i < length (frames P1)"
  shows "fetch_page rd wr pid P = (case v of
      None \<Rightarrow> (Inl (Resource_Busy ''buffer pool exhausted: all frames pinned (increase capacity)''), P1)
    | Some i \<Rightarrow> (case write_back wr (frames P1 ! i) (pool_disk P1) of
        (Inl e, d) \<Rightarrow> (Inl e, P1\<lparr>pool_disk := d\<rparr>)
      | (Inr _, d) \<Rightarrow> (case rd pid d of
          (Inl e, d') \<Rightarrow> (Inl e, P1\<lparr>pool_disk := d', page_table := drop_entry (frame_page_id (frames P1 ! i)) (page_table P1)\<rparr>)
        | (Inr p, d') \<Rightarrow> (Inr i, P1\<lparr>pool_disk := d', frames := (frames P1)[i := installed p pid],
            page_table := hm_insert (drop_entry (frame_page_id (frames P1 ! i)) (page_table P1)) pid i\<rparr>))))"
  using assms
  by (auto simp: fetch_page_def io_defs write_back_def installed_def drop_entry_def index_frame_def update_frame_def
      slice_index_def on_disk_def modify_pool_def split: option.splits sum.splits prod.splits)

section \<open>Clients of the pool\<close>

text \<open>What a client asks of the pool. A modification is the documented sequence: fetch the page, change it
  through \<open>get_page_mut\<close>, unpin it as dirty. \<open>spec_cmd\<close> is the specification: pages are a map, which only
  modifications change.\<close>

datatype pool_cmd =
    Cmd_Fetch page_id
  | Cmd_New u64
  | Cmd_Modify page_id "page \<Rightarrow> page"
  | Cmd_Unpin page_id bool
  | Cmd_Mark page_id
  | Cmd_Flush_Page page_id
  | Cmd_Flush_Table u64
  | Cmd_Flush_All

fun run_cmd :: "(page_id \<Rightarrow> ('d, page) io) \<Rightarrow> (page_id \<Rightarrow> page \<Rightarrow> ('d, unit) io) \<Rightarrow> pool_cmd \<Rightarrow> ('d, unit) pool_op" where
  "run_cmd rd wr (Cmd_Fetch pid) = io_bind (fetch_page rd wr pid) (\<lambda>_. io_return ())"
| "run_cmd rd wr (Cmd_New tid) = io_bind (new_page rd wr tid) (\<lambda>_. io_return ())"
| "run_cmd rd wr (Cmd_Modify pid g) =
     io_bind (fetch_page rd wr pid) (\<lambda>idx. io_bind (get_page_mut idx g) (\<lambda>_. unpin_page pid True))"
| "run_cmd rd wr (Cmd_Unpin pid d) = unpin_page pid d"
| "run_cmd rd wr (Cmd_Mark pid) = mark_dirty pid"
| "run_cmd rd wr (Cmd_Flush_Page pid) = flush_page wr pid"
| "run_cmd rd wr (Cmd_Flush_Table tid) = flush_table wr tid"
| "run_cmd rd wr Cmd_Flush_All = flush_all wr"

text \<open>A client that goes on after an error, with the results it got, and the commands that were completed.\<close>

primrec run_all ::
  "(page_id \<Rightarrow> ('d, page) io) \<Rightarrow> (page_id \<Rightarrow> page \<Rightarrow> ('d, unit) io) \<Rightarrow> pool_cmd list \<Rightarrow> 'd buffer_pool
     \<Rightarrow> (pool_error + unit) list \<times> 'd buffer_pool" where
  "run_all rd wr [] P = ([], P)"
| "run_all rd wr (c # cs) P =
     (case run_cmd rd wr c P of (r, P1) \<Rightarrow> case run_all rd wr cs P1 of (rs, P2) \<Rightarrow> (r # rs, P2))"

definition completed :: "pool_cmd list \<Rightarrow> (pool_error + unit) list \<Rightarrow> pool_cmd list" where
  "completed cs rs = map fst (filter (\<lambda>(c, r). r = Inr ()) (zip cs rs))"

text \<open>No command that failed has dropped a page from the page table, as a fetch does that has evicted its victim
  before the read fails.\<close>

primrec keeps_table ::
  "(page_id \<Rightarrow> ('d, page) io) \<Rightarrow> (page_id \<Rightarrow> page \<Rightarrow> ('d, unit) io) \<Rightarrow> pool_cmd list \<Rightarrow> 'd buffer_pool \<Rightarrow> bool" where
  "keeps_table rd wr [] P \<longleftrightarrow> True"
| "keeps_table rd wr (c # cs) P \<longleftrightarrow>
     (case run_cmd rd wr c P of (r, P1) \<Rightarrow> (r = Inr () \<or> page_table P1 = page_table P) \<and> keeps_table rd wr cs P1)"

fun spec_cmd :: "pool_cmd \<Rightarrow> (page_id \<Rightarrow> page) \<Rightarrow> page_id \<Rightarrow> page" where
  "spec_cmd (Cmd_Modify pid g) m = m(pid := g (m pid))"
| "spec_cmd c m = m"

fun cmd_ok :: "pool_cmd \<Rightarrow> bool" where
  "cmd_ok (Cmd_Modify pid g) \<longleftrightarrow> (\<forall>p. page_ok p \<longrightarrow> page_ok (g p))"
| "cmd_ok c \<longleftrightarrow> True"

lemma update_frame_run:
  "i < length (frames P) \<Longrightarrow> update_frame i g P = (Inr (), P\<lparr>frames := (frames P)[i := g (frames P ! i)]\<rparr>)"
  by (simp add: update_frame_def io_bind_def index_frame_def slice_index_def)

context page_store
begin

abbreviation inv :: "'d buffer_pool \<Rightarrow> bool" where
  "inv \<equiv> pool_inv disk_page torn"

abbreviation cont :: "'d buffer_pool \<Rightarrow> page_id \<Rightarrow> page" where
  "cont \<equiv> content disk_page"

text \<open>Writing a resident dirty frame to disk, whether or not the write succeeds.\<close>

lemma write_keeps:
  assumes inv: "inv P" and res: "resident P i pid" "dirty (frames P ! i)"
    and wr: "wr pid (frame_page (frames P ! i)) (pool_disk P) = (w, d')"
  shows "inv (P\<lparr>pool_disk := d'\<rparr>)" "cont (P\<lparr>pool_disk := d'\<rparr>) = cont P"
proof -
  let ?P = "P\<lparr>pool_disk := d'\<rparr>"
  have ok: "page_ok (frame_page (frames P ! i))"
    using pool_invD(2) [OF inv] res(1) by (simp add: resident_def)
  have other: "disk_page d' q = disk_page (pool_disk P) q" if "q \<noteq> pid" "q \<notin> torn (pool_disk P)" for q
    using wr_others [OF ok wr] that by blast
  have res_eq: "resident ?P = resident P"
    by (intro ext) (simp add: resident_def)
  show "inv ?P"
    unfolding pool_inv_def res_eq
  proof (intro conjI)
    show "\<forall>j q. resident P j q \<longrightarrow> \<not> dirty (frames ?P ! j) \<longrightarrow> frame_page (frames ?P ! j) = disk_page (pool_disk ?P) q"
    proof (intro allI impI)
      fix j q
      assume j: "resident P j q" "\<not> dirty (frames ?P ! j)"
      then have clean: "\<not> dirty (frames P ! j)"
        by simp
      then have "q \<noteq> pid"
        using resident_unique [OF inv j(1), of i] res by auto
      moreover have "q \<notin> torn (pool_disk P)"
      proof
        assume "q \<in> torn (pool_disk P)"
        then obtain k where "resident P k q" "dirty (frames P ! k)"
          using pool_invD(4) [OF inv] by blast
        then show False
          using resident_unique [OF inv j(1), of k] clean by simp
      qed
      ultimately show "frame_page (frames ?P ! j) = disk_page (pool_disk ?P) q"
        using pool_invD(3) [OF inv j(1) clean] other by simp
    qed
    show "\<forall>q \<in> torn (pool_disk ?P). \<exists>j. resident P j q \<and> dirty (frames ?P ! j)"
      using wr_torn [OF ok wr] pool_invD(4) [OF inv] res by fastforce
  qed (use inv in \<open>simp_all add: pool_inv_def hand_ok_def\<close>)
  show "cont ?P = cont P"
  proof (rule ext)
    fix q
    show "cont ?P q = cont P q"
    proof (cases "hm_get (page_table P) q")
      case None
      then have "\<not> resident P j q" for j
        using pool_inv_get [OF inv, of q j] by simp
      then have "q \<noteq> pid" "q \<notin> torn (pool_disk P)"
        using res(1) pool_invD(4) [OF inv] by blast+
      then show ?thesis
        using None other by (simp add: content_def)
    qed (simp add: content_def)
  qed
qed

text \<open>A written frame may be marked clean.\<close>

lemma clean_keeps:
  assumes inv: "inv P" and i: "i < length (frames P)"
    and disk: "\<And>pid. resident P i pid \<Longrightarrow> frame_page (frames P ! i) = disk_page (pool_disk P) pid \<and> pid \<notin> torn (pool_disk P)"
  shows "inv (P\<lparr>frames := (frames P)[i := (frames P ! i)\<lparr>dirty := False\<rparr>]\<rparr>)"
    "cont (P\<lparr>frames := (frames P)[i := (frames P ! i)\<lparr>dirty := False\<rparr>]\<rparr>) = cont P"
proof -
  let ?P = "P\<lparr>frames := (frames P)[i := (frames P ! i)\<lparr>dirty := False\<rparr>]\<rparr>"
  have res: "resident ?P = resident P"
    using i by (intro ext) (auto simp: resident_def nth_list_update)
  have pages: "\<forall>f \<in> set (frames ?P). page_ok (frame_page f)"
    using pool_invD(2) [OF inv] i by (auto simp: in_set_conv_nth nth_list_update)
  show "inv ?P"
    unfolding pool_inv_def res
  proof (intro conjI pages)
    show "\<forall>j q. resident P j q \<longrightarrow> \<not> dirty (frames ?P ! j) \<longrightarrow> frame_page (frames ?P ! j) = disk_page (pool_disk ?P) q"
      using pool_invD(3) [OF inv] disk i by (auto simp: nth_list_update)
    show "\<forall>q \<in> torn (pool_disk ?P). \<exists>j. resident P j q \<and> dirty (frames ?P ! j)"
    proof
      fix q
      assume q: "q \<in> torn (pool_disk ?P)"
      then obtain j where j: "resident P j q" "dirty (frames P ! j)"
        using pool_invD(4) [OF inv, of q] by auto
      then have "j \<noteq> i"
        using disk [of q] q by auto
      then show "\<exists>j. resident P j q \<and> dirty (frames ?P ! j)"
        using j by (intro exI [of _ j]) simp
    qed
  qed (use inv in \<open>simp_all add: pool_inv_def hand_ok_def\<close>)
  show "cont ?P = cont P"
    using i by (intro ext) (auto simp: content_def nth_list_update split: option.split)
qed

text \<open>A frame that holds no page, or a clean one, takes another page that is not resident.\<close>

lemma replace_keeps:
  assumes inv: "inv P" and i: "i < length (frames P)" and clean: "\<not> dirty (frames P ! i)"
    and absent: "hm_get (page_table P) pid = None"
    and f': "frame_page_id f' = Some pid" "frame_page f' = disk_page (pool_disk P) pid"
      and Q: "Q = P\<lparr>frames := (frames P)[i := f'], page_table := hm_insert (drop_entry (frame_page_id (frames P ! i)) (page_table P)) pid i\<rparr>"
  shows "inv Q" "cont Q = cont P" "resident Q i pid" "resident P j q \<Longrightarrow> j \<noteq> i \<Longrightarrow> resident Q j q"
proof -
  have new: "\<not> resident P j pid" for j
    using pool_inv_get [OF inv, of pid j] absent by simp
  have res: "resident Q j q \<longleftrightarrow> (if j = i then q = pid else resident P j q)" for j q
    using i f'(1) by (auto simp: Q resident_def nth_list_update)
  have getQ: "hm_get (page_table Q) q = (if q = pid then Some i else if frame_page_id (frames P ! i) = Some q then None else hm_get (page_table P) q)" for q
    by (simp add: Q hm_laws drop_entry_get)
  have at_i: "frame_page_id (frames P ! i) = Some q" if "hm_get (page_table P) q = Some i" for q
    using that pool_inv_get [OF inv, of q i] by (simp add: resident_def)
  have get: "hm_get (page_table Q) q = Some j \<longleftrightarrow> resident Q j q" for j q
  proof (cases "j = i \<or> q = pid")
    case True
    then show ?thesis
      using new [of j] at_i [of q] unfolding res getQ by auto
  next
    case False
    have "frame_page_id (frames P ! i) \<noteq> Some q" if "resident P j q"
      using resident_unique [OF inv that, of i] False i by (auto simp: resident_def)
    then show ?thesis
      using False pool_inv_get [OF inv, of q j] unfolding res getQ by auto
  qed
  have pages: "\<forall>f \<in> set (frames Q). page_ok (frame_page f)"
    using pool_invD(2) [OF inv] i f'(2) disk_page_ok by (auto simp: Q in_set_conv_nth nth_list_update)
  show "inv Q"
    unfolding pool_inv_def
  proof (intro conjI pages)
    show "hm_ok (page_table Q)"
      using inv by (simp add: pool_inv_def Q drop_entry_def hm_ok_laws split: option.split)
    show "hand_ok Q"
      using inv by (simp add: pool_inv_def hand_ok_def Q)
    show "\<forall>q j. (hm_get (page_table Q) q = Some j) = resident Q j q"
      using get by simp
    show "\<forall>j q. resident Q j q \<longrightarrow> \<not> dirty (frames Q ! j) \<longrightarrow> frame_page (frames Q ! j) = disk_page (pool_disk Q) q"
      using pool_invD(3) [OF inv] f'(2) i unfolding res by (auto simp: Q nth_list_update)
    show "\<forall>q \<in> torn (pool_disk Q). \<exists>j. resident Q j q \<and> dirty (frames Q ! j)"
    proof
      fix q
      assume "q \<in> torn (pool_disk Q)"
      then obtain j where j: "resident P j q" "dirty (frames P ! j)"
        using pool_invD(4) [OF inv, of q] by (auto simp: Q)
      then have "j \<noteq> i"
        using clean by auto
      then show "\<exists>j. resident Q j q \<and> dirty (frames Q ! j)"
        using j by (intro exI [of _ j]) (simp add: res, simp add: Q)
    qed
  qed
  show "resident Q i pid" "resident P j q \<Longrightarrow> j \<noteq> i \<Longrightarrow> resident Q j q"
    by (simp_all add: res)
  show "cont Q = cont P"
  proof (rule ext)
    fix q
    consider "q = pid" | "q \<noteq> pid" "resident P i q" | "q \<noteq> pid" "\<not> resident P i q"
      by blast
    then show "cont Q q = cont P q"
    proof cases
      case 1
      then show ?thesis
        using absent f'(2) i by (simp add: content_def Q hm_laws)
    next
      case 2
      then have "cont P q = disk_page (pool_disk P) q"
        using content_resident [OF inv] pool_invD(3) [OF inv _ clean] by simp
      moreover have "hm_get (page_table Q) q = None"
        using 2 by (simp add: Q hm_laws drop_entry_get resident_def)
      ultimately show ?thesis
        by (simp add: content_def Q)
    next
      case 3
      then have "hm_get (page_table Q) q = hm_get (page_table P) q" "hm_get (page_table P) q \<noteq> Some i"
        using i pool_inv_get [OF inv, of q i] by (auto simp: Q hm_laws drop_entry_get resident_def)
      then show ?thesis
        using i by (auto simp: content_def Q nth_list_update split: option.split)
    qed
  qed
qed

lemma write_back_keeps:
  assumes inv: "inv P" and i: "i < length (frames P)" and wb: "write_back wr (frames P ! i) (pool_disk P) = (w, d')"
  shows "inv (P\<lparr>pool_disk := d'\<rparr>)" "cont (P\<lparr>pool_disk := d'\<rparr>) = cont P"
    "w = Inr u \<Longrightarrow> inv (P\<lparr>pool_disk := d', frames := (frames P)[i := (frames P ! i)\<lparr>dirty := False\<rparr>]\<rparr>)"
    "w = Inr u \<Longrightarrow> cont (P\<lparr>pool_disk := d', frames := (frames P)[i := (frames P ! i)\<lparr>dirty := False\<rparr>]\<rparr>) = cont P"
proof -
  let ?f = "frames P ! i" and ?P = "P\<lparr>pool_disk := d'\<rparr>"
  have written: "wr pid (frame_page ?f) (pool_disk P) = (w, d')" if "frame_page_id ?f = Some pid" "dirty ?f" for pid
    using wb that by (simp add: write_back_def)
  have idle: "d' = pool_disk P" if "\<not> (\<exists>pid. frame_page_id ?f = Some pid \<and> dirty ?f)"
    using wb that by (auto simp: write_back_def split: option.splits if_splits)
  have keep: "inv ?P \<and> cont ?P = cont P"
  proof (cases "\<exists>pid. frame_page_id ?f = Some pid \<and> dirty ?f")
    case True
    then obtain pid where "frame_page_id ?f = Some pid" "dirty ?f"
      by blast
    then show ?thesis
      using write_keeps [OF inv _ _ written] i by (simp add: resident_def)
  next
    case False
    then show ?thesis
      using idle inv by simp
  qed
  then show inv': "inv ?P" and cont': "cont ?P = cont P"
    by blast+
  have disk: "frame_page (frames ?P ! i) = disk_page (pool_disk ?P) pid \<and> pid \<notin> torn (pool_disk ?P)"
    if "resident ?P i pid" "w = Inr u" for pid
  proof (cases "dirty ?f")
    case True
    then have "wr pid (frame_page ?f) (pool_disk P) = (Inr u, d')"
      using written [of pid] that by (simp add: resident_def)
    then show ?thesis
      using wr_stores [OF pool_invD(2) [OF inv i]] by auto
  next
    case False
    then have "d' = pool_disk P"
      using idle by blast
    moreover have "pid \<notin> torn (pool_disk P)"
    proof
      assume "pid \<in> torn (pool_disk P)"
      then obtain j where "resident P j pid" "dirty (frames P ! j)"
        using pool_invD(4) [OF inv] by blast
      then show False
        using resident_unique [OF inv, of i pid j] that(1) False by (auto simp: resident_def)
    qed
    ultimately show ?thesis
      using pool_invD(3) [OF inv, of i pid] that(1) False by (simp add: resident_def)
  qed
  show "inv (P\<lparr>pool_disk := d', frames := (frames P)[i := ?f\<lparr>dirty := False\<rparr>]\<rparr>)" if "w = Inr u"
    using clean_keeps(1) [OF inv' _ disk] i that by simp
  show "cont (P\<lparr>pool_disk := d', frames := (frames P)[i := ?f\<lparr>dirty := False\<rparr>]\<rparr>) = cont P" if "w = Inr u"
    using clean_keeps(2) [OF inv' _ disk] i that cont' by simp
qed

text \<open>Fetching a page: what it returns, and that neither contents nor pinned frames change.\<close>

lemma fetch_ok:
  assumes inv: "inv P" and run: "fetch_page rd wr pid P = (Inr idx, P')"
  shows "inv P'" "cont P' = cont P" "resident P' idx pid" "length (frames P') = length (frames P)"
    "j < length (frames P) \<Longrightarrow> pin_count (frames P ! j) \<noteq> 0 \<Longrightarrow> j \<noteq> idx \<Longrightarrow> frames P' ! j = frames P ! j"
    "pin_count (frames P' ! idx) = (if resident P idx pid then pin_count (frames P ! idx) + 1 else 1)"
proof -
  have "inv P' \<and> cont P' = cont P \<and> resident P' idx pid \<and> length (frames P') = length (frames P)
    \<and> (\<forall>j < length (frames P). pin_count (frames P ! j) \<noteq> 0 \<longrightarrow> j \<noteq> idx \<longrightarrow> frames P' ! j = frames P ! j)
    \<and> pin_count (frames P' ! idx) = (if resident P idx pid then pin_count (frames P ! idx) + 1 else 1)"
  proof (cases "hm_get (page_table P) pid")
    case (Some i)
    then have res: "resident P i pid"
      using pool_inv_get [OF inv] by blast
    then have i: "i < length (frames P)"
      by (simp add: resident_def)
    let ?f = "(frames P ! i)\<lparr>pin_count := pin_count (frames P ! i) + 1, referenced := True\<rparr>"
    have P': "idx = i" "P' = P\<lparr>frames := (frames P)[i := ?f]\<rparr>"
      using run Some i by (auto simp: fetch_page_def io_defs update_frame_def index_frame_def slice_index_def)
    have upd: "pool_inv disk_page torn P'" "content disk_page P' = (\<lambda>q. if frame_page_id (frames P ! i) = Some q then frame_page ?f else cont P q)"
        "resident P' = resident P"
      unfolding P' using update_frame_keeps [OF inv i, of ?f] pool_invD(2) [OF inv i] by simp_all
    have "cont P' = cont P"
      unfolding upd(2) using content_resident [OF inv] i by (intro ext) (simp add: resident_def)
    then show ?thesis
      using upd(1,3) res i by (simp add: P')
  next
    case None
    obtain v P1 where v: "find_victim P = (Inr v, P1)" and same: "same_but_bits P P1"
        and unpinned: "\<And>i. v = Some i \<Longrightarrow> i < length (frames P) \<and> pin_count (frames P ! i) = 0"
      using find_victim_spec [OF pool_invD(1) [OF inv]] by metis
    note inv1 = same_but_bits_keeps [OF same inv]
    have len: "length (frames P1) = length (frames P)" "hm_get (page_table P1) pid = None"
      using same None by (simp_all add: same_but_bits_def)
    note fetch = fetch_miss [OF None v, of rd wr]
    obtain i where vi: "v = Some i" "i < length (frames P1)" "pin_count (frames P ! i) = 0"
      using fetch run unpinned len(1) by (cases v) auto
    let ?f = "frames P1 ! i"
    obtain u d p d' where wb: "write_back wr ?f (pool_disk P1) = (Inr u, d)" and rd: "rd pid d = (Inr p, d')"
        and P': "idx = i" "P' = P1\<lparr>pool_disk := d', frames := (frames P1)[i := installed p pid],
            page_table := hm_insert (drop_entry (frame_page_id ?f) (page_table P1)) pid i\<rparr>"
      using fetch run unpinned len(1) vi by (auto split: prod.splits sum.splits)
    let ?P2 = "P1\<lparr>frames := (frames P1)[i := ?f\<lparr>dirty := False\<rparr>], pool_disk := d'\<rparr>"
    have d: "disk_page d' = disk_page d" "torn d' = torn d" "p = disk_page d pid"
      using rd_keeps [OF rd] rd_value [OF rd] by simp_all
    have inv2: "inv ?P2" "cont ?P2 = cont P1"
      using write_back_keeps(3,4) [OF inv1(1) vi(2) wb] d(1,2)
        same_disk_pages [of disk_page d' "P1\<lparr>pool_disk := d, frames := (frames P1)[i := ?f\<lparr>dirty := False\<rparr>]\<rparr>" torn] by simp_all
    have inst: "frame_page_id (installed p pid) = Some pid" "frame_page (installed p pid) = disk_page (pool_disk ?P2) pid"
      by (simp_all add: installed_def d)
    have Q: "P' = ?P2\<lparr>frames := (frames ?P2)[i := installed p pid],
        page_table := hm_insert (drop_entry (frame_page_id (frames ?P2 ! i)) (page_table ?P2)) pid i\<rparr>"
      using vi(2) by (intro buffer_pool.equality) (simp_all add: P')
    have "inv P'" "cont P' = cont ?P2" "resident P' i pid"
      using replace_keeps(1-3) [OF inv2(1) _ _ _ inst Q] vi(2) len by simp_all
    moreover have "frames P' ! j = frames P ! j" if "j < length (frames P)" "pin_count (frames P ! j) \<noteq> 0" "j \<noteq> i" for j
      using that same by (auto simp: P' same_but_bits_def dest!: spec [of _ j])
    moreover have "\<not> resident P i pid"
      using pool_inv_get [OF inv, of pid i] None by simp
    ultimately show ?thesis
      using inv1(2) inv2(2) len vi(2) by (simp add: P') (simp add: installed_def)
  qed
  then show "inv P'" "cont P' = cont P" "resident P' idx pid" "length (frames P') = length (frames P)"
    "j < length (frames P) \<Longrightarrow> pin_count (frames P ! j) \<noteq> 0 \<Longrightarrow> j \<noteq> idx \<Longrightarrow> frames P' ! j = frames P ! j"
    "pin_count (frames P' ! idx) = (if resident P idx pid then pin_count (frames P ! idx) + 1 else 1)"
    by blast+
qed

text \<open>A failed fetch loses no page either: a victim that left the page table has been written.\<close>

lemma fetch_fails:
  assumes inv: "inv P" and run: "fetch_page rd wr pid P = (Inl e, P')"
  shows "cont P' = cont P"
    "j < length (frames P) \<Longrightarrow> pin_count (frames P ! j) \<noteq> 0 \<Longrightarrow> frames P' ! j = frames P ! j"
    "page_table P' = page_table P \<Longrightarrow> inv P'"
proof -
  have None: "hm_get (page_table P) pid = None"
  proof (rule ccontr)
    assume "hm_get (page_table P) pid \<noteq> None"
    then obtain i where "hm_get (page_table P) pid = Some i" "i < length (frames P)"
      using pool_inv_get [OF inv, of pid] by (auto simp: resident_def)
    then show False
      using run by (auto simp: fetch_page_def io_defs update_frame_def index_frame_def slice_index_def)
  qed
  obtain v P1 where v: "find_victim P = (Inr v, P1)" and same: "same_but_bits P P1"
      and unpinned: "\<And>i. v = Some i \<Longrightarrow> i < length (frames P) \<and> pin_count (frames P ! i) = 0"
    using find_victim_spec [OF pool_invD(1) [OF inv]] by metis
  note inv1 = same_but_bits_keeps [OF same inv]
  have len: "length (frames P1) = length (frames P)" and table: "page_table P1 = page_table P"
    using same by (simp_all add: same_but_bits_def)
  note fetch = fetch_miss [OF None v, of rd wr]
  have pinned: "frames P1 ! j = frames P ! j" if "j < length (frames P)" "pin_count (frames P ! j) \<noteq> 0" for j
    using that same by (auto simp: same_but_bits_def dest!: spec [of _ j])
  have "cont P' = cont P \<and> frames P' = frames P1 \<and> (page_table P' = page_table P \<longrightarrow> inv P')"
  proof (cases v)
    case None
    then show ?thesis
      using fetch run inv1(1,2) by simp
  next
    case (Some i)
    let ?f = "frames P1 ! i"
    have i: "i < length (frames P1)"
      using unpinned Some len by simp
    obtain w d where wb: "write_back wr ?f (pool_disk P1) = (w, d)"
      by fastforce
    show ?thesis
    proof (cases w)
      case (Inl e')
      then have "P' = P1\<lparr>pool_disk := d\<rparr>"
        using fetch run Some wb i by auto
      then show ?thesis
        using write_back_keeps(1,2) [OF inv1(1) i wb] inv1(2) by simp
    next
      case (Inr u)
      obtain d' where rd: "rd pid d = (Inl e, d')" and P': "P' = P1\<lparr>pool_disk := d', page_table := drop_entry (frame_page_id ?f) (page_table P1)\<rparr>"
        using fetch run Some wb i Inr by (auto split: prod.splits sum.splits)
      let ?P2 = "P1\<lparr>pool_disk := d, frames := (frames P1)[i := ?f\<lparr>dirty := False\<rparr>]\<rparr>"
      have inv2: "inv ?P2" "cont ?P2 = cont P1"
        using write_back_keeps(3,4) [OF inv1(1) i wb Inr] by simp_all
      have d: "disk_page d' = disk_page d" "torn d' = torn d"
        using rd_keeps [OF rd] by simp_all
      have "inv P'" if kept: "page_table P' = page_table P"
      proof -
        have free: "frame_page_id ?f = None"
        proof (rule ccontr)
          assume "frame_page_id ?f \<noteq> None"
          then obtain q where q: "frame_page_id ?f = Some q"
            by blast
          then have "hm_get (page_table P) q = Some i"
            using pool_inv_get [OF inv1(1), of q i] i table by (simp add: resident_def)
          moreover have "hm_get (page_table P') q = None"
            by (simp add: P' q drop_entry_get)
          ultimately show False
            using kept by simp
        qed
        then have "d = pool_disk P1" "P' = P1\<lparr>pool_disk := d'\<rparr>"
          using wb by (simp_all add: write_back_def P' drop_entry_def)
        then show ?thesis
          using same_disk_pages(1) [of disk_page d' P1 torn] d inv1(1) by simp
      qed
      moreover have "cont P' q = cont ?P2 q" for q
      proof (cases "frame_page_id ?f = Some q")
        case True
        then have "resident ?P2 i q" "\<not> dirty (frames ?P2 ! i)"
          using i by (simp_all add: resident_def)
        then have "cont ?P2 q = disk_page d q"
          using content_resident [OF inv2(1)] pool_invD(3) [OF inv2(1)] by simp
        then show ?thesis
          using True by (simp add: content_def P' drop_entry_get d(1))
      next
        case False
        then show ?thesis
          using i by (auto simp: content_def P' drop_entry_get d(1) nth_list_update split: option.split)
      qed
      ultimately show ?thesis
        using inv2(2) inv1(2) by (auto simp: fun_eq_iff) (simp_all add: P')
    qed
  qed
  then show "cont P' = cont P" "j < length (frames P) \<Longrightarrow> pin_count (frames P ! j) \<noteq> 0 \<Longrightarrow> frames P' ! j = frames P ! j"
    "page_table P' = page_table P \<Longrightarrow> inv P'"
    using pinned by auto
qed

text \<open>Flushing one frame keeps the state whether or not the write succeeds; a success leaves it clean.\<close>

lemma flush_frame_spec:
  assumes inv: "inv P" and res: "resident P i pid" and run: "flush_frame wr pid i P = (r, P')"
  shows "inv P'" "cont P' = cont P" "page_table P' = page_table P" "resident P' = resident P"
    "resident P j q \<Longrightarrow> \<not> dirty (frames P ! j) \<Longrightarrow> \<not> dirty (frames P' ! j)" "r = Inr u \<Longrightarrow> \<not> dirty (frames P' ! i)"
proof -
  have i: "i < length (frames P)" "frame_page_id (frames P ! i) = Some pid"
    using res by (simp_all add: resident_def)
  let ?f = "frames P ! i"
  obtain w d where wb: "write_back wr ?f (pool_disk P) = (w, d)"
    by fastforce
  have "inv P' \<and> cont P' = cont P \<and> page_table P' = page_table P \<and> resident P' = resident P
    \<and> (\<forall>j q. resident P j q \<longrightarrow> \<not> dirty (frames P ! j) \<longrightarrow> \<not> dirty (frames P' ! j)) \<and> (r = Inr u \<longrightarrow> \<not> dirty (frames P' ! i))"
  proof (cases "dirty ?f")
    case False
    then have "P' = P"
      using run i by (simp add: flush_frame_def io_defs index_frame_def slice_index_def)
    then show ?thesis
      using inv False by simp
  next
    case True
    show ?thesis
    proof (cases w)
      case (Inl e)
      then have P': "P' = P\<lparr>pool_disk := d\<rparr>" "r = Inl e"
        using run i True wb by (auto simp: flush_frame_def io_defs index_frame_def slice_index_def on_disk_def write_back_def)
      then show ?thesis
        using write_back_keeps(1,2) [OF inv i(1) wb] by (simp add: resident_def fun_eq_iff)
    next
      case (Inr w')
      then have P': "P' = P\<lparr>pool_disk := d, frames := (frames P)[i := ?f\<lparr>dirty := False\<rparr>]\<rparr>"
        using run i True wb
        by (auto simp: flush_frame_def io_defs index_frame_def slice_index_def on_disk_def write_back_def update_frame_def)
      have "resident P' = resident P"
        using i by (auto simp: P' resident_def fun_eq_iff nth_list_update)
      then show ?thesis
        using write_back_keeps(3,4) [OF inv i(1) wb Inr] i by (simp add: P' nth_list_update)
    qed
  qed
  then show "inv P'" "cont P' = cont P" "page_table P' = page_table P" "resident P' = resident P"
    "resident P j q \<Longrightarrow> \<not> dirty (frames P ! j) \<Longrightarrow> \<not> dirty (frames P' ! j)" "r = Inr u \<Longrightarrow> \<not> dirty (frames P' ! i)"
    by blast+
qed

lemma flush_entries_spec:
  assumes "inv P" "\<forall>e \<in> set es. resident P (snd e) (fst e)" "flush_entries wr es P = (r, P')"
  shows "inv P' \<and> cont P' = cont P \<and> page_table P' = page_table P \<and> resident P' = resident P
    \<and> (\<forall>j q. resident P j q \<longrightarrow> \<not> dirty (frames P ! j) \<longrightarrow> \<not> dirty (frames P' ! j))
    \<and> (r = Inr u \<longrightarrow> (\<forall>e \<in> set es. \<not> dirty (frames P' ! snd e)))"
  using assms
proof (induction es arbitrary: P)
  case Nil
  then show ?case
    by (simp add: io_return_def)
next
  case (Cons e es)
  obtain r1 P1 where run1: "flush_frame wr (fst e) (snd e) P = (r1, P1)"
    by fastforce
  have res: "resident P (snd e) (fst e)"
    using Cons.prems(2) by simp
  note one = flush_frame_spec [OF Cons.prems(1) res run1]
  show ?case
  proof (cases r1)
    case (Inl err)
    then have "r = Inl err" "P' = P1"
      using Cons.prems(3) run1 by (simp_all add: io_bind_def)
    then show ?thesis
      using one by simp
  next
    case (Inr u1)
    then have "flush_entries wr es P1 = (r, P')"
      using Cons.prems(3) run1 by (simp add: io_bind_def)
    then have rest: "inv P' \<and> cont P' = cont P1 \<and> page_table P' = page_table P1 \<and> resident P' = resident P1
        \<and> (\<forall>j q. resident P1 j q \<longrightarrow> \<not> dirty (frames P1 ! j) \<longrightarrow> \<not> dirty (frames P' ! j))
        \<and> (r = Inr u \<longrightarrow> (\<forall>e \<in> set es. \<not> dirty (frames P' ! snd e)))"
      using Cons.IH [OF one(1)] Cons.prems(2) one(4) by simp
    moreover have "\<not> dirty (frames P' ! snd e)"
      using rest one(6) [OF Inr] res unfolding one(4) by blast
    moreover have "\<not> dirty (frames P' ! j)" if "resident P j q" "\<not> dirty (frames P ! j)" for j q
      using rest that one(5) [OF that] unfolding one(4) by blast
    ultimately show ?thesis
      using one(2-4) by auto
  qed
qed

lemma flush_keys_entries:
  assumes "\<forall>pid \<in> set pids. hm_get (page_table P) pid \<noteq> None" "inv P"
  shows "flush_keys wr pids P = flush_entries wr (map (\<lambda>pid. (pid, the (hm_get (page_table P) pid))) pids) P"
  using assms
proof (induction pids arbitrary: P)
  case (Cons pid pids)
  then obtain i where i: "hm_get (page_table P) pid = Some i"
    by auto
  then have res: "resident P i pid"
    using pool_inv_get [OF Cons.prems(2)] by blast
  obtain r1 P1 where run1: "flush_frame wr pid i P = (r1, P1)"
    by fastforce
  note one = flush_frame_spec [OF Cons.prems(2) res run1]
  show ?case
    using Cons.IH [of P1] Cons.prems(1) one(1,3) i run1 by (cases r1) (simp_all add: io_bind_def)
qed simp

lemma flush_all_spec:
  assumes inv: "inv P" and run: "flush_all wr P = (r, P')"
  shows "inv P'" "cont P' = cont P" "r = Inr u \<Longrightarrow> disk_page (pool_disk P') = cont P"
proof -
  let ?es = "map (\<lambda>pid. (pid, the (hm_get (page_table P) pid))) (map fst (page_table P))"
  have dom: "\<forall>pid \<in> set (map fst (page_table P)). hm_get (page_table P) pid \<noteq> None"
    by (auto simp: hm_get_def map_of_eq_None_iff)
  then have run': "flush_entries wr ?es P = (r, P')"
    using run flush_keys_entries [OF dom inv] by (simp add: flush_all_def)
  have res: "\<forall>e \<in> set ?es. resident P (snd e) (fst e)"
    using dom pool_inv_get [OF inv] by fastforce
  note spec = flush_entries_spec [OF inv res run', of u]
  then show inv': "inv P'" and "cont P' = cont P"
    by simp_all
  show "disk_page (pool_disk P') = cont P" if "r = Inr u"
  proof (rule ext)
    fix q
    show "disk_page (pool_disk P') q = cont P q"
    proof (cases "hm_get (page_table P) q")
      case None
      then have "cont P' q = disk_page (pool_disk P') q"
        by (intro content_absent) (simp add: spec)
      then show ?thesis
        using spec by simp
    next
      case (Some i)
      then have "q \<in> set (map fst (page_table P))"
        by (auto simp: hm_get_def dest!: map_of_SomeD intro: rev_image_eqI)
      then have "(q, i) \<in> set ?es"
        using Some unfolding set_map [of _ "map fst (page_table P)"] by (intro image_eqI [of _ _ q]) simp_all
      then have "\<not> dirty (frames P' ! snd (q, i))"
        using spec that by blast
      moreover have "resident P' i q"
        using spec Some pool_inv_get [OF inv] by simp
      ultimately have "\<not> dirty (frames P' ! i)" "resident P' i q"
        by simp_all
      then show ?thesis
        using pool_invD(3) [OF inv'] content_resident [OF inv'] spec by metis
    qed
  qed
qed

lemma resident_update_keeps:
  assumes inv: "inv P" and res: "resident P i pid"
    and f': "frame_page_id f' = Some pid" "frame_page f' = frame_page (frames P ! i)" "dirty (frames P ! i) \<longrightarrow> dirty f'"
  shows "inv (P\<lparr>frames := (frames P)[i := f']\<rparr>) \<and> cont (P\<lparr>frames := (frames P)[i := f']\<rparr>) = cont P"
proof -
  have i: "i < length (frames P)" "frame_page_id (frames P ! i) = Some pid"
    using res by (simp_all add: resident_def)
  have "(\<lambda>q. if frame_page_id (frames P ! i) = Some q then frame_page f' else cont P q) = cont P"
    using content_resident [OF inv res] i(2) f'(2) by (intro ext) auto
  then show ?thesis
    using update_frame_keeps(1,2) [OF inv i(1), of f'] f' i(2) pool_invD(2) [OF inv i(1)] by simp
qed

lemma unpin_page_spec:
  assumes inv: "inv P" and run: "unpin_page pid b P = (r, P')"
  shows "r = Inr () \<and> inv P' \<and> cont P' = cont P"
proof (cases "hm_get (page_table P) pid")
  case (Some i)
  then have res: "resident P i pid"
    using pool_inv_get [OF inv] by blast
  then have i: "i < length (frames P)"
    by (simp add: resident_def)
  let ?f = "frames P ! i"
  let ?g = "if pin_count ?f > 0 then ?f\<lparr>pin_count := pin_count ?f - 1\<rparr> else ?f"
  have "r = Inr ()" "P' = P\<lparr>frames := (frames P)[i := (if b then ?g\<lparr>dirty := True\<rparr> else ?g)]\<rparr>"
    using run Some i by (auto simp: unpin_page_def io_defs update_frame_run split: if_splits)
  then show ?thesis
    using resident_update_keeps [OF inv res, of "if b then ?g\<lparr>dirty := True\<rparr> else ?g"] res by (simp add: resident_def)
qed (use run inv in \<open>simp add: unpin_page_def\<close>)

lemma mark_dirty_spec:
  assumes inv: "inv P" and run: "mark_dirty pid P = (r, P')"
  shows "r = Inr () \<and> inv P' \<and> cont P' = cont P"
proof (cases "hm_get (page_table P) pid")
  case (Some i)
  then have res: "resident P i pid"
    using pool_inv_get [OF inv] by blast
  then show ?thesis
    using resident_update_keeps [OF inv res, of "(frames P ! i)\<lparr>dirty := True\<rparr>"] run Some
    by (auto simp: resident_def mark_dirty_def update_frame_run)
qed (use run inv in \<open>simp add: mark_dirty_def\<close>)

lemma next_page_num_irrelevant [simp]:
  "inv (P\<lparr>next_page_num := m\<rparr>) = inv P" "cont (P\<lparr>next_page_num := m\<rparr>) = cont P"
  by (simp_all add: pool_inv_def hand_ok_def resident_def content_def fun_eq_iff split: option.split)

lemma new_page_ok:
  assumes inv: "inv P" and run: "new_page rd wr tid P = (Inr pid, P')"
  shows "inv P' \<and> cont P' = cont P \<and> (\<exists>i. resident P' i pid \<and> dirty (frames P' ! i))"
proof -
  obtain m P1 idx where P1: "fetch_page rd wr pid (P\<lparr>next_page_num := m\<rparr>) = (Inr idx, P1)"
      and P': "update_frame idx (\<lambda>f. f\<lparr>dirty := True\<rparr>) P1 = (Inr (), P')"
    using run by (auto simp: new_page_def io_defs modify_pool_def Let_def split: prod.splits sum.splits)
  note one = fetch_ok [OF _ P1, unfolded next_page_num_irrelevant, OF inv]
  have i: "idx < length (frames P1)"
    using one(3) by (simp add: resident_def)
  then have "P' = P1\<lparr>frames := (frames P1)[idx := (frames P1 ! idx)\<lparr>dirty := True\<rparr>]\<rparr>"
    using P' by (simp add: update_frame_run)
  then show ?thesis
    using resident_update_keeps [OF one(1,3), of "(frames P1 ! idx)\<lparr>dirty := True\<rparr>"] one(2,3) i
    by (auto simp: resident_def intro!: exI [of _ idx])
qed

lemma modify_spec:
  assumes inv: "inv P" and g: "\<And>p. page_ok p \<Longrightarrow> page_ok (g p)" and run: "run_cmd rd wr (Cmd_Modify pid g) P = (Inr u, P')"
  shows "inv P' \<and> cont P' = (cont P)(pid := g (cont P pid))"
proof -
  obtain i P1 where P1: "fetch_page rd wr pid P = (Inr i, P1)"
      and run1: "io_bind (get_page_mut i g) (\<lambda>_. unpin_page pid True) P1 = (Inr u, P')"
    using run by (auto simp: io_bind_def split: prod.splits sum.splits)
  note one = fetch_ok [OF inv P1]
  have i: "i < length (frames P1)" "frame_page_id (frames P1 ! i) = Some pid"
    using one(3) by (simp_all add: resident_def)
  let ?f = "frames P1 ! i"
  let ?g = "?f\<lparr>frame_page := g (frame_page ?f)\<rparr>"
  let ?h = "(if pin_count ?f > 0 then ?g\<lparr>pin_count := pin_count ?f - 1\<rparr> else ?g)\<lparr>dirty := True\<rparr>"
  have "hm_get (page_table P1) pid = Some i"
    using pool_inv_get [OF one(1)] one(3) by blast
  then have P': "P' = P1\<lparr>frames := (frames P1)[i := ?h]\<rparr>"
    using run1 i by (auto simp: get_page_mut_def unpin_page_def io_defs update_frame_run split: if_splits)
  have "inv P'" "cont P' = (\<lambda>q. if frame_page_id ?f = Some q then frame_page ?h else cont P1 q)"
    using update_frame_keeps(1,2) [OF one(1) i(1), of ?h] g pool_invD(2) [OF one(1) i(1)] by (simp_all add: P')
  moreover have "frame_page ?h = g (cont P pid)"
    using content_resident [OF one(1,3)] one(2) by simp
  ultimately show ?thesis
    using i(2) one(2) by (auto simp: fun_eq_iff)
qed

lemma flush_page_spec:
  assumes inv: "inv P" and run: "flush_page wr pid P = (r, P')"
  shows "inv P' \<and> cont P' = cont P"
proof (cases "hm_get (page_table P) pid")
  case None
  then show ?thesis
    using run inv by (simp add: flush_page_def)
next
  case (Some i)
  then have "resident P i pid" "flush_frame wr pid i P = (r, P')"
    using pool_inv_get [OF inv, of pid i] run by (simp_all add: flush_page_def)
  then show ?thesis
    using flush_frame_spec(1,2) [OF inv] by blast
qed

lemma flush_table_spec:
  assumes inv: "inv P" and run: "flush_table wr tid P = (r, P')"
  shows "inv P' \<and> cont P' = cont P"
  using flush_entries_spec [OF inv table_entries [OF inv] run [unfolded flush_table_def]] by blast

lemma run_cmd_ok:
  assumes inv: "inv P" and ok: "cmd_ok c" and run: "run_cmd rd wr c P = (Inr u, P')"
  shows "inv P' \<and> cont P' = spec_cmd c (cont P)"
proof (cases c)
  case (Cmd_Fetch pid)
  then show ?thesis
    using run fetch_ok(1,2) [OF inv] by (auto simp: io_defs split: prod.splits sum.splits)
next
  case (Cmd_New tid)
  then show ?thesis
    using run new_page_ok [OF inv] by (auto simp: io_defs split: prod.splits sum.splits)
next
  case (Cmd_Modify pid g)
  then show ?thesis
    using modify_spec [OF inv, of g pid u P'] ok run by (simp del: run_cmd.simps)
next
  case (Cmd_Unpin pid b)
  then show ?thesis
    using unpin_page_spec [OF inv] run by simp
next
  case (Cmd_Mark pid)
  then show ?thesis
    using mark_dirty_spec [OF inv] run by simp
next
  case (Cmd_Flush_Page pid)
  then show ?thesis
    using run flush_page_spec [OF inv] by simp
next
  case (Cmd_Flush_Table tid)
  then show ?thesis
    using run flush_table_spec [OF inv] by simp
next
  case Cmd_Flush_All
  then show ?thesis
    using flush_all_spec [OF inv] run by simp
qed

lemma run_cmd_fails:
  assumes inv: "inv P" and run: "run_cmd rd wr c P = (Inl e, P')"
  shows "cont P' = cont P \<and> (page_table P' = page_table P \<longrightarrow> inv P')"
proof (cases c)
  case (Cmd_Fetch pid)
  then show ?thesis
    using run fetch_fails(1,3) [OF inv] by (auto simp: io_defs split: prod.splits sum.splits)
next
  case (Cmd_New tid)
  obtain m pid where m: "new_page rd wr tid P = io_bind (fetch_page rd wr pid) (\<lambda>idx.
         io_bind (update_frame idx (\<lambda>f. f\<lparr>dirty := True\<rparr>)) (\<lambda>_. io_return pid)) (P\<lparr>next_page_num := m\<rparr>)"
    by (simp add: new_page_def Let_def io_bind_def modify_pool_def)
  obtain r P1 where P1: "fetch_page rd wr pid (P\<lparr>next_page_num := m\<rparr>) = (r, P1)"
    by fastforce
  have inv': "inv (P\<lparr>next_page_num := m\<rparr>)"
    using inv by simp
  show ?thesis
  proof (cases r)
    case (Inl e')
    then have "P' = P1"
      using run Cmd_New P1 by (simp add: m io_bind_def)
    then show ?thesis
      using fetch_fails(1,3) [OF inv'] P1 Inl by simp
  next
    case (Inr i)
    then have "i < length (frames P1)"
      using fetch_ok(3) [OF inv'] P1 by (simp add: resident_def)
    then show ?thesis
      using run Cmd_New P1 Inr by (simp add: m io_bind_def update_frame_run io_return_def)
  qed
next
  case (Cmd_Modify pid g)
  obtain r P1 where P1: "fetch_page rd wr pid P = (r, P1)"
    by fastforce
  show ?thesis
  proof (cases r)
    case (Inl e')
    then show ?thesis
      using run Cmd_Modify P1 fetch_fails(1,3) [OF inv, of pid e' P1] by (simp add: io_bind_def)
  next
    case (Inr i)
    note one = fetch_ok [OF inv P1 [unfolded Inr]]
    have "i < length (frames P1)" "hm_get (page_table P1) pid = Some i"
      using one(3) pool_inv_get [OF one(1)] by (auto simp: resident_def)
    then show ?thesis
      using run Cmd_Modify P1 Inr by (auto simp: io_defs get_page_mut_def unpin_page_def update_frame_run)
  qed
next
  case (Cmd_Flush_Page pid)
  then show ?thesis
    using run flush_page_spec [OF inv] by simp
next
  case (Cmd_Flush_Table tid)
  then show ?thesis
    using run flush_table_spec [OF inv] by simp
qed (use run unpin_page_spec [OF inv] mark_dirty_spec [OF inv] flush_all_spec [OF inv] in auto)

lemma run_all_spec:
  assumes "inv P" "list_all cmd_ok cs" "keeps_table rd wr cs P" "run_all rd wr cs P = (rs, P')"
  shows "inv P' \<and> cont P' = fold spec_cmd (completed cs rs) (cont P)"
  using assms
proof (induction cs arbitrary: P rs)
  case Nil
  then show ?case
    by (simp add: completed_def)
next
  case (Cons c cs)
  obtain r P1 where run1: "run_cmd rd wr c P = (r, P1)"
    by fastforce
  obtain rs1 where run2: "run_all rd wr cs P1 = (rs1, P')" and rs: "rs = r # rs1"
    using Cons.prems(4) run1 by (auto split: prod.splits)
  have "inv P1 \<and> cont P1 = (if r = Inr () then spec_cmd c (cont P) else cont P)"
  proof (cases r)
    case (Inl e)
    then show ?thesis
      using run_cmd_fails [OF Cons.prems(1)] run1 Cons.prems(3) by simp
  next
    case (Inr u)
    then show ?thesis
      using run_cmd_ok [OF Cons.prems(1) _ run1 [unfolded Inr]] Cons.prems(2) by simp
  qed
  then show ?case
    using Cons.IH [OF _ _ _ run2] Cons.prems(2,3) run1 by (simp add: rs completed_def)
qed

end

text \<open>A disk on which operations succeed while \<open>calm\<close> holds.\<close>

locale reliable_store = page_store rd wr disk_page torn
  for rd :: "page_id \<Rightarrow> ('d, page) io" and wr :: "page_id \<Rightarrow> page \<Rightarrow> ('d, unit) io"
    and disk_page :: "'d \<Rightarrow> page_id \<Rightarrow> page" and torn :: "'d \<Rightarrow> page_id set" +
  fixes calm :: "'d \<Rightarrow> bool"
  assumes rd_calm: "calm d \<Longrightarrow> \<exists>p d'. rd pid d = (Inr p, d') \<and> calm d'"
    and wr_calm: "calm d \<Longrightarrow> \<exists>d'. wr pid p d = (Inr (), d') \<and> calm d'"
begin

lemma fetch_progress:
  assumes inv: "pool_inv disk_page torn P" and calm: "calm (pool_disk P)"
  shows "\<exists>r P'. fetch_page rd wr pid P = (r, P') \<and> calm (pool_disk P') \<and>
    (if hm_get (page_table P) pid \<noteq> None \<or> (\<exists>f \<in> set (frames P). pin_count f = 0)
     then \<exists>idx. r = Inr idx
     else r = Inl (Resource_Busy ''buffer pool exhausted: all frames pinned (increase capacity)''))"
proof (cases "hm_get (page_table P) pid")
  case (Some i)
  then have "i < length (frames P)"
    using pool_inv_get [OF inv, of pid i] by (simp add: resident_def)
  then show ?thesis
    using Some calm by (simp add: fetch_page_def io_defs update_frame_run)
next
  case None
  obtain v P1 where v: "find_victim P = (Inr v, P1)" and same: "same_but_bits P P1"
      and none: "v = None \<longleftrightarrow> (\<forall>f \<in> set (frames P). pin_count f \<noteq> 0)"
      and unpinned: "\<And>i. v = Some i \<Longrightarrow> i < length (frames P)"
    using find_victim_spec [OF pool_invD(1) [OF inv]] by metis
  have P1: "length (frames P1) = length (frames P)" "pool_disk P1 = pool_disk P"
    using same by (simp_all add: same_but_bits_def)
  have fetch: "fetch_page rd wr pid P = (case v of
      None \<Rightarrow> (Inl (Resource_Busy ''buffer pool exhausted: all frames pinned (increase capacity)''), P1)
    | Some i \<Rightarrow> (case write_back wr (frames P1 ! i) (pool_disk P1) of
        (Inl e, d) \<Rightarrow> (Inl e, P1\<lparr>pool_disk := d\<rparr>)
      | (Inr _, d) \<Rightarrow> (case rd pid d of
          (Inl e, d') \<Rightarrow> (Inl e, P1\<lparr>pool_disk := d', page_table := drop_entry (frame_page_id (frames P1 ! i)) (page_table P1)\<rparr>)
        | (Inr p, d') \<Rightarrow> (Inr i, P1\<lparr>pool_disk := d', frames := (frames P1)[i := installed p pid],
            page_table := hm_insert (drop_entry (frame_page_id (frames P1 ! i)) (page_table P1)) pid i\<rparr>))))"
    using fetch_miss [OF None v, of rd wr] unpinned P1(1) by simp
  show ?thesis
  proof (cases v)
    case None
    then show ?thesis
      using fetch none calm P1 \<open>hm_get (page_table P) pid = None\<close> by (auto simp del: append.simps)
  next
    case (Some i)
    obtain d where d: "write_back wr (frames P1 ! i) (pool_disk P1) = (Inr (), d)" "calm d"
    proof (cases "frame_page_id (frames P1 ! i)")
      case None
      then show ?thesis
        using that calm P1(2) by (simp add: write_back_def)
    next
      case (Some vpid)
      then show ?thesis
        using that wr_calm [of "pool_disk P" vpid "frame_page (frames P1 ! i)"] calm P1(2)
        by (cases "dirty (frames P1 ! i)") (auto simp: write_back_def)
    qed
    obtain p d' where "rd pid d = (Inr p, d')" "calm d'"
      using rd_calm [OF d(2)] by blast
    then show ?thesis
      using fetch Some d none by auto
  qed
qed

end

section \<open>The table files meet the contract\<close>

text \<open>What \<open>bytemuck\<close> documents for the plain-data header: 64 bytes, any 64 bytes are a header, the two
  conversions are inverse, and zero bytes are the zero header. \<open>bytemuck::from_bytes\<close> also panics on a slice that is
  not aligned for \<open>u64\<close>, which the code does not rule out (the pool passes a stack array of bytes): the
  hypothesis takes the slices to be aligned, and the model has no alignment.\<close>

definition pod_header :: "(page_header \<Rightarrow> u8 list) \<Rightarrow> (u8 list \<Rightarrow> panic + page_header) \<Rightarrow> bool" where
  "pod_header bytes_of header_of \<longleftrightarrow>
     (\<forall>h. length (bytes_of h) = HEADER_SIZE \<and> header_of (bytes_of h) = Inr h)
     \<and> (\<forall>bs. length bs = HEADER_SIZE \<longrightarrow> (\<exists>h. header_of bs = Inr h))
     \<and> header_of (replicate HEADER_SIZE 0) = Inr page_header_default"

definition file_page :: "(u8 list \<Rightarrow> panic + page_header) \<Rightarrow> disk \<Rightarrow> page_id \<Rightarrow> page" where
  "file_page header_of d pid =
     (let bs = file_bytes d (table_id pid)
      in if page_offset pid + PAGE_SIZE \<le> length bs
         then case page_from_bytes header_of (take PAGE_SIZE (drop (page_offset pid) bs)) of Inr (Inr p) \<Rightarrow> p | _ \<Rightarrow> page_new
         else page_new)"

definition torn_pages :: "disk \<Rightarrow> page_id set" where
  "torn_pages d = {pid. page_offset pid < length (file_bytes d (table_id pid))
     \<and> length (file_bytes d (table_id pid)) < page_offset pid + PAGE_SIZE}"

lemma file_bytes_simps [simp]:
  "file_bytes (d\<lparr>table_files := hm_insert (table_files d) tid bs\<rparr>) = (file_bytes d)(tid := bs)"
  "file_bytes (d\<lparr>open_handles := h\<rparr>) = file_bytes d" "file_bytes (d\<lparr>outcomes := oc\<rparr>) = file_bytes d"
  by (auto simp: file_bytes_def hm_laws fun_eq_iff)

lemma sys_call_bytes: "sys_call d = (r, d') \<Longrightarrow> file_bytes d' = file_bytes d"
  by (auto simp: sys_call_def split: prod.splits)

lemma sys_call_ok_bytes: "sys_call_ok d = (r, d') \<Longrightarrow> file_bytes d' = file_bytes d"
  unfolding sys_call_ok_def
  by (erule io_bind_cases) (auto simp: io_return_def io_fail_def split: io_outcome.splits dest: sys_call_bytes)

lemma open_table_bytes: "open_table tid d = (r, d') \<Longrightarrow> file_bytes d' = file_bytes d"
  unfolding open_table_def by (erule io_bind_cases) (auto dest!: sys_call_ok_bytes)

lemma get_file_bytes: "get_file tid d = (r, d') \<Longrightarrow> file_bytes d' = file_bytes d"
  unfolding get_file_def
  by (auto elim!: io_bind_cases dest!: open_table_bytes sys_call_ok_bytes split: option.splits)

text \<open>Bytes after a write.\<close>

lemma write_at_length: "bs \<noteq> [] \<Longrightarrow> length (write_at off bs file) = max (length file) (off + length bs)"
  by (simp add: write_at_def)

lemma write_at_nth:
  assumes "bs \<noteq> []" "i < max (length file) (off + length bs)"
  shows "write_at off bs file ! i =
    (if i < off then if i < length file then file ! i else 0 else if i < off + length bs then bs ! (i - off) else file ! i)"
  using assms by (auto simp: write_at_def nth_append min_def)

lemma write_at_window:
  assumes "bs \<noteq> []" "a + n \<le> off \<or> off + length bs \<le> a" "a + n \<le> length file"
  shows "take n (drop a (write_at off bs file)) = take n (drop a file)"
  using assms by (intro nth_equalityI) (auto simp: write_at_length write_at_nth)

lemma write_at_gap:
  assumes "bs \<noteq> []" "length file \<le> a" "a + n \<le> off"
  shows "take n (drop a (write_at off bs file)) = replicate n 0"
  using assms by (intro nth_equalityI) (auto simp: write_at_length write_at_nth)

lemma write_at_there: "bs \<noteq> [] \<Longrightarrow> take (length bs) (drop off (write_at off bs file)) = bs"
  by (intro nth_equalityI) (auto simp: write_at_length write_at_nth)

lemma page_offset_apart:
  assumes "p \<noteq> q" "table_id p = table_id q"
  shows "page_offset p + PAGE_SIZE \<le> page_offset q \<or> page_offset q + PAGE_SIZE \<le> page_offset p"
proof -
  have "page_num p \<noteq> page_num q"
    using assms by (metis page_id.equality unit.exhaust)
  then have "unat (page_num p) \<noteq> unat (page_num q)"
    using word_unat_eq_iff by blast
  then consider "Suc (unat (page_num p)) \<le> unat (page_num q)" | "Suc (unat (page_num q)) \<le> unat (page_num p)"
    by linarith
  then show ?thesis
  proof cases
    case 1
    then show ?thesis
      using mult_le_mono1 [OF 1, of PAGE_SIZE] by (simp add: page_offset_def)
  next
    case 2
    then show ?thesis
      using mult_le_mono1 [OF 2, of PAGE_SIZE] by (simp add: page_offset_def)
  qed
qed

lemma page_from_zeros: "pod_header bytes_of header_of \<Longrightarrow> page_from_bytes header_of (replicate PAGE_SIZE 0) = Inr (Inr page_new)"
  using from_bytes_layout [of "replicate HEADER_SIZE 0" "replicate (PAGE_SIZE - HEADER_SIZE) 0" header_of page_header_default "[]"]
  by (simp add: pod_header_def page_new_def page_consts flip: replicate_add)

lemma page_from_to_bytes:
  "pod_header bytes_of header_of \<Longrightarrow> page_ok p \<Longrightarrow> page_from_bytes header_of (page_to_bytes bytes_of p) = Inr (Inr p)"
  using from_bytes_layout [of "bytes_of (header p)" "cells p" header_of "header p" "[]"]
  by (simp add: pod_header_def page_to_bytes_def page_ok_def)

lemma page_to_bytes_length: "pod_header bytes_of header_of \<Longrightarrow> page_ok p \<Longrightarrow> length (page_to_bytes bytes_of p) = PAGE_SIZE"
  by (simp add: pod_header_def page_to_bytes_def page_ok_def page_consts)

lemma file_page_cong: "file_bytes d' = file_bytes d \<Longrightarrow> file_page header_of d' = file_page header_of d \<and> torn_pages d' = torn_pages d"
  by (simp add: file_page_def torn_pages_def fun_eq_iff)

lemma write_file_others:
  assumes codec: "pod_header bytes_of header_of" and len: "length bs \<le> PAGE_SIZE" and q: "q \<noteq> pid" "q \<notin> torn_pages d"
  shows "file_page header_of (write_file pid bs d) q = file_page header_of d q"
proof (cases "table_id q = table_id pid \<and> bs \<noteq> []")
  case False
  then show ?thesis
    by (auto simp: file_page_def write_file_def write_at_def)
next
  case True
  let ?f = "file_bytes d (table_id pid)" and ?o = "page_offset q" and ?off = "page_offset pid"
  have apart: "?o + PAGE_SIZE \<le> ?off \<or> ?off + PAGE_SIZE \<le> ?o"
    using page_offset_apart q(1) True by blast
  have size: "0 < PAGE_SIZE"
    by (simp add: page_consts)
  have whole: "length ?f \<le> ?o \<or> ?o + PAGE_SIZE \<le> length ?f"
    using q(2) True by (auto simp: torn_pages_def)
  consider "?o + PAGE_SIZE \<le> length ?f" | "length ?f \<le> ?o" "?o + PAGE_SIZE \<le> ?off" | "length ?f \<le> ?o" "?off + PAGE_SIZE \<le> ?o"
    using apart whole by blast
  then show ?thesis
  proof cases
    case 1
    then show ?thesis
      using True apart len write_at_window [of bs ?o PAGE_SIZE ?off ?f] by (auto simp: file_page_def write_file_def write_at_length)
  next
    case 2
    then show ?thesis
      using True size write_at_gap [of bs ?f ?o PAGE_SIZE ?off] page_from_zeros [OF codec]
      by (simp add: file_page_def write_file_def write_at_length)
  next
    case 3
    then show ?thesis
      using True size len by (simp add: file_page_def write_file_def write_at_length)
  qed
qed

lemma write_file_torn:
  assumes len: "length bs \<le> PAGE_SIZE"
  shows "torn_pages (write_file pid bs d) \<subseteq> insert pid (torn_pages d)"
proof
  fix q
  assume q: "q \<in> torn_pages (write_file pid bs d)"
  show "q \<in> insert pid (torn_pages d)"
  proof (cases "q \<noteq> pid \<and> table_id q = table_id pid \<and> bs \<noteq> []")
    case False
    then have "q = pid \<or> file_bytes (write_file pid bs d) (table_id q) = file_bytes d (table_id q)"
      by (auto simp: write_file_def write_at_def)
    then show ?thesis
      using q by (auto simp: torn_pages_def)
  next
    case True
    then have "page_offset q + PAGE_SIZE \<le> page_offset pid \<or> page_offset pid + PAGE_SIZE \<le> page_offset q" "0 < length bs"
      using page_offset_apart by blast+
    then show ?thesis
      using q True len by (auto simp: torn_pages_def write_file_def write_at_length)
  qed
qed

lemma write_file_stores:
  assumes codec: "pod_header bytes_of header_of" and ok: "page_ok p"
  shows "file_page header_of (write_file pid (page_to_bytes bytes_of p) d) pid = p" "pid \<notin> torn_pages (write_file pid (page_to_bytes bytes_of p) d)"
proof -
  let ?bs = "page_to_bytes bytes_of p"
  have len: "length ?bs = PAGE_SIZE" "?bs \<noteq> []"
    using page_to_bytes_length [OF codec ok] by (auto simp: page_consts)
  then show "file_page header_of (write_file pid ?bs d) pid = p"
    using write_at_there [of ?bs "page_offset pid"] page_from_to_bytes [OF codec ok]
    by (simp add: file_page_def write_file_def write_at_length)
  show "pid \<notin> torn_pages (write_file pid ?bs d)"
    using len by (simp add: torn_pages_def write_file_def write_at_length)
qed

lemma page_from_bytes_ok: "page_from_bytes header_of bs = Inr (Inr p) \<Longrightarrow> page_ok p"
  by (auto simp: page_from_bytes_def bind_panic_def slice_range_def page_ok_def page_consts split: if_splits sum.splits)

lemma file_page_ok: "page_ok (file_page header_of d pid)"
  by (auto simp: file_page_def Let_def page_new_ok split: sum.split dest: page_from_bytes_ok)

lemma read_page_spec:
  assumes "read_page_from_disk header_of pid d = (r, d')"
  shows "file_bytes d' = file_bytes d \<and> (\<forall>p. r = Inr p \<longrightarrow> p = file_page header_of d pid)"
  using assms unfolding read_page_from_disk_def
  by (elim io_bind_cases)
     (auto dest!: get_file_bytes sys_call_ok_bytes simp: Let_def file_page_def split: if_splits sum.splits page_error.splits)

lemma write_file_nothing: "file_bytes (write_file pid [] d) = file_bytes d"
  by (auto simp: write_file_def write_at_def)

lemma write_file_bytes: "file_bytes d1 = file_bytes d \<Longrightarrow> file_bytes (write_file pid bs d1) = file_bytes (write_file pid bs d)"
  by (simp add: write_file_def)

lemma write_page_spec:
  assumes "write_page_to_disk bytes_of pid p d = (r, d')"
  shows "\<exists>bs. file_bytes d' = file_bytes (write_file pid bs d) \<and> length bs \<le> length (page_to_bytes bytes_of p)
    \<and> (r = Inr u \<longrightarrow> bs = page_to_bytes bytes_of p)"
  using assms unfolding write_page_to_disk_def Let_def
proof (elim io_bind_cases)
  fix x d1 x1 d2 oc d3
  assume "get_file (table_id pid) d = (Inr x, d1)" "sys_call_ok d1 = (Inr x1, d2)" "sys_call d2 = (Inr oc, d3)"
    and last: "(case oc of Io_Ok \<Rightarrow> (Inr (), write_file pid (page_to_bytes bytes_of p) d3)
        | Io_Fails n \<Rightarrow> (Inl Os_Error, write_file pid (take n (page_to_bytes bytes_of p)) d3)) = (r, d')"
  then have same: "file_bytes d3 = file_bytes d"
    using get_file_bytes sys_call_ok_bytes sys_call_bytes by metis
  show ?thesis
  proof (cases oc)
    case Io_Ok
    then show ?thesis
      using last write_file_bytes [OF same] by (intro exI [of _ "page_to_bytes bytes_of p"]) auto
  next
    case (Io_Fails n)
    then show ?thesis
      using last write_file_bytes [OF same] by (intro exI [of _ "take n (page_to_bytes bytes_of p)"]) auto
  qed
qed (intro exI [of _ "[]"], auto dest!: get_file_bytes sys_call_ok_bytes sys_call_bytes simp: write_file_nothing)+

lemma files_page_store:
  assumes codec: "pod_header bytes_of header_of"
  shows "page_store (read_page_from_disk header_of) (write_page_to_disk bytes_of) (file_page header_of) torn_pages"
proof (unfold_locales, goal_cases)
  case (1 d pid)
  show ?case
    by (rule file_page_ok)
next
  case (2 pid d r d')
  then show ?case
    using read_page_spec file_page_cong by metis
next
  case (3 pid d p d')
  then show ?case
    using read_page_spec by blast
next
  case (4 p pid d u d')
  then obtain bs where "file_bytes d' = file_bytes (write_file pid bs d)" "bs = page_to_bytes bytes_of p"
    using write_page_spec by blast
  then show ?case
    using file_page_cong [of d' "write_file pid bs d" header_of] write_file_stores [OF codec 4(1), of pid d]
      write_file_torn [of bs pid d] page_to_bytes_length [OF codec 4(1)] by auto
next
  case (5 p pid d w d' q)
  then obtain bs where "file_bytes d' = file_bytes (write_file pid bs d)" "length bs \<le> PAGE_SIZE"
    using write_page_spec page_to_bytes_length [OF codec 5(1)] by metis
  then show ?case
    using file_page_cong [of d' "write_file pid bs d" header_of] write_file_others [OF codec _ 5(3,4)] by simp
next
  case (6 p pid d w d')
  then obtain bs where "file_bytes d' = file_bytes (write_file pid bs d)" "length bs \<le> PAGE_SIZE"
    using write_page_spec page_to_bytes_length [OF codec 6(1)] by metis
  then show ?case
    using file_page_cong [of d' "write_file pid bs d" header_of] write_file_torn [of bs pid d] by simp
qed

text \<open>With no failing system call to come, reads and writes succeed.\<close>

lemma calm_calls:
  assumes "outcomes d = []"
  shows "sys_call d = (Inr Io_Ok, d)" "sys_call_ok d = (Inr (), d)"
    "\<exists>d'. get_file tid d = (Inr (), d') \<and> outcomes d' = []"
  using assms by (auto simp: sys_call_def sys_call_ok_def get_file_def open_table_def io_defs split: option.split)

lemma page_from_bytes_total:
  assumes "pod_header bytes_of header_of" "length bs = PAGE_SIZE"
  shows "\<exists>p. page_from_bytes header_of bs = Inr (Inr p)"
proof -
  have "length (take HEADER_SIZE bs) = HEADER_SIZE"
    using assms(2) by (simp add: page_consts)
  then obtain h where "header_of (take HEADER_SIZE bs) = Inr h"
    using assms(1) unfolding pod_header_def by blast
  then show ?thesis
    using assms(2) by (simp add: page_from_bytes_def slice_range_def page_consts)
qed

lemma files_reliable_store:
  assumes codec: "pod_header bytes_of header_of"
  shows "reliable_store (read_page_from_disk header_of) (write_page_to_disk bytes_of) (file_page header_of) torn_pages (\<lambda>d. outcomes d = [])"
proof -
  have rd: "\<exists>p d'. read_page_from_disk header_of pid d = (Inr p, d') \<and> outcomes d' = []" if calm: "outcomes d = []" for d pid
  proof -
    obtain d1 where d1: "get_file (table_id pid) d = (Inr (), d1)" "outcomes d1 = []"
      using calm_calls(3) [OF calm] by blast
    let ?bs = "take PAGE_SIZE (drop (page_offset pid) (file_bytes d1 (table_id pid)))"
    show ?thesis
    proof (cases "page_offset pid + PAGE_SIZE \<le> length (file_bytes d1 (table_id pid))")
      case True
      then obtain p where "page_from_bytes header_of ?bs = Inr (Inr p)"
        using page_from_bytes_total [OF codec, of ?bs] by auto
      then show ?thesis
        using d1 True by (simp add: read_page_from_disk_def io_bind_def calm_calls Let_def)
    qed (use d1 in \<open>simp add: read_page_from_disk_def io_bind_def calm_calls Let_def\<close>)
  qed
  have wr: "\<exists>d'. write_page_to_disk bytes_of pid p d = (Inr (), d') \<and> outcomes d' = []" if calm: "outcomes d = []" for d pid p
  proof -
    obtain d1 where "get_file (table_id pid) d = (Inr (), d1)" "outcomes d1 = []"
      using calm_calls(3) [OF calm] by blast
    then show ?thesis
      by (simp add: write_page_to_disk_def io_bind_def calm_calls Let_def write_file_def)
  qed
  show ?thesis
    using rd wr by (intro reliable_store.intro reliable_store_axioms.intro files_page_store [OF codec]) simp_all
qed

lemma repr_c_header: "pod_header header_bytes header_decode"
proof -
  have all: "\<exists>h. header_decode bs = Inr h" if "length bs = HEADER_SIZE" for bs
  proof -
    have "length (map from_le_bytes (chunks_exact 8 bs) :: u64 list) = 8"
      using that by (simp add: chunks_exact_len page_consts)
    then obtain a b c d e f g h where "(map from_le_bytes (chunks_exact 8 bs) :: u64 list) = [a, b, c, d, e, f, g, h]"
      by (auto simp: length_Suc_conv numeral_eq_Suc)
    then show ?thesis
      by (simp add: header_decode_def)
  qed
  have "header_bytes page_header_default = replicate HEADER_SIZE 0"
    by (simp add: header_bytes_def page_header_default_def to_le_bytes_def page_consts numeral_eq_Suc)
  then have "header_decode (replicate HEADER_SIZE 0) = Inr page_header_default"
    using header_codec(1) by metis
  then show ?thesis
    using header_codec all by (simp add: pod_header_def)
qed

interpretation files: reliable_store "read_page_from_disk header_decode" "write_page_to_disk header_bytes"
  "file_page header_decode" torn_pages "\<lambda>d. outcomes d = []"
  by (rule files_reliable_store [OF repr_c_header])

section \<open>Properties\<close>

lemma pool_of_inv: "torn d = {} \<Longrightarrow> (\<And>pid. page_ok (disk_page d pid)) \<Longrightarrow> pool_inv disk_page torn (pool_of n d)"
  by (auto simp: pool_inv_def pool_of_def hand_ok_def resident_def hm_laws hm_ok_laws frame_new_def page_new_ok)

lemma pool_of_content: "content disk_page (pool_of n d) = disk_page d"
  by (auto simp: content_def pool_of_def hm_laws)

definition empty_disk :: "io_outcome list \<Rightarrow> disk" where
  "empty_disk ocs = \<lparr>table_files = [(1, [])], open_handles = [(1, ())], outcomes = ocs\<rparr>"

lemma empty_disk_pool: "pool_inv (file_page header_decode) torn_pages (pool_of n (empty_disk ocs))"
  by (rule pool_of_inv) (auto simp: torn_pages_def empty_disk_def file_bytes_def hm_get_def file_page_ok)

text \<open>C22. Refinement: to its clients the pool is a map from page ids to pages. For every sequence of fetches,
  allocations, modifications, unpins and flushes, on a pool of any size, whatever evictions happen, by a client
  that goes on after the commands that fail (no frame free, a failed write of a victim or in a flush, a failed
  read into a free frame), the pool stays consistent and the content of all pages is what the completed
  modifications make of the map. Excluded is a read that fails after its victim has left the page table: it
  keeps every content itself, as the last conjunct says of any one further command, but what the client does after
  it may lose an update, as is shown further below. The hypothesis on \<open>bytes_of\<close> and \<open>header_of\<close> is what
  \<open>bytemuck\<close> documents for plain data.\<close>

theorem pool_refines_page_map:
  assumes "pod_header bytes_of header_of" "pool_inv (file_page header_of) torn_pages P" "list_all cmd_ok cs" "cmd_ok c"
    and "keeps_table (read_page_from_disk header_of) (write_page_to_disk bytes_of) cs P"
    and "run_all (read_page_from_disk header_of) (write_page_to_disk bytes_of) cs P = (rs, P1)"
    and "run_cmd (read_page_from_disk header_of) (write_page_to_disk bytes_of) c P1 = (r, P2)"
  shows "content (file_page header_of) P1 = fold spec_cmd (completed cs rs) (content (file_page header_of) P)
    \<and> pool_inv (file_page header_of) torn_pages P1
    \<and> content (file_page header_of) P2 =
        (if r = Inr () then spec_cmd c (content (file_page header_of) P1) else content (file_page header_of) P1)"
proof -
  note store = files_page_store [OF assms(1)]
  have inv: "pool_inv (file_page header_of) torn_pages P1"
    "content (file_page header_of) P1 = fold spec_cmd (completed cs rs) (content (file_page header_of) P)"
    using page_store.run_all_spec [OF store assms(2,3,5,6)] by simp_all
  have "content (file_page header_of) P2 =
      (if r = Inr () then spec_cmd c (content (file_page header_of) P1) else content (file_page header_of) P1)"
  proof (cases r)
    case (Inl e)
    then show ?thesis
      using page_store.run_cmd_fails [OF store inv(1)] assms(7) by simp
  next
    case (Inr u)
    then show ?thesis
      using page_store.run_cmd_ok [OF store inv(1) assms(4)] assms(7) by simp
  qed
  then show ?thesis
    using inv by blast
qed

text \<open>C23. Fetching: a successful \<open>fetch_page\<close> returns a frame that holds the current content of the page,
  pinned once more; no page's content changes, and every frame that was pinned keeps its page, pin count
  and bits (pinned pages are never evicted).\<close>

theorem fetch_page_contract:
  assumes "pod_header bytes_of header_of" "pool_inv (file_page header_of) torn_pages P"
    and "fetch_page (read_page_from_disk header_of) (write_page_to_disk bytes_of) pid P = (Inr idx, P')"
  shows "fst (get_page idx P') = Inr (content (file_page header_of) P pid)
    \<and> content (file_page header_of) P' = content (file_page header_of) P \<and> pool_inv (file_page header_of) torn_pages P'
    \<and> pin_count (frames P' ! idx) = (if resident P idx pid then pin_count (frames P ! idx) + 1 else 1)
    \<and> (\<forall>j < length (frames P). pin_count (frames P ! j) \<noteq> 0 \<longrightarrow> j \<noteq> idx \<longrightarrow> frames P' ! j = frames P ! j)"
proof -
  note spec = page_store.fetch_ok [OF files_page_store [OF assms(1)] assms(2,3)]
  have "idx < length (frames P')"
    using spec(3) by (simp add: resident_def)
  then show ?thesis
    using spec content_resident [OF spec(1,3)]
    by (simp add: get_page_def io_bind_def index_frame_def slice_index_def io_return_def)
qed

text \<open>C24. Progress: while system calls succeed, \<open>fetch_page\<close> returns a frame exactly when the page is resident
  or some frame is unpinned; the clock finds that frame within its two turns. Otherwise it returns the
  documented "buffer pool exhausted" error.\<close>

theorem fetch_page_progress:
  assumes "pod_header bytes_of header_of" "pool_inv (file_page header_of) torn_pages P" "outcomes (pool_disk P) = []"
  shows "\<exists>r P'. fetch_page (read_page_from_disk header_of) (write_page_to_disk bytes_of) pid P = (r, P') \<and>
    (if hm_get (page_table P) pid \<noteq> None \<or> (\<exists>f \<in> set (frames P). pin_count f = 0)
     then \<exists>idx. r = Inr idx
     else r = Inl (Resource_Busy ''buffer pool exhausted: all frames pinned (increase capacity)''))"
  using reliable_store.fetch_progress [OF files_reliable_store [OF assms(1)] assms(2), of pid] assms(3) by blast

text \<open>C25. Durability: after a successful \<open>flush_all\<close>, a pool opened anew on the same files (of any capacity)
  sees the content all pages had. If a write fails, \<open>flush_all\<close> returns the error with every page's content
  and the consistency of the pool intact.\<close>

theorem flush_all_durable:
  assumes "pod_header bytes_of header_of" "pool_inv (file_page header_of) torn_pages P"
    and "flush_all (write_page_to_disk bytes_of) P = (r, P')"
  shows "content (file_page header_of) P' = content (file_page header_of) P \<and> pool_inv (file_page header_of) torn_pages P'
    \<and> (r = Inr () \<longrightarrow> content (file_page header_of) (pool_of n (pool_disk P')) = content (file_page header_of) P)"
  using page_store.flush_all_spec [OF files_page_store [OF assms(1)] assms(2,3)] by (auto simp: pool_of_content)

theorem fetch_page_contract_witness:
  "\<exists>idx P'. fetch_page (read_page_from_disk header_decode) (write_page_to_disk header_bytes) \<lparr>table_id = 1, page_num = 0\<rparr>
       (pool_of 2 (empty_disk [])) = (Inr idx, P')
     \<and> fst (get_page idx P') = Inr (content (file_page header_decode) (pool_of 2 (empty_disk [])) \<lparr>table_id = 1, page_num = 0\<rparr>)"
proof -
  let ?P = "pool_of 2 (empty_disk [])" and ?pid = "\<lparr>table_id = 1, page_num = 0\<rparr>"
  have "\<exists>f \<in> set (frames ?P). pin_count f = 0" "outcomes (pool_disk ?P) = []"
    by (simp_all add: pool_of_def frame_new_def empty_disk_def)
  then obtain idx P' where run: "fetch_page (read_page_from_disk header_decode) (write_page_to_disk header_bytes) ?pid ?P = (Inr idx, P')"
    using files.fetch_progress [OF empty_disk_pool, of 2 "[]" ?pid] by auto
  then show ?thesis
    using fetch_page_contract [OF repr_c_header empty_disk_pool run] by blast
qed

theorem fetch_page_progress_witness:
  "\<exists>idx P'. fetch_page (read_page_from_disk header_decode) (write_page_to_disk header_bytes) \<lparr>table_id = 1, page_num = 5\<rparr>
     (pool_of 1 (empty_disk [])) = (Inr idx, P')"
proof -
  let ?P = "pool_of 1 (empty_disk [])"
  have "\<exists>f \<in> set (frames ?P). pin_count f = 0" "outcomes (pool_disk ?P) = []"
    by (simp_all add: pool_of_def frame_new_def empty_disk_def)
  then show ?thesis
    using fetch_page_progress [OF repr_c_header empty_disk_pool, of 1 "[]" "\<lparr>table_id = 1, page_num = 5\<rparr>"] by auto
qed

section \<open>A failed read\<close>

text \<open>Pages that differ in their header, and commands run to their end whatever they return.\<close>

definition test_page :: "u64 \<Rightarrow> page" where
  "test_page k = page_new\<lparr>header := page_header_default\<lparr>ph_row_count := k\<rparr>\<rparr>"

definition after :: "pool_cmd list \<Rightarrow> disk buffer_pool \<Rightarrow> disk buffer_pool" where
  "after cs P = fold (\<lambda>c P. snd (run_cmd (read_page_from_disk header_decode) (write_page_to_disk header_bytes) c P)) cs P"

definition disk1 :: "u8 list \<Rightarrow> io_outcome list \<Rightarrow> disk" where
  "disk1 bs ocs = \<lparr>table_files = [(1, bs)], open_handles = [(1, ())], outcomes = ocs\<rparr>"

definition pg :: "u32 \<Rightarrow> page_id" where
  "pg n = \<lparr>table_id = 1, page_num = n\<rparr>"

lemma test_page_ok: "page_ok (test_page k)" "length (page_to_bytes header_bytes (test_page k)) = 4096"
  using page_to_bytes_length [OF repr_c_header, of "test_page k"] by (simp_all add: test_page_def page_ok_def page_new_def page_consts)

lemma pg_eq [simp]: "pg a = pg b \<longleftrightarrow> a = b"
  by (simp add: pg_def)

lemma sys_ok_cons: "sys_call (disk1 bs (Io_Ok # ocs)) = (Inr Io_Ok, disk1 bs ocs)" "sys_call (disk1 bs []) = (Inr Io_Ok, disk1 bs [])"
  "sys_call_ok (disk1 bs (Io_Ok # ocs)) = (Inr (), disk1 bs ocs)" "sys_call_ok (disk1 bs []) = (Inr (), disk1 bs [])"
  "sys_call_ok (disk1 bs (Io_Fails n # ocs)) = (Inl Os_Error, disk1 bs ocs)"
  by (simp_all add: sys_call_def sys_call_ok_def disk1_def io_defs)

lemma disk1_simps: "file_bytes (disk1 bs ocs) 1 = bs" "hm_get (open_handles (disk1 bs ocs)) 1 = Some ()"
  "(disk1 bs ocs)\<lparr>table_files := hm_insert (table_files (disk1 bs ocs)) 1 bs'\<rparr> = disk1 bs' ocs"
  by (simp_all add: disk1_def file_bytes_def hm_get_def hm_insert_def)

lemma get_file_disk1: "get_file 1 (disk1 bs (Io_Ok # ocs)) = (Inr (), disk1 bs ocs)" "get_file 1 (disk1 bs []) = (Inr (), disk1 bs [])"
  by (simp_all add: get_file_def open_table_def io_bind_def sys_ok_cons disk1_simps)

definition page_file :: "u64 \<Rightarrow> u8 list" where
  "page_file k = page_to_bytes header_bytes (test_page k)"

lemma page_file_facts: "length (page_file k) = 4096" "page_from_bytes header_decode (page_file k) = Inr (Inr (test_page k))"
  using test_page_ok page_from_to_bytes [OF repr_c_header] by (simp_all add: page_file_def)

lemma page_offsets: "page_offset (pg 0) = 0" "page_offset (pg 1) = 4096" "page_offset (pg 2) = 8192" "table_id (pg n) = 1"
  by (simp_all add: page_offset_def pg_def page_consts)

lemma read_disk1:
  assumes "ocs = Io_Ok # Io_Ok # Io_Ok # ocs' \<or> ocs = [] \<and> ocs' = []"
  shows "read_page_from_disk header_decode (pg 0) (disk1 (page_file k) ocs) = (Inr (test_page k), disk1 (page_file k) ocs')"
    "read_page_from_disk header_decode (pg 0) (disk1 [] ocs) = (Inr page_new, disk1 [] ocs')"
    "length bs \<le> 4096 \<Longrightarrow> read_page_from_disk header_decode (pg 1) (disk1 bs ocs) = (Inr page_new, disk1 bs ocs')"
    "length bs \<le> 4096 \<Longrightarrow> read_page_from_disk header_decode (pg 2) (disk1 bs ocs) = (Inr page_new, disk1 bs ocs')"
  using assms
  by (auto simp: read_page_from_disk_def io_bind_def page_offsets get_file_disk1 sys_ok_cons disk1_simps page_file_facts page_consts)

lemma read_disk1_fails:
  "read_page_from_disk header_decode (pg n) (disk1 bs [Io_Ok, Io_Ok, Io_Fails m]) = (Inl Os_Error, disk1 bs [])"
  by (simp add: read_page_from_disk_def io_bind_def page_offsets get_file_disk1 sys_ok_cons)

lemma write_disk1:
  assumes "ocs = Io_Ok # Io_Ok # Io_Ok # ocs' \<or> ocs = [] \<and> ocs' = []" "length bs \<le> 4096"
  shows "write_page_to_disk header_bytes (pg 0) (test_page k) (disk1 bs ocs) = (Inr (), disk1 (page_file k) ocs')"
proof -
  have "page_file k \<noteq> []"
    using page_file_facts(1) [of k] by auto
  then have "write_at 0 (page_file k) bs = page_file k"
    using assms(2) by (simp add: write_at_def page_file_facts)
  then show ?thesis
    using assms(1)
    by (auto simp: write_page_to_disk_def io_bind_def page_offsets get_file_disk1 sys_ok_cons write_file_def disk1_simps Let_def simp flip: page_file_def)
qed

abbreviation fr :: "page \<Rightarrow> u32 \<Rightarrow> bool \<Rightarrow> bool \<Rightarrow> page_id option \<Rightarrow> frame" where
  "fr p n d r i \<equiv> \<lparr>frame_page = p, pin_count = n, dirty = d, referenced = r, frame_page_id = i\<rparr>"

lemmas pool_eval = fetch_page_def io_defs find_victim_def clock_loop.simps Let_def modify_pool_def index_frame_def
  update_frame_def slice_index_def on_disk_def hm_get_def hm_insert_def hm_remove_def get_page_mut_def unpin_page_def
  read_disk1 write_disk1 read_disk1_fails page_file_facts

definition stage0 :: "disk buffer_pool" where
  "stage0 = pool_of 2 (disk1 [] (replicate 11 Io_Ok @ [Io_Fails 0]))"

lemma stage1: "after [Cmd_Modify (pg 0) (\<lambda>_. test_page 1)] stage0 =
   \<lparr>frames = [fr (test_page 1) 0 True True (Some (pg 0)), frame_new], page_table = [(pg 0, 0)], clock_hand = 1,
    next_page_num = [], pool_disk = disk1 [] (replicate 8 Io_Ok @ [Io_Fails 0])\<rparr>"
  by (simp add: after_def stage0_def pool_of_def frame_new_def hm_new_def numeral_eq_Suc pool_eval)

lemmas stage_eval = after_def frame_new_def numeral_eq_Suc pool_eval

definition stage2 :: "disk buffer_pool" where
  "stage2 = \<lparr>frames = [fr (test_page 1) 0 True True (Some (pg 0)), fr page_new 0 False True (Some (pg 2))],
     page_table = [(pg 0, 0), (pg 2, 1)], clock_hand = 0, next_page_num = [], pool_disk = disk1 [] (replicate 5 Io_Ok @ [Io_Fails 0])\<rparr>"

lemma stage2: "after [Cmd_Modify (pg 0) (\<lambda>_. test_page 1), Cmd_Fetch (pg 2), Cmd_Unpin (pg 2) False] stage0 = stage2"
proof -
  have "after [Cmd_Modify (pg 0) (\<lambda>_. test_page 1), Cmd_Fetch (pg 2), Cmd_Unpin (pg 2) False] stage0 =
      after [Cmd_Fetch (pg 2), Cmd_Unpin (pg 2) False] (after [Cmd_Modify (pg 0) (\<lambda>_. test_page 1)] stage0)"
    by (simp add: after_def)
  then show ?thesis
    by (simp add: stage1) (simp add: stage2_def stage_eval)
qed

definition stage3 :: "disk buffer_pool" where
  "stage3 = \<lparr>frames = [fr (test_page 1) 0 True False (Some (pg 0)), fr page_new 0 False False (Some (pg 2))],
     page_table = [(pg 2, 1)], clock_hand = 1, next_page_num = [], pool_disk = disk1 (page_file 1) []\<rparr>"

lemma stage3: "run_cmd (read_page_from_disk header_decode) (write_page_to_disk header_bytes) (Cmd_Fetch (pg 1)) stage2 = (Inl Os_Error, stage3)"
  by (simp add: stage2_def stage3_def stage_eval)

definition stage4 :: "disk buffer_pool" where
  "stage4 = \<lparr>frames = [fr (test_page 1) 0 True False (Some (pg 0)), fr (test_page 2) 0 True True (Some (pg 0))],
     page_table = [(pg 0, 1)], clock_hand = 0, next_page_num = [], pool_disk = disk1 (page_file 1) []\<rparr>"

lemma stage4: "after [Cmd_Modify (pg 0) (\<lambda>_. test_page 2)] stage3 = stage4"
  by (simp add: stage3_def stage4_def stage_eval)

definition stage5 :: "disk buffer_pool" where
  "stage5 = \<lparr>frames = [fr (test_page 1) 0 True False (Some (pg 0)), fr (test_page 2) 0 False True (Some (pg 0))],
     page_table = [(pg 0, 1)], clock_hand = 0, next_page_num = [], pool_disk = disk1 (page_file 2) []\<rparr>"

lemma stage5: "flush_all (write_page_to_disk header_bytes) stage4 = (Inr (), stage5)"
  by (simp add: stage4_def stage5_def stage_eval flush_all_def flush_frame_def)

definition stage6 :: "disk buffer_pool" where
  "stage6 = \<lparr>frames = [fr page_new 1 False True (Some (pg 1)), fr (test_page 2) 0 False True (Some (pg 0))],
     page_table = [(pg 1, 0)], clock_hand = 1, next_page_num = [], pool_disk = disk1 (page_file 1) []\<rparr>"

lemma stage6: "after [Cmd_Fetch (pg 1)] stage5 = stage6"
  by (simp add: stage5_def stage6_def stage_eval)

text \<open>C26. A failed read loses a later update. \<open>fetch_page\<close> drops the victim from the page table before it
  reads, and returns on a read error with the victim still in its frame, marked dirty. Here a read of page
  1 fails while page 0 is the victim; page 0 is then fetched again, changed and flushed with success; when
  the stale frame is evicted, its old copy overwrites the flushed page, both in the pool's view and on disk.\<close>

theorem failed_read_loses_update:
  "let rd = read_page_from_disk header_decode; wr = write_page_to_disk header_bytes;
       P = after [Cmd_Modify (pg 0) (\<lambda>_. test_page 1), Cmd_Fetch (pg 2), Cmd_Unpin (pg 2) False] stage0;
       Q = after [Cmd_Fetch (pg 1), Cmd_Modify (pg 0) (\<lambda>_. test_page 2)] P;
       R = snd (flush_all wr Q);
       S = after [Cmd_Fetch (pg 1)] R
   in fst (fetch_page rd wr (pg 1) P) = Inl Os_Error \<and> fst (flush_all wr Q) = Inr ()
      \<and> content (file_page header_decode) R (pg 0) = test_page 2
      \<and> content (file_page header_decode) S (pg 0) = test_page 1 \<and> file_page header_decode (pool_disk S) (pg 0) = test_page 1
      \<and> test_page 1 \<noteq> test_page 2"
proof -
  have fetch: "fst (fetch_page (read_page_from_disk header_decode) (write_page_to_disk header_bytes) (pg 1) stage2) = Inl Os_Error"
    using stage3 by (auto simp: io_bind_def io_return_def split: prod.splits sum.splits)
  have "after [Cmd_Fetch (pg 1), Cmd_Modify (pg 0) (\<lambda>_. test_page 2)] stage2 = stage4"
    using stage3 stage4 by (simp add: after_def)
  moreover have "content (file_page header_decode) stage5 (pg 0) = test_page 2"
    by (simp add: content_def stage5_def hm_get_def)
  moreover have "file_page header_decode (pool_disk stage6) (pg 0) = test_page 1"
    by (simp add: stage6_def file_page_def page_offsets disk1_simps page_file_facts page_consts)
  moreover have "content (file_page header_decode) stage6 (pg 0) = file_page header_decode (pool_disk stage6) (pg 0)"
    by (rule content_absent) (simp add: stage6_def hm_get_def)
  moreover have "test_page 1 \<noteq> test_page 2"
    by (simp add: test_page_def page_new_def page_header_default_def)
  ultimately show ?thesis
    unfolding Let_def stage2 by (simp add: fetch stage5 stage6)
qed

section \<open>Instances with failing writes\<close>

text \<open>Page 0 is changed, a flush of it fails at the write, it is changed again and flushed with success.\<close>

definition flaky0 :: "disk buffer_pool" where
  "flaky0 = pool_of 2 (disk1 [] (replicate 5 Io_Ok @ [Io_Fails 0]))"

definition flaky_cmds :: "pool_cmd list" where
  "flaky_cmds = [Cmd_Modify (pg 0) (\<lambda>_. test_page 1), Cmd_Flush_All, Cmd_Modify (pg 0) (\<lambda>_. test_page 2)]"

definition flaky1 :: "u64 \<Rightarrow> io_outcome list \<Rightarrow> disk buffer_pool" where
  "flaky1 k ocs = \<lparr>frames = [fr (test_page k) 0 True True (Some (pg 0)), frame_new], page_table = [(pg 0, 0)], clock_hand = 1,
     next_page_num = [], pool_disk = disk1 [] ocs\<rparr>"

abbreviation run1 :: "pool_cmd \<Rightarrow> (disk, unit) pool_op" where
  "run1 \<equiv> run_cmd (read_page_from_disk header_decode) (write_page_to_disk header_bytes)"

lemma write_disk1_fails:
  "write_page_to_disk header_bytes (pg 0) (test_page k) (disk1 [] [Io_Ok, Io_Ok, Io_Fails 0]) = (Inl Os_Error, disk1 [] [])"
  by (simp add: write_page_to_disk_def io_bind_def page_offsets get_file_disk1 sys_ok_cons write_file_def write_at_def disk1_simps Let_def
      io_defs sys_call_def) (simp add: disk1_def write_file_def write_at_def file_bytes_def hm_get_def hm_insert_def pg_def)

lemma flaky_run:
  "run1 (Cmd_Modify (pg 0) (\<lambda>_. test_page 1)) flaky0 = (Inr (), flaky1 1 [Io_Ok, Io_Ok, Io_Fails 0])"
  "run1 Cmd_Flush_All (flaky1 1 [Io_Ok, Io_Ok, Io_Fails 0]) = (Inl Os_Error, flaky1 1 [])"
  "run1 (Cmd_Modify (pg 0) (\<lambda>_. test_page 2)) (flaky1 1 []) = (Inr (), flaky1 2 [])"
  by (simp_all add: flaky0_def flaky1_def pool_of_def hm_new_def stage_eval write_disk1_fails flush_all_def flush_frame_def)

lemma flaky_flush:
  "flush_all (write_page_to_disk header_bytes) (flaky1 2 []) =
     (Inr (), (flaky1 2 [])\<lparr>frames := [fr (test_page 2) 0 False True (Some (pg 0)), frame_new], pool_disk := disk1 (page_file 2) []\<rparr>)"
  by (simp add: flaky1_def stage_eval flush_all_def flush_frame_def)

lemma disk1_pool: "pool_inv (file_page header_decode) torn_pages (pool_of n (disk1 [] ocs))"
  using empty_disk_pool by (simp add: empty_disk_def disk1_def)

lemma flaky_ok: "list_all cmd_ok flaky_cmds"
  by (simp add: flaky_cmds_def test_page_ok)

lemma flaky_all: "run_all (read_page_from_disk header_decode) (write_page_to_disk header_bytes) flaky_cmds flaky0 =
    ([Inr (), Inl Os_Error, Inr ()], flaky1 2 [])"
  "keeps_table (read_page_from_disk header_decode) (write_page_to_disk header_bytes) flaky_cmds flaky0"
  by (simp_all add: flaky_cmds_def flaky_run del: run_cmd.simps) (simp add: flaky1_def)

theorem pool_refines_page_map_witness:
  "let rd = read_page_from_disk header_decode; wr = write_page_to_disk header_bytes; P1 = snd (run_all rd wr flaky_cmds flaky0)
   in fst (run_all rd wr flaky_cmds flaky0) = [Inr (), Inl Os_Error, Inr ()]
      \<and> pool_inv (file_page header_decode) torn_pages P1 \<and> content (file_page header_decode) P1 (pg 0) = test_page 2"
proof -
  obtain r P2 where "run1 Cmd_Flush_All (flaky1 2 []) = (r, P2)"
    by fastforce
  note pool_refines_page_map [OF repr_c_header disk1_pool flaky_ok _ flaky_all(2) [unfolded flaky0_def] flaky_all(1) [unfolded flaky0_def] this]
  then show ?thesis
    by (simp add: Let_def flaky_all(1)) (simp add: completed_def flaky_cmds_def)
qed

theorem flush_all_durable_witness:
  "\<exists>P P'. content (file_page header_decode) P (pg 0) = test_page 2 \<and> flush_all (write_page_to_disk header_bytes) P = (Inr (), P')
     \<and> content (file_page header_decode) (pool_of 7 (pool_disk P')) (pg 0) = test_page 2"
proof -
  have inv: "pool_inv (file_page header_decode) torn_pages (flaky1 2 [])"
    using files.run_all_spec [OF disk1_pool flaky_ok flaky_all(2) [unfolded flaky0_def] flaky_all(1) [unfolded flaky0_def]] by blast
  have now: "content (file_page header_decode) (flaky1 2 []) (pg 0) = test_page 2"
    by (simp add: content_def flaky1_def hm_get_def)
  show ?thesis
    using flush_all_durable [OF repr_c_header inv flaky_flush, of 7] now flaky_flush by (intro exI conjI) auto
qed

end
