(* ===== verification/Lexer.thy ===== *)
theory Lexer
  imports Prelude
begin

text \<open>
  The SQL tokenizer of \<open>src/sql/lexer.rs\<close>. A Rust \<open>char\<close> is its code point, a \<open>String\<close> a list of them.
  Unicode tables beyond ASCII and the rounding of decimal literals to doubles are arguments of the model
  (\<open>unicode\<close>); ASCII behaviour and the grammar of literals are written out. One iteration of the main loop
  is \<open>lex_step\<close>; every error message of the code is a constructor of \<open>lex_error\<close>.
\<close>

section \<open>Characters\<close>

type_synonym rchar = nat
type_synonym rstring = "rchar list"

abbreviation uc :: "char \<Rightarrow> rchar" where
  "uc \<equiv> of_char"

abbreviation us :: "string \<Rightarrow> rstring" where
  "us \<equiv> map of_char"

record unicode =
  uni_alphanumeric :: "rchar \<Rightarrow> bool"
  uni_uppercase :: "rchar \<Rightarrow> rstring"
  f64_nearest :: "rstring \<Rightarrow> u64"

definition is_ascii_digit :: "rchar \<Rightarrow> bool" where
  "is_ascii_digit c \<longleftrightarrow> 48 \<le> c \<and> c \<le> 57"

definition is_ascii_lower :: "rchar \<Rightarrow> bool" where
  "is_ascii_lower c \<longleftrightarrow> 97 \<le> c \<and> c \<le> 122"

definition is_ascii_upper :: "rchar \<Rightarrow> bool" where
  "is_ascii_upper c \<longleftrightarrow> 65 \<le> c \<and> c \<le> 90"

definition is_alphanumeric :: "unicode \<Rightarrow> rchar \<Rightarrow> bool" where
  "is_alphanumeric U c =
     (if c < 128 then is_ascii_digit c \<or> is_ascii_lower c \<or> is_ascii_upper c else uni_alphanumeric U c)"

definition to_uppercase :: "unicode \<Rightarrow> rstring \<Rightarrow> rstring" where
  "to_uppercase U s =
     concat (map (\<lambda>c. if c < 128 then if is_ascii_lower c then [c - 32] else [c] else uni_uppercase U c) s)"

text \<open>\<open>char::to_digit(16)\<close>\<close>

definition to_hex_digit :: "rchar \<Rightarrow> nat option" where
  "to_hex_digit c =
     (if is_ascii_digit c then Some (c - 48)
      else if 97 \<le> c \<and> c \<le> 102 then Some (c - 87)
      else if 65 \<le> c \<and> c \<le> 70 then Some (c - 55)
      else None)"

text \<open>\<open>char::from_u32\<close>\<close>

definition char_from_u32 :: "nat \<Rightarrow> rchar option" where
  "char_from_u32 n = (if n < 0x110000 \<and> \<not> (0xD800 \<le> n \<and> n < 0xE000) then Some n else None)"

text \<open>Decimal value of a run of digits, and \<open>str::parse\<close> on it for a type with the given bound.\<close>

definition digits_value :: "rstring \<Rightarrow> nat" where
  "digits_value s = foldl (\<lambda>n c. 10 * n + (c - 48)) 0 s"

definition parse_digits :: "nat \<Rightarrow> rstring \<Rightarrow> nat option" where
  "parse_digits bound s = (if digits_value s < bound then Some (digits_value s) else None)"

text \<open>The texts \<open>f64::from_str\<close> accepts among those the number reader collects: at most one point, a digit
  in the mantissa, digits in the exponent.\<close>

definition f64_grammar :: "rstring \<Rightarrow> bool" where
  "f64_grammar s =
     (let mantissa = takeWhile (\<lambda>c. is_ascii_digit c \<or> c = uc CHR ''.'') s; rest = drop (length mantissa) s;
          exponent = (case rest of [] \<Rightarrow> [] | e # r \<Rightarrow> (case r of [] \<Rightarrow> [] | g # r' \<Rightarrow> if g = uc CHR ''+'' \<or> g = uc CHR ''-'' then r' else r))
      in length (filter (\<lambda>c. c = uc CHR ''.'') mantissa) \<le> 1 \<and> list_ex is_ascii_digit mantissa
         \<and> (rest = [] \<or> (hd rest = uc CHR ''e'' \<or> hd rest = uc CHR ''E'') \<and> exponent \<noteq> [] \<and> list_all is_ascii_digit exponent))"

section \<open>Tokens\<close>

definition KEYWORDS :: "string list" where
  "KEYWORDS = [
    ''SELECT'', ''FROM'', ''WHERE'', ''GROUP'', ''BY'', ''ORDER'', ''JOIN'', ''ON'', ''LIKE'', ''DATE'',
    ''TIMESTAMP'', ''INTERVAL'', ''EXTRACT'', ''CASE'', ''WHEN'', ''THEN'', ''ELSE'', ''END'', ''DISTINCT'',
    ''INSERT'', ''UPDATE'', ''DELETE'', ''BEGIN'', ''TRANSACTION'', ''COMMIT'', ''AND'', ''OR'', ''NOT'',
    ''AS'', ''APPROXIMATE'', ''WITHIN'', ''CONFIDENCE'', ''TIER'', ''SIMILAR'', ''TO'', ''HAMMING'',
    ''DISTANCE'', ''CONSISTENCY'', ''SCOPE'', ''RACK'', ''GLOBAL'', ''ASYNC'', ''USING'', ''MEMORY'',
    ''BUDGET'', ''ENERGY'', ''JOULES'', ''CONTINUOUS'', ''HAVING'', ''OUTER'', ''LEFT'', ''INNER'',
    ''QUERY'', ''CREATE'', ''TABLE'', ''DROP'', ''IF'', ''EXISTS'', ''INT'', ''INTEGER'', ''BIGINT'',
    ''SMALLINT'', ''TINYINT'', ''VARCHAR'', ''NVARCHAR'', ''TEXT'', ''FLOAT'', ''REAL'', ''DECIMAL'',
    ''NUMERIC'', ''BIT'', ''BOOLEAN'', ''JSON'', ''UUID'', ''BYTEA'', ''ENUM'', ''NULL'', ''DEFAULT'',
    ''PRIMARY'', ''KEY'', ''REFERENCES'', ''IDENTITY'', ''NOT'', ''SCHEMA'', ''ALTER'', ''ROLLBACK'',
    ''ADD'', ''COLUMN'', ''TYPE'', ''INDEX'', ''CAST'', ''YEAR'', ''MONTH'', ''DAY'', ''HOUR'', ''MINUTE'',
    ''SECOND'', ''VALUES'', ''SET'', ''INTO'', ''OUTPUT'', ''RETURNING'', ''CONFLICT'', ''NOTHING'', ''DO'',
    ''UNIQUE'', ''CHECK'', ''CASCADE'', ''ACTION'', ''NULLS'', ''FIRST'', ''LAST'', ''NEXT'', ''FETCH'',
    ''OFFSET'', ''ONLY'', ''WITH'', ''UNION'', ''RECURSIVE'', ''ALL'', ''OPTION'', ''MAXRECURSION'',
    ''INTERSECT'', ''EXCEPT'', ''OVER'', ''PARTITION'', ''ROWS'', ''RANGE'', ''PRECEDING'', ''FOLLOWING'',
    ''CURRENT'', ''ROW'', ''NUMBER'', ''BETWEEN'', ''IN'', ''IS''
  ]"

datatype token =
    Tok_Keyword rstring
  | Tok_Ident rstring
  | Tok_Int i64
  | Tok_Float u64
  | Tok_String rstring
  | Tok_Hex "u8 list"
  | Tok_Param u16
  | Tok_QuestionMark
  | Tok_Op string
  | Tok_LParen
  | Tok_RParen
  | Tok_Comma
  | Tok_Semicolon
  | Tok_EOF

datatype lex_error =
    Lone_Bang
  | Lone_Bar
  | Lone_Colon
  | Unexpected_Character rchar
  | Expected_Param_Digit
  | Invalid_Param rstring
  | Nesting_Too_Deep
  | Unterminated_Block_Comment
  | Unterminated_Escape_String
  | Unterminated_Hex_Escape
  | Invalid_Hex_Escape_Digit rchar
  | Hex_Escape_Overflow
  | Invalid_Code_Point nat
  | Unknown_Escape rchar
  | Unterminated_Quoted_Ident
  | Unterminated_String
  | Invalid_Hex_Character rchar
  | Unterminated_Hex
  | Odd_Hex_Digits nat
  | Invalid_Float rstring
  | Invalid_Integer rstring

text \<open>\<open>chars.peek() == Some(&c)\<close>\<close>

definition peek_is :: "rstring \<Rightarrow> char \<Rightarrow> bool" where
  "peek_is cs c \<longleftrightarrow> cs \<noteq> [] \<and> hd cs = uc c"

definition bind_lex :: "lex_error + 'a \<Rightarrow> ('a \<Rightarrow> lex_error + 'b) \<Rightarrow> lex_error + 'b" where
  "bind_lex m f = (case m of Inl e \<Rightarrow> Inl e | Inr x \<Rightarrow> f x)"

section \<open>Readers\<close>

definition read_identifier :: "unicode \<Rightarrow> rstring \<Rightarrow> rstring \<times> rstring" where
  "read_identifier U cs =
     (let p = (\<lambda>c. is_alphanumeric U c \<or> c = uc CHR ''_'') in (takeWhile p cs, dropWhile p cs))"

definition push_word :: "unicode \<Rightarrow> rstring \<Rightarrow> token" where
  "push_word U word =
     (let upper = to_uppercase U word
      in if upper \<in> set (map us KEYWORDS) then Tok_Keyword upper else Tok_Ident word)"

definition read_param_index :: "rstring \<Rightarrow> lex_error + u16 \<times> rstring" where
  "read_param_index cs =
     (let s = takeWhile is_ascii_digit cs; rest = dropWhile is_ascii_digit cs
      in if s = [] then Inl Expected_Param_Digit
         else case parse_digits (2 ^ 16) s of None \<Rightarrow> Inl (Invalid_Param s) | Some n \<Rightarrow> Inr (word_of_nat n, rest))"

definition skip_line_comment :: "rstring \<Rightarrow> rstring" where
  "skip_line_comment cs = dropWhile (\<lambda>c. c \<noteq> 10) cs"

fun skip_block_comment :: "u32 \<Rightarrow> rstring \<Rightarrow> lex_error + rstring" where
  "skip_block_comment depth [] = Inl Unterminated_Block_Comment"
| "skip_block_comment depth (c # cs) =
     (if c = uc CHR ''/'' \<and> peek_is cs CHR ''*''
      then if depth = 0xFFFFFFFF then Inl Nesting_Too_Deep else skip_block_comment (depth + 1) (tl cs)
      else if c = uc CHR ''*'' \<and> peek_is cs CHR ''/''
      then if depth - 1 = 0 then Inr (tl cs) else skip_block_comment (depth - 1) (tl cs)
      else skip_block_comment depth cs)"

fun read_hex_escape :: "nat \<Rightarrow> nat \<Rightarrow> rstring \<Rightarrow> lex_error + nat \<times> rstring" where
  "read_hex_escape 0 v cs = Inr (v, cs)"
| "read_hex_escape (Suc n) v [] = Inl Unterminated_Hex_Escape"
| "read_hex_escape (Suc n) v (c # cs) =
     (case to_hex_digit c of
        None \<Rightarrow> Inl (Invalid_Hex_Escape_Digit c)
      | Some d \<Rightarrow> if v * 16 + d < 2 ^ 32 then read_hex_escape n (v * 16 + d) cs else Inl Hex_Escape_Overflow)"

text \<open>One escape after a backslash: the character it denotes and the rest.\<close>

definition read_escape :: "rstring \<Rightarrow> lex_error + rchar \<times> rstring" where
  "read_escape cs =
     (case cs of
        [] \<Rightarrow> Inl Unterminated_Escape_String
      | c # rest \<Rightarrow>
          if c = uc CHR ''b'' then Inr (8, rest)
          else if c = uc CHR ''f'' then Inr (12, rest)
          else if c = uc CHR ''n'' then Inr (10, rest)
          else if c = uc CHR ''r'' then Inr (13, rest)
          else if c = uc CHR ''t'' then Inr (9, rest)
          else if c = uc CHR ''v'' then Inr (11, rest)
          else if c = 92 then Inr (92, rest)
          else if c = 39 then Inr (39, rest)
          else if c = uc CHR ''0'' then Inr (0, rest)
          else if c = uc CHR ''x'' then bind_lex (read_hex_escape 2 0 rest) (\<lambda>(b, rest'). Inr (b, rest'))
          else if c = uc CHR ''u'' then bind_lex (read_hex_escape 4 0 rest) (\<lambda>(b, rest').
            case char_from_u32 b of Some ch \<Rightarrow> Inr (ch, rest') | None \<Rightarrow> Inl (Invalid_Code_Point b))
          else if c = uc CHR ''U'' then bind_lex (read_hex_escape 8 0 rest) (\<lambda>(b, rest').
            case char_from_u32 b of Some ch \<Rightarrow> Inr (ch, rest') | None \<Rightarrow> Inl (Invalid_Code_Point b))
          else Inl (Unknown_Escape c))"

lemma bind_lex_cong [fundef_cong]:
  "m = m' \<Longrightarrow> (\<And>x. m' = Inr x \<Longrightarrow> f x = f' x) \<Longrightarrow> bind_lex m f = bind_lex m' f'"
  by (cases m') (auto simp: bind_lex_def)

lemma bind_lex_Inr: "bind_lex m f = Inr y \<longleftrightarrow> (\<exists>x. m = Inr x \<and> f x = Inr y)"
  by (cases m) (auto simp: bind_lex_def)

lemma read_hex_escape_rest: "read_hex_escape n v cs = Inr (w, rest) \<Longrightarrow> length rest \<le> length cs"
  by (induction n v cs rule: read_hex_escape.induct) (auto split: option.splits if_splits)

lemma read_escape_rest: "read_escape cs = Inr (ch, rest) \<Longrightarrow> length rest < length cs"
  by (cases cs) (auto simp: read_escape_def bind_lex_Inr less_Suc_eq_le split: if_splits option.splits dest: read_hex_escape_rest)

function read_escape_string_literal :: "rstring \<Rightarrow> rstring \<Rightarrow> lex_error + rstring \<times> rstring" where
  "read_escape_string_literal s [] = Inl Unterminated_Escape_String"
| "read_escape_string_literal s (c # cs) =
     (if c = 39
      then if peek_is cs CHR 0x27 then read_escape_string_literal (s @ [39]) (tl cs) else Inr (s, cs)
      else if c = 92
      then bind_lex (read_escape cs) (\<lambda>r. read_escape_string_literal (s @ [fst r]) (snd r))
      else read_escape_string_literal (s @ [c]) cs)"
  by pat_completeness auto
termination
proof (relation "measure (\<lambda>(s, cs). length cs)", goal_cases)
  case (3 s c cs r)
  then show ?case
    using read_escape_rest [of cs "fst r" "snd r"] by simp
qed (auto simp: le_imp_less_Suc)

text \<open>A body between quotes, in which a doubled quote stands for one.\<close>

fun read_doubled :: "rchar \<Rightarrow> lex_error \<Rightarrow> rstring \<Rightarrow> rstring \<Rightarrow> lex_error + rstring \<times> rstring" where
  "read_doubled q err s [] = Inl err"
| "read_doubled q err s (c # cs) =
     (if c = q
      then if cs \<noteq> [] \<and> hd cs = q then read_doubled q err (s @ [q]) (tl cs) else Inr (s, cs)
      else read_doubled q err (s @ [c]) cs)"

definition read_quoted_identifier :: "rstring \<Rightarrow> lex_error + rstring \<times> rstring" where
  "read_quoted_identifier cs = read_doubled 34 Unterminated_Quoted_Ident [] cs"

definition read_string_literal :: "rstring \<Rightarrow> lex_error + rstring \<times> rstring" where
  "read_string_literal cs = read_doubled 39 Unterminated_String [] cs"

fun hex_loop :: "rstring \<Rightarrow> rstring \<Rightarrow> lex_error + rstring \<times> rstring" where
  "hex_loop s [] = Inl Unterminated_Hex"
| "hex_loop s (c # cs) =
     (if c = 39 then Inr (s, cs)
      else if to_hex_digit c \<noteq> None then hex_loop (s @ [c]) cs
      else Inl (Invalid_Hex_Character c))"

text \<open>\<open>u8::from_str_radix\<close> on two validated digits.\<close>

definition hex_byte :: "rstring \<Rightarrow> u8" where
  "hex_byte ds = word_of_nat (foldl (\<lambda>n c. 16 * n + the (to_hex_digit c)) 0 ds)"

definition read_hex_literal :: "rstring \<Rightarrow> lex_error + u8 list \<times> rstring" where
  "read_hex_literal cs =
     bind_lex (hex_loop [] cs) (\<lambda>(hex_str, rest).
       if length hex_str mod 2 \<noteq> 0 then Inl (Odd_Hex_Digits (length hex_str))
       else Inr (map hex_byte (chunks_exact 2 hex_str), rest))"

definition read_number :: "unicode \<Rightarrow> rstring \<Rightarrow> lex_error + token \<times> rstring" where
  "read_number U cs =
     (let p = (\<lambda>c. is_ascii_digit c \<or> c = uc CHR ''.''); s = takeWhile p cs; rest = dropWhile p cs;
          dotted = uc CHR ''.'' \<in> set s
      in if peek_is rest CHR ''e'' \<or> peek_is rest CHR ''E''
         then let s1 = s @ [hd rest]; rest1 = tl rest;
                  (s2, rest2) = (if peek_is rest1 CHR ''+'' \<or> peek_is rest1 CHR ''-'' then (s1 @ [hd rest1], tl rest1) else (s1, rest1));
                  s3 = s2 @ takeWhile is_ascii_digit rest2
              in if f64_grammar s3 then Inr (Tok_Float (f64_nearest U s3), dropWhile is_ascii_digit rest2) else Inl (Invalid_Float s3)
         else if dotted
         then if f64_grammar s then Inr (Tok_Float (f64_nearest U s), rest) else Inl (Invalid_Float s)
         else case parse_digits (2 ^ 63) s of
                None \<Rightarrow> Inl (Invalid_Integer s)
              | Some n \<Rightarrow> Inr (Tok_Int (word_of_nat n), rest))"

section \<open>The tokenizer\<close>

text \<open>The arms of the loop that read numbers, the point, and words with their \<open>x'..'\<close> and \<open>E'..'\<close> forms.\<close>

definition lex_word :: "unicode \<Rightarrow> rchar \<Rightarrow> rstring \<Rightarrow> lex_error + token option \<times> rstring" where
  "lex_word U c cs =
     (if is_ascii_digit c then bind_lex (read_number U (c # cs)) (\<lambda>(t, rest). Inr (Some t, rest))
      else if c = uc CHR ''.'' then
        if cs \<noteq> [] \<and> is_ascii_digit (hd cs) then bind_lex (read_number U (c # cs)) (\<lambda>(t, rest). Inr (Some t, rest))
        else Inr (Some (Tok_Op ''.''), cs)
      else if c = uc CHR ''x'' \<or> c = uc CHR ''X'' then
        if peek_is cs CHR 0x27 then bind_lex (read_hex_literal (tl cs)) (\<lambda>(bs, rest). Inr (Some (Tok_Hex bs), rest))
        else let (s, rest) = read_identifier U (c # cs) in Inr (Some (push_word U s), rest)
      else if c = uc CHR ''e'' \<or> c = uc CHR ''E'' then
        if peek_is cs CHR 0x27 then bind_lex (read_escape_string_literal [] (tl cs)) (\<lambda>(s, rest). Inr (Some (Tok_String s), rest))
        else let (s, rest) = read_identifier U (c # cs) in Inr (Some (push_word U s), rest)
      else if is_ascii_lower c \<or> is_ascii_upper c \<or> c = uc CHR ''_'' then
        let (s, rest) = read_identifier U (c # cs) in Inr (Some (push_word U s), rest)
      else Inl (Unexpected_Character c))"

text \<open>One iteration of the loop: at most one token, and the characters left.\<close>

definition lex_step :: "unicode \<Rightarrow> rchar \<Rightarrow> rstring \<Rightarrow> lex_error + token option \<times> rstring" where
  "lex_step U c cs =
     (if c = 32 \<or> c = 9 \<or> c = 10 \<or> c = 13 then Inr (None, cs)
      else if c = uc CHR ''('' then Inr (Some Tok_LParen, cs)
      else if c = uc CHR '')'' then Inr (Some Tok_RParen, cs)
      else if c = uc CHR '','' then Inr (Some Tok_Comma, cs)
      else if c = uc CHR '';'' then Inr (Some Tok_Semicolon, cs)
      else if c = uc CHR ''?'' then Inr (Some Tok_QuestionMark, cs)
      else if c = uc CHR ''$'' then bind_lex (read_param_index cs) (\<lambda>(n, rest). Inr (Some (Tok_Param n), rest))
      else if c = uc CHR ''='' then Inr (Some (Tok_Op ''=''), cs)
      else if c = uc CHR ''!'' then
        if peek_is cs CHR ''='' then Inr (Some (Tok_Op ''!=''), tl cs) else Inl Lone_Bang
      else if c = uc CHR ''<'' then
        if peek_is cs CHR ''='' then Inr (Some (Tok_Op ''<=''), tl cs)
        else if peek_is cs CHR ''>'' then Inr (Some (Tok_Op ''<>''), tl cs)
        else Inr (Some (Tok_Op ''<''), cs)
      else if c = uc CHR ''>'' then
        if peek_is cs CHR ''='' then Inr (Some (Tok_Op ''>=''), tl cs) else Inr (Some (Tok_Op ''>''), cs)
      else if c = uc CHR ''+'' then Inr (Some (Tok_Op ''+''), cs)
      else if c = uc CHR ''-'' then
        if peek_is cs CHR ''-'' then Inr (None, skip_line_comment (tl cs))
        else if peek_is cs CHR ''>'' then
          if peek_is (tl cs) CHR ''>'' then Inr (Some (Tok_Op ''->>''), tl (tl cs)) else Inr (Some (Tok_Op ''->''), tl cs)
        else Inr (Some (Tok_Op ''-''), cs)
      else if c = uc CHR ''*'' then Inr (Some (Tok_Op ''*''), cs)
      else if c = uc CHR ''/'' then
        if peek_is cs CHR ''*'' then bind_lex (skip_block_comment 1 (tl cs)) (\<lambda>rest. Inr (None, rest))
        else Inr (Some (Tok_Op ''/''), cs)
      else if c = uc CHR ''%'' then Inr (Some (Tok_Op ''%''), cs)
      else if c = uc CHR ''|'' then
        if peek_is cs CHR ''|'' then Inr (Some (Tok_Op ''||''), tl cs) else Inl Lone_Bar
      else if c = uc CHR '':'' then
        if peek_is cs CHR '':'' then Inr (Some (Tok_Op ''::''), tl cs) else Inl Lone_Colon
      else if c = 39 then bind_lex (read_string_literal cs) (\<lambda>(s, rest). Inr (Some (Tok_String s), rest))
      else if c = 34 then bind_lex (read_quoted_identifier cs) (\<lambda>(s, rest). Inr (Some (Tok_Ident s), rest))
      else lex_word U c cs)"

text \<open>Every iteration consumes its character.\<close>

lemma dropWhile_rest: "length (dropWhile p cs) \<le> length cs"
  by (rule length_dropWhile_le)

lemma tl_rest: "length (tl cs) \<le> length cs"
  by simp

lemma skip_block_comment_rest: "skip_block_comment depth cs = Inr rest \<Longrightarrow> length rest \<le> length cs"
  by (induction depth cs rule: skip_block_comment.induct) (auto split: if_splits)

lemma read_doubled_rest: "read_doubled q err s cs = Inr (t, rest) \<Longrightarrow> length rest \<le> length cs"
  by (induction q err s cs rule: read_doubled.induct) (auto split: if_splits)

lemma read_escape_string_rest: "read_escape_string_literal s cs = Inr (t, rest) \<Longrightarrow> length rest \<le> length cs"
proof (induction s cs rule: read_escape_string_literal.induct)
  case (2 s c cs)
  show ?case
  proof (cases "c \<noteq> 39 \<and> c = 92")
    case True
    then obtain ch r where "read_escape cs = Inr (ch, r)" "read_escape_string_literal (s @ [ch]) r = Inr (t, rest)"
      using "2.prems" by (auto simp: bind_lex_Inr)
    then show ?thesis
      using "2.IH"(2) [of "(ch, r)"] True read_escape_rest [of cs ch r] by force
  qed (use 2 in \<open>auto split: if_splits intro: le_SucI order_trans [OF _ tl_rest]\<close>)
qed simp

lemma hex_loop_rest: "hex_loop s cs = Inr (t, rest) \<Longrightarrow> length rest \<le> length cs"
  by (induction s cs rule: hex_loop.induct) (auto split: if_splits)

lemma read_number_rest:
  assumes "read_number U (c # cs) = Inr (t, rest)" "is_ascii_digit c \<or> c = uc CHR ''.''"
  shows "length rest \<le> length cs"
proof -
  let ?p = "\<lambda>c. is_ascii_digit c \<or> c = uc CHR ''.''"
  let ?d = "dropWhile ?p cs"
  have drop: "dropWhile ?p (c # cs) = ?d"
    using assms(2) by simp
  have "length (dropWhile is_ascii_digit (tl (tl ?d))) \<le> length cs" "length (dropWhile is_ascii_digit (tl ?d)) \<le> length cs" "length ?d \<le> length cs"
    using dropWhile_rest [of is_ascii_digit "tl (tl ?d)"] dropWhile_rest [of is_ascii_digit "tl ?d"] dropWhile_rest [of ?p cs] by simp_all
  then show ?thesis
    using assms(1) unfolding read_number_def Let_def drop by (auto split: if_splits option.splits)
qed

lemma read_identifier_rest:
  "is_alphanumeric U c \<or> c = uc CHR ''_'' \<Longrightarrow> length (snd (read_identifier U (c # cs))) \<le> length cs"
  by (simp add: read_identifier_def Let_def dropWhile_rest)

lemma word_start:
  "is_ascii_lower c \<or> is_ascii_upper c \<or> c = uc CHR ''_'' \<Longrightarrow> is_alphanumeric U c \<or> c = uc CHR ''_''"
  by (auto simp: is_alphanumeric_def is_ascii_lower_def is_ascii_upper_def)

lemmas reader_rests = skip_block_comment_rest read_doubled_rest read_escape_string_rest hex_loop_rest

lemma if_eqE: "(if b then x else y) = z \<Longrightarrow> (b \<Longrightarrow> x = z \<Longrightarrow> R) \<Longrightarrow> (\<not> b \<Longrightarrow> y = z \<Longrightarrow> R) \<Longrightarrow> R"
  by (cases b) auto

lemma lex_step_rest:
  assumes "lex_step U c cs = Inr (t, rest)"
  shows "length rest \<le> length cs"
proof -
  have word: "length rest \<le> length cs" if "is_alphanumeric U c \<or> c = uc CHR ''_''"
      "(let (s, rest) = read_identifier U (c # cs) in Inr (Some (push_word U s), rest)) = (Inr (t, rest) :: lex_error + _)"
    using that read_identifier_rest [of U c cs] by (auto simp: Let_def split: prod.splits)
  have number: "length rest \<le> length cs" if "is_ascii_digit c \<or> c = uc CHR ''.''"
      "bind_lex (read_number U (c # cs)) (\<lambda>(t, rest). Inr (Some t, rest)) = Inr (t, rest)"
    using that read_number_rest [of U c cs] by (auto simp: bind_lex_Inr)
  have simple: "rest = cs \<or> rest = tl cs \<or> rest = tl (tl cs) \<or> rest = skip_line_comment (tl cs) \<Longrightarrow> ?thesis"
    using dropWhile_rest [of "\<lambda>c. c \<noteq> 10" "tl cs"] by (auto simp: skip_line_comment_def)
  have readers:
    "bind_lex (read_param_index cs) (\<lambda>(n, rest). Inr (Some (Tok_Param n), rest)) = Inr (t, rest) \<Longrightarrow> ?thesis"
    "bind_lex (skip_block_comment 1 (tl cs)) (\<lambda>rest. Inr (None, rest)) = Inr (t, rest) \<Longrightarrow> ?thesis"
    "bind_lex (read_string_literal cs) (\<lambda>(s, rest). Inr (Some (Tok_String s), rest)) = Inr (t, rest) \<Longrightarrow> ?thesis"
    "bind_lex (read_quoted_identifier cs) (\<lambda>(s, rest). Inr (Some (Tok_Ident s), rest)) = Inr (t, rest) \<Longrightarrow> ?thesis"
    "bind_lex (read_hex_literal (tl cs)) (\<lambda>(bs, rest). Inr (Some (Tok_Hex bs), rest)) = Inr (t, rest) \<Longrightarrow> ?thesis"
    "bind_lex (read_escape_string_literal [] (tl cs)) (\<lambda>(s, rest). Inr (Some (Tok_String s), rest)) = Inr (t, rest) \<Longrightarrow> ?thesis"
    by (auto simp: bind_lex_Inr read_param_index_def Let_def dropWhile_rest read_string_literal_def read_quoted_identifier_def
        read_hex_literal_def split: option.splits if_splits dest!: reader_rests)
  have words:
    "is_ascii_lower c \<or> is_ascii_upper c \<or> c = uc CHR ''_'' \<Longrightarrow> (let (s, rest) = read_identifier U (c # cs) in Inr (Some (push_word U s), rest)) = (Inr (t, rest) :: lex_error + _) \<Longrightarrow> ?thesis"
    "c = uc CHR ''x'' \<or> c = uc CHR ''X'' \<Longrightarrow> (let (s, rest) = read_identifier U (c # cs) in Inr (Some (push_word U s), rest)) = (Inr (t, rest) :: lex_error + _) \<Longrightarrow> ?thesis"
    "c = uc CHR ''e'' \<or> c = uc CHR ''E'' \<Longrightarrow> (let (s, rest) = read_identifier U (c # cs) in Inr (Some (push_word U s), rest)) = (Inr (t, rest) :: lex_error + _) \<Longrightarrow> ?thesis"
    using word word_start [of c U] by (auto simp: is_alphanumeric_def is_ascii_lower_def is_ascii_upper_def)
  have numbers:
    "is_ascii_digit c \<Longrightarrow> bind_lex (read_number U (c # cs)) (\<lambda>(t, rest). Inr (Some t, rest)) = Inr (t, rest) \<Longrightarrow> ?thesis"
    "c = uc CHR ''.'' \<Longrightarrow> bind_lex (read_number U (c # cs)) (\<lambda>(t, rest). Inr (Some t, rest)) = Inr (t, rest) \<Longrightarrow> ?thesis"
    using number by blast+
  show ?thesis
    using assms unfolding lex_step_def lex_word_def
    by (elim if_eqE) ((rule simple, simp; fail) | (erule readers) | (erule (1) numbers) | (erule (1) words) | (erule Inl_Inr_False))+
qed

function lex_loop :: "unicode \<Rightarrow> token list \<Rightarrow> rstring \<Rightarrow> lex_error + token list" where
  "lex_loop U tokens [] = Inr (tokens @ [Tok_EOF])"
| "lex_loop U tokens (c # cs) =
     bind_lex (lex_step U c cs) (\<lambda>r. lex_loop U (case fst r of None \<Rightarrow> tokens | Some t \<Rightarrow> tokens @ [t]) (snd r))"
  by pat_completeness auto
termination
proof (relation "measure (\<lambda>(U, tokens, cs). length cs)", goal_cases)
  case (2 U tokens c cs r)
  then show ?case
    using lex_step_rest [of U c cs "fst r" "snd r"] by simp
qed simp

definition tokenize :: "unicode \<Rightarrow> rstring \<Rightarrow> lex_error + token list" where
  "tokenize U input = lex_loop U [] input"

section \<open>Tokens the lexer returns\<close>

definition OPERATORS :: "string list" where
  "OPERATORS = [''='', ''!='', ''<='', ''<>'', ''<'', ''>='', ''>'', ''+'', ''->>'', ''->'', ''-'', ''*'', ''/'', ''%'', ''||'', ''::'', ''.'']"

fun token_ok :: "token \<Rightarrow> bool" where
  "token_ok (Tok_Keyword k) \<longleftrightarrow> k \<in> set (map us KEYWORDS)"
| "token_ok (Tok_Int i) \<longleftrightarrow> unat i < 2 ^ 63"
| "token_ok (Tok_Op s) \<longleftrightarrow> s \<in> set OPERATORS"
| "token_ok Tok_EOF \<longleftrightarrow> False"
| "token_ok _ \<longleftrightarrow> True"

lemma push_word_ok: "token_ok (push_word U s)"
  by (simp add: push_word_def Let_def)

lemma read_number_ok: "read_number U cs = Inr (t, rest) \<Longrightarrow> token_ok t"
  by (auto simp: read_number_def Let_def parse_digits_def unat_of_nat split: if_splits option.splits prod.splits
      intro: le_less_trans [OF mod_less_eq_dividend])

lemma lex_step_ok:
  assumes "lex_step U c cs = Inr (Some t, rest)"
  shows "token_ok t"
proof -
  have ops: "Inr (Some (Tok_Op s), r) = (Inr (Some t, rest) :: lex_error + _) \<Longrightarrow> s \<in> set OPERATORS \<Longrightarrow> token_ok t" for s r
    by auto
  have plain: "Inr (Some x, r) = (Inr (Some t, rest) :: lex_error + _) \<Longrightarrow> token_ok x \<Longrightarrow> token_ok t" for x r
    by simp
  have word: "(let (s, rest) = read_identifier U (c # cs) in Inr (Some (push_word U s), rest)) = (Inr (Some t, rest) :: lex_error + _) \<Longrightarrow> token_ok t"
    using push_word_ok by (auto split: prod.splits)
  have number: "bind_lex (read_number U (c # cs)) (\<lambda>(t, rest). Inr (Some t, rest)) = Inr (Some t, rest) \<Longrightarrow> token_ok t"
    using read_number_ok by (auto simp: bind_lex_Inr)
  have literal: "bind_lex m (\<lambda>(s, rest). Inr (Some (f s), rest)) = Inr (Some t, rest) \<Longrightarrow> (\<And>s. token_ok (f s)) \<Longrightarrow> token_ok t" for f m
    by (auto simp: bind_lex_Inr)
  have skip: "bind_lex m (\<lambda>rest. Inr (None, rest)) = Inr (Some t, rest) \<Longrightarrow> token_ok t" for m
    by (auto simp: bind_lex_Inr)
  show ?thesis
    using assms unfolding lex_step_def lex_word_def
    by (elim if_eqE) ((erule Inl_Inr_False) | (erule word) | (erule number) | (erule skip) | (erule ops, simp add: OPERATORS_def; fail)
        | (erule plain, simp; fail) | (erule literal, simp; fail) | (simp; fail))+
qed

lemma lex_loop_ok:
  "lex_loop U tokens cs = Inr ts \<Longrightarrow> list_all token_ok tokens \<Longrightarrow> \<exists>ts'. ts = ts' @ [Tok_EOF] \<and> list_all token_ok ts'"
proof (induction U tokens cs rule: lex_loop.induct)
  case (2 U tokens c cs)
  then obtain r where r: "lex_step U c cs = Inr r" "lex_loop U (case fst r of None \<Rightarrow> tokens | Some t \<Rightarrow> tokens @ [t]) (snd r) = Inr ts"
    by (auto simp: bind_lex_Inr)
  have "list_all token_ok (case fst r of None \<Rightarrow> tokens | Some t \<Rightarrow> tokens @ [t])"
    using "2.prems"(2) lex_step_ok [of U c cs _ "snd r"] r(1) by (cases r) (auto split: option.split)
  then show ?case
    using "2.IH" [OF r] by blast
qed auto

section \<open>Printing tokens\<close>

definition double_quote :: "rchar \<Rightarrow> rstring \<Rightarrow> rstring" where
  "double_quote q s = q # concat (map (\<lambda>c. if c = q then [q, q] else [c]) s) @ [q]"

definition hex_code :: "nat \<Rightarrow> rchar" where
  "hex_code d = (if d < 10 then 48 + d else 87 + d)"

fun print_token :: "token \<Rightarrow> rstring" where
  "print_token (Tok_Keyword k) = k"
| "print_token (Tok_Ident s) = double_quote 34 s"
| "print_token (Tok_Int i) = us (show_nat (unat i))"
| "print_token (Tok_String s) = double_quote 39 s"
| "print_token (Tok_Hex bs) = [uc CHR ''x'', 39] @ concat (map (\<lambda>b. [hex_code (unat b div 16), hex_code (unat b mod 16)]) bs) @ [39]"
| "print_token (Tok_Param n) = uc CHR ''$'' # us (show_nat (unat n))"
| "print_token Tok_QuestionMark = us ''?''"
| "print_token (Tok_Op s) = us s"
| "print_token Tok_LParen = us ''(''"
| "print_token Tok_RParen = us '')''"
| "print_token Tok_Comma = us '',''"
| "print_token Tok_Semicolon = us '';''"
| "print_token (Tok_Float _) = []"
| "print_token Tok_EOF = []"

definition print_tokens :: "token list \<Rightarrow> rstring" where
  "print_tokens ts = concat (map (\<lambda>t. print_token t @ [32]) ts)"

lemma takeWhile_stop: "list_all p s \<Longrightarrow> \<not> p c \<Longrightarrow> takeWhile p (s @ c # rest) = s \<and> dropWhile p (s @ c # rest) = c # rest"
  by (induction s) auto

lemma show_nat_digits: "show_nat n \<noteq> [] \<and> list_all is_ascii_digit (us (show_nat n)) \<and> digits_value (us (show_nat n)) = n"
proof (induction n rule: show_nat.induct)
  case (1 n)
  have digit: "uc (digit_char d) = 48 + d" if "d < 10" for d
    using that by (simp add: digit_char_def of_char_mod_256)
  show ?case
  proof (cases "n < 10")
    case True
    then show ?thesis
      by (simp add: show_nat.simps digit is_ascii_digit_def digits_value_def)
  next
    case False
    have "n = 10 * (n div 10) + n mod 10"
      by simp
    then show ?thesis
      using 1 False digit [of "n mod 10"] by (simp add: show_nat.simps [of n] is_ascii_digit_def digits_value_def)
  qed
qed

lemma read_doubled_print:
  assumes "rest = [] \<or> hd rest \<noteq> q"
  shows "read_doubled q err s (concat (map (\<lambda>c. if c = q then [q, q] else [c]) t) @ q # rest) = Inr (s @ t, rest)"
  using assms by (induction t arbitrary: s) auto

lemma hex_code_digit: "d < 16 \<Longrightarrow> to_hex_digit (hex_code d) = Some d \<and> hex_code d \<noteq> 39"
  by (auto simp: to_hex_digit_def hex_code_def is_ascii_digit_def)

lemma hex_loop_print: "list_all (\<lambda>c. to_hex_digit c \<noteq> None \<and> c \<noteq> 39) t \<Longrightarrow> hex_loop s (t @ 39 # rest) = Inr (s @ t, rest)"
  by (induction t arbitrary: s) auto

lemma u8_nibbles: "unat b div 16 < 16" "unat b mod 16 < 16" for b :: u8
proof -
  have "unat b < 16 * 16"
    using unsigned_less [of b] by simp
  then show "unat b div 16 < 16" "unat b mod 16 < 16"
    by (simp_all add: less_mult_imp_div_less)
qed

lemma read_hex_print:
  "read_hex_literal (concat (map (\<lambda>b. [hex_code (unat b div 16), hex_code (unat b mod 16)]) bs) @ 39 # rest) = Inr (bs, rest)"
proof -
  let ?t = "concat (map (\<lambda>b. [hex_code (unat b div 16), hex_code (unat b mod 16)]) bs)"
  have "list_all (\<lambda>c. to_hex_digit c \<noteq> None \<and> c \<noteq> 39) ?t"
    using hex_code_digit [OF u8_nibbles(1)] hex_code_digit [OF u8_nibbles(2)] by (induction bs) simp_all
  then have loop: "hex_loop [] (?t @ 39 # rest) = Inr (?t, rest)"
    by (simp add: hex_loop_print)
  have len: "length ?t = 2 * length bs"
    by (induction bs) simp_all
  have byte: "hex_byte [hex_code (unat b div 16), hex_code (unat b mod 16)] = b" for b :: u8
    using hex_code_digit [OF u8_nibbles(1), of b] hex_code_digit [OF u8_nibbles(2), of b] by (simp add: hex_byte_def)
  have "map hex_byte (chunks_exact 2 ?t) = bs"
  proof (induction bs)
    case (Cons b bs)
    then show ?case
      by (simp add: chunks_exact.simps [of 2 "_ # _"] byte)
  qed (simp add: chunks_exact.simps)
  then show ?thesis
    using loop len by (simp add: read_hex_literal_def bind_lex_def)
qed

lemma keywords_upper: "list_all (\<lambda>k. k \<noteq> [] \<and> list_all is_ascii_upper (us k)) KEYWORDS"
  by (simp add: KEYWORDS_def is_ascii_upper_def)

lemma uppercase_id: "list_all is_ascii_upper s \<Longrightarrow> to_uppercase U s = s"
  by (induction s) (auto simp: to_uppercase_def is_ascii_upper_def is_ascii_lower_def)

lemma lex_step_upper:
  assumes "is_ascii_upper c" "\<not> peek_is cs CHR 0x27"
  shows "lex_step U c cs = (let (s, rest) = read_identifier U (c # cs) in Inr (Some (push_word U s), rest))"
  using assms by (simp add: lex_step_def lex_word_def is_ascii_upper_def is_ascii_digit_def)

lemma lex_step_digit:
  assumes "is_ascii_digit c"
  shows "lex_step U c cs = bind_lex (read_number U (c # cs)) (\<lambda>(t, rest). Inr (Some t, rest))"
  using assms by (simp add: lex_step_def lex_word_def is_ascii_digit_def)

lemma lex_step_keyword:
  assumes "k \<in> set KEYWORDS"
  shows "lex_step U (hd (us k)) (tl (us k) @ 32 # rest) = Inr (Some (Tok_Keyword (us k)), 32 # rest)"
proof -
  have k: "k \<noteq> []" "list_all is_ascii_upper (us k)"
    using keywords_upper assms by (auto simp: list_all_iff)
  then have cons: "hd (us k) # tl (us k) @ 32 # rest = us k @ 32 # rest" and up: "is_ascii_upper (hd (us k))"
    by (cases k; simp)+
  have "\<not> peek_is (tl (us k) @ 32 # rest) CHR 0x27"
    using k by (cases k; cases "tl k") (auto simp: peek_is_def is_ascii_upper_def)
  moreover have "list_all (\<lambda>c. is_alphanumeric U c \<or> c = uc CHR ''_'') (us k)"
    using k(2) by (auto simp: list_all_iff is_alphanumeric_def is_ascii_upper_def)
  then have "read_identifier U (us k @ 32 # rest) = (us k, 32 # rest)"
    using takeWhile_stop [of "\<lambda>c. is_alphanumeric U c \<or> c = uc CHR ''_''" "us k" 32 rest]
    by (simp add: read_identifier_def Let_def is_alphanumeric_def is_ascii_upper_def is_ascii_lower_def is_ascii_digit_def)
  moreover have "push_word U (us k) = Tok_Keyword (us k)"
    using assms by (simp add: push_word_def uppercase_id [OF k(2)])
  ultimately show ?thesis
    using up by (simp add: lex_step_upper cons)
qed

lemma lex_step_int:
  assumes "unat i < 2 ^ 63"
  shows "lex_step U (hd (us (show_nat (unat i)))) (tl (us (show_nat (unat i))) @ 32 # rest) = Inr (Some (Tok_Int i), 32 # rest)"
proof -
  let ?s = "us (show_nat (unat i))" and ?p = "\<lambda>c. is_ascii_digit c \<or> c = uc CHR ''.''"
  have s: "?s \<noteq> []" "list_all is_ascii_digit ?s" "digits_value ?s = unat i"
    using show_nat_digits [of "unat i"] by simp_all
  then have cons: "hd ?s # tl ?s @ 32 # rest = ?s @ 32 # rest" and up: "is_ascii_digit (hd ?s)"
    by (cases "show_nat (unat i)"; simp)+
  have "list_all ?p ?s" "\<not> ?p 32" "uc CHR ''.'' \<notin> set ?s"
    using s(2) by (auto simp: list_all_iff is_ascii_digit_def)
  then have "read_number U (?s @ 32 # rest) = Inr (Tok_Int i, 32 # rest)"
    using takeWhile_stop [of ?p ?s 32 rest] assms s(3)
    by (simp add: read_number_def Let_def peek_is_def parse_digits_def)
  then show ?thesis
    using up by (simp add: lex_step_digit cons bind_lex_def)
qed

lemma lex_step_op:
  assumes "s \<in> set OPERATORS"
  shows "s \<noteq> [] \<and> lex_step U (hd (us s)) (tl (us s) @ 32 # rest) = Inr (Some (Tok_Op s), 32 # rest)"
proof -
  have "\<forall>s \<in> set OPERATORS. s \<noteq> [] \<and> lex_step U (hd (us s)) (tl (us s) @ 32 # rest) = Inr (Some (Tok_Op s), 32 # rest)"
    by (simp add: OPERATORS_def lex_step_def lex_word_def peek_is_def is_ascii_digit_def)
  then show ?thesis
    using assms by blast
qed

lemma lex_step_print:
  assumes "token_ok t" "\<And>x. t \<noteq> Tok_Float x"
  shows "print_token t \<noteq> [] \<and> lex_step U (hd (print_token t)) (tl (print_token t) @ 32 # rest) = Inr (Some t, 32 # rest)"
proof (cases t)
  case (Tok_Keyword k)
  then obtain w where w: "w \<in> set KEYWORDS" "k = us w"
    using assms by auto
  then show ?thesis
    using Tok_Keyword lex_step_keyword [OF w(1), of U rest] keywords_upper by (auto simp: list_all_iff)
next
  case (Tok_Int i)
  then show ?thesis
    using lex_step_int [of i U rest] assms show_nat_digits [of "unat i"] by simp
next
  case (Tok_Ident s)
  then show ?thesis
    by (simp add: double_quote_def lex_step_def read_quoted_identifier_def read_doubled_print bind_lex_def)
next
  case (Tok_String s)
  then show ?thesis
    by (simp add: double_quote_def lex_step_def read_string_literal_def read_doubled_print bind_lex_def)
next
  case (Tok_Hex bs)
  then show ?thesis
    by (simp add: lex_step_def lex_word_def read_hex_print bind_lex_def peek_is_def is_ascii_digit_def)
next
  case (Tok_Param n)
  have "digits_value (us (show_nat (unat n))) < 2 ^ 16"
    using show_nat_digits [of "unat n"] unsigned_less [of n] by simp
  then have "read_param_index (us (show_nat (unat n)) @ 32 # rest) = Inr (n, 32 # rest)"
    using takeWhile_stop [of is_ascii_digit "us (show_nat (unat n))" 32 rest] show_nat_digits [of "unat n"]
    by (simp add: read_param_index_def parse_digits_def is_ascii_digit_def)
  then show ?thesis
    using Tok_Param by (simp add: lex_step_def bind_lex_def)
next
  case (Tok_Op s)
  then show ?thesis
    using assms(1) lex_step_op [of s U rest] by auto
qed (use assms in \<open>auto simp: lex_step_def\<close>)

lemma lex_loop_print:
  assumes "list_all (\<lambda>t. token_ok t \<and> (\<forall>x. t \<noteq> Tok_Float x)) ts"
  shows "lex_loop U tokens (print_tokens ts) = Inr (tokens @ ts @ [Tok_EOF])"
  using assms
proof (induction ts arbitrary: tokens)
  case (Cons t ts)
  let ?p = "print_token t" and ?rest = "print_tokens ts"
  have step: "?p \<noteq> []" "lex_step U (hd ?p) (tl ?p @ 32 # ?rest) = Inr (Some t, 32 # ?rest)"
    using lex_step_print [of t U ?rest] Cons.prems by simp_all
  have "print_tokens (t # ts) = hd ?p # tl ?p @ 32 # ?rest"
    using step(1) by (simp add: print_tokens_def)
  moreover have "lex_step U 32 ?rest = Inr (None, ?rest)"
    by (simp add: lex_step_def)
  ultimately show ?case
    using Cons step(2) by (simp add: bind_lex_def)
qed (simp add: print_tokens_def)

section \<open>Properties\<close>

definition ascii_only :: unicode where
  "ascii_only = \<lparr>uni_alphanumeric = (\<lambda>_. False), uni_uppercase = (\<lambda>c. [c]), f64_nearest = (\<lambda>_. 0)\<rparr>"

text \<open>C29. What the tokenizer returns: on every input it ends, and the tokens of a success are closed by one
  EOF, which occurs nowhere else; every keyword is a word of the reserved list in upper case, every operator
  one the parser knows, and every integer literal lies in the non-negative range of \<open>i64\<close>.\<close>

theorem tokenize_well_typed:
  assumes "tokenize U input = Inr ts"
  shows "\<exists>ts'. ts = ts' @ [Tok_EOF] \<and> list_all token_ok ts'"
  using lex_loop_ok [OF assms [unfolded tokenize_def]] by simp

text \<open>C30. Printing and tokenizing are inverse: any sequence of tokens other than floats, printed with a blank
  after each (identifiers and strings in quotes with inner quotes doubled, bytes in hexadecimal), tokenizes
  to that sequence and EOF. In particular a quoted string or identifier is read back as one token whatever
  characters it contains.\<close>

theorem tokenize_print_roundtrip:
  assumes "list_all (\<lambda>t. token_ok t \<and> (\<forall>x. t \<noteq> Tok_Float x)) ts"
  shows "tokenize U (print_tokens ts) = Inr (ts @ [Tok_EOF])"
  using lex_loop_print [OF assms, of U "[]"] by (simp add: tokenize_def)

definition sample_tokens :: "token list" where
  "sample_tokens = [Tok_Keyword (us ''SELECT''), Tok_Ident (us ''a'' @ [34]), Tok_Op ''<='', Tok_Int 42, Tok_Comma,
     Tok_String [39, 955], Tok_Hex [0, 255], Tok_Param 7]"

lemma sample_tokens_ok: "list_all (\<lambda>t. token_ok t \<and> (\<forall>x. t \<noteq> Tok_Float x)) sample_tokens"
  by (simp add: sample_tokens_def KEYWORDS_def OPERATORS_def)

theorem tokenize_print_roundtrip_witness:
  "tokenize ascii_only (print_tokens sample_tokens) = Inr (sample_tokens @ [Tok_EOF])"
  by (rule tokenize_print_roundtrip [OF sample_tokens_ok])

theorem tokenize_well_typed_witness:
  "tokenize ascii_only (print_tokens sample_tokens) = Inr (sample_tokens @ [Tok_EOF])
   \<and> (\<exists>ts'. sample_tokens @ [Tok_EOF] = ts' @ [Tok_EOF] \<and> list_all token_ok ts')"
proof -
  have run: "tokenize ascii_only (print_tokens sample_tokens) = Inr (sample_tokens @ [Tok_EOF])"
    using lex_loop_print [OF sample_tokens_ok, of ascii_only "[]"] by (simp add: tokenize_def)
  then show ?thesis
    using tokenize_well_typed [OF run] by blast
qed

end
