(* ===== verification/Utf8_Text.thy ===== *)
theory Utf8_Text
  imports Prelude
begin

text \<open>
  The parts of Rust's \<open>str\<close> the log uses. A \<open>String\<close> is its UTF-8 bytes: validity and lossy decoding
  (\<open>String::from_utf8_lossy\<close>), \<open>BufRead::lines\<close>, splitting at an ASCII character, \<open>str::replace\<close>, the
  decimal and hexadecimal rendering of a \<open>u64\<close> and its parsing. The lemmas show that parsing reverses
  rendering and that rendered fields contain no separator.
\<close>

type_synonym bytes = "u8 list"

abbreviation ascii :: "string \<Rightarrow> bytes" where
  "ascii \<equiv> map of_char"

section \<open>UTF-8\<close>

definition in_range :: "u8 \<Rightarrow> u8 \<Rightarrow> u8 \<Rightarrow> bool" where
  "in_range a b x \<longleftrightarrow> a \<le> x \<and> x \<le> b"

text \<open>The byte at an index, 0 beyond the end.\<close>

definition safe_get :: "bytes \<Rightarrow> nat \<Rightarrow> u8" where
  "safe_get bs i = (if i < length bs then bs ! i else 0)"

text \<open>The bytes the second byte of a sequence may have, by its first byte.\<close>

definition second_ok :: "u8 \<Rightarrow> u8 \<Rightarrow> bool" where
  "second_ok b0 b1 =
     (if b0 = 0xE0 then in_range 0xA0 0xBF b1
      else if b0 = 0xED then in_range 0x80 0x9F b1
      else if b0 = 0xF0 then in_range 0x90 0xBF b1
      else if b0 = 0xF4 then in_range 0x80 0x8F b1
      else in_range 0x80 0xBF b1)"

text \<open>The head of a non-empty byte string: a valid sequence, or the maximal invalid prefix, and its length.\<close>

definition utf8_head :: "bytes \<Rightarrow> bool \<times> nat" where
  "utf8_head bs =
     (let b0 = safe_get bs 0; ok1 = second_ok b0 (safe_get bs 1);
          ok2 = in_range 0x80 0xBF (safe_get bs 2); ok3 = in_range 0x80 0xBF (safe_get bs 3)
      in if b0 < 0x80 then (True, 1)
         else if in_range 0xC2 0xDF b0 then (if ok1 then (True, 2) else (False, 1))
         else if in_range 0xE0 0xEF b0 then (if \<not> ok1 then (False, 1) else if ok2 then (True, 3) else (False, 2))
         else if in_range 0xF0 0xF4 b0
              then (if \<not> ok1 then (False, 1) else if \<not> ok2 then (False, 2) else if ok3 then (True, 4) else (False, 3))
         else (False, 1))"

lemma utf8_head_pos: "0 < snd (utf8_head bs)"
  by (simp add: utf8_head_def Let_def)

function utf8_chunks :: "bytes \<Rightarrow> (bool \<times> bytes) list" where
  "utf8_chunks bs =
     (if bs = [] then []
      else let (ok, n) = utf8_head bs in (ok, take n bs) # utf8_chunks (drop n bs))"
  by auto
termination
proof (relation "measure length", goal_cases)
  case (2 bs x ok n)
  then show ?case
    using utf8_head_pos [of bs] by (cases "utf8_head bs") auto
qed simp

declare utf8_chunks.simps [simp del]

definition utf8_ok :: "bytes \<Rightarrow> bool" where
  "utf8_ok bs \<longleftrightarrow> list_all fst (utf8_chunks bs)"

text \<open>\<open>String::from_utf8_lossy\<close>: an invalid prefix becomes U+FFFD.\<close>

definition utf8_lossy :: "bytes \<Rightarrow> bytes" where
  "utf8_lossy bs = concat (map (\<lambda>(ok, c). if ok then c else [0xEF, 0xBF, 0xBD]) (utf8_chunks bs))"

text \<open>\<open>char::is_whitespace\<close> on the encoding of a character, and \<open>s.trim().is_empty()\<close>.\<close>

definition is_white_space :: "bytes \<Rightarrow> bool" where
  "is_white_space c =
     (case c of
        [a] \<Rightarrow> in_range 9 13 a \<or> a = 32
      | [a, b] \<Rightarrow> a = 0xC2 \<and> (b = 0x85 \<or> b = 0xA0)
      | [a, b, d] \<Rightarrow> a = 0xE1 \<and> b = 0x9A \<and> d = 0x80
           \<or> a = 0xE2 \<and> b = 0x80 \<and> (in_range 0x80 0x8A d \<or> d = 0xA8 \<or> d = 0xA9 \<or> d = 0xAF)
           \<or> a = 0xE2 \<and> b = 0x81 \<and> d = 0x9F \<or> a = 0xE3 \<and> b = 0x80 \<and> d = 0x80
      | _ \<Rightarrow> False)"

definition is_blank :: "bytes \<Rightarrow> bool" where
  "is_blank s \<longleftrightarrow> list_all (\<lambda>c. is_white_space (snd c)) (utf8_chunks s)"

text \<open>ASCII text is valid, and decoding valid text changes nothing.\<close>

definition is_ascii :: "bytes \<Rightarrow> bool" where
  "is_ascii bs \<longleftrightarrow> list_all (\<lambda>b. b < 0x80) bs"

lemma utf8_chunks_ascii: "is_ascii bs \<Longrightarrow> utf8_chunks bs = map (\<lambda>b. (True, [b])) bs"
proof (induction bs)
  case (Cons b bs)
  have "utf8_head (b # bs) = (True, 1)"
    using Cons.prems by (simp add: utf8_head_def Let_def safe_get_def is_ascii_def)
  then show ?case
    using Cons by (subst utf8_chunks.simps) (simp add: is_ascii_def)
qed (simp add: utf8_chunks.simps)

lemma ascii_utf8_ok: "is_ascii bs \<Longrightarrow> utf8_ok bs"
  by (simp add: utf8_ok_def utf8_chunks_ascii list_all_iff)

lemma utf8_chunks_concat: "concat (map snd (utf8_chunks bs)) = bs"
proof (induction bs rule: utf8_chunks.induct)
  case (1 bs)
  show ?case
  proof (cases "bs = []")
    case False
    obtain ok n where h: "utf8_head bs = (ok, n)"
      by (cases "utf8_head bs")
    show ?thesis
      using False 1 [OF False h [symmetric] refl] by (subst utf8_chunks.simps) (simp add: h)
  qed (simp add: utf8_chunks.simps)
qed

lemma utf8_lossy_ok: "utf8_ok bs \<Longrightarrow> utf8_lossy bs = bs"
proof -
  assume "utf8_ok bs"
  then have m: "map (\<lambda>(ok, c). if ok then c else [0xEF, 0xBF, 0xBD]) (utf8_chunks bs) = map snd (utf8_chunks bs)"
    by (auto simp: utf8_ok_def list_all_iff)
  show ?thesis
    unfolding utf8_lossy_def m by (rule utf8_chunks_concat)
qed

lemma is_blank_ascii: "is_ascii s \<Longrightarrow> is_blank s \<longleftrightarrow> list_all (\<lambda>b. in_range 9 13 b \<or> b = 32) s"
  by (simp add: is_blank_def utf8_chunks_ascii is_white_space_def list_all_iff)

section \<open>Splitting\<close>

lemma takeWhile_field: "c \<notin> set a \<Longrightarrow> takeWhile (\<lambda>b. b \<noteq> c) (a @ c # s) = a"
  by (induction a) auto

lemma takeWhile_no_sep: "c \<notin> set a \<Longrightarrow> takeWhile (\<lambda>b. b \<noteq> c) a = a"
  by (induction a) auto

text \<open>\<open>BufRead::lines\<close>: the text up to each newline, without \<open>\\n\<close> or \<open>\\r\\n\<close>, and a last unterminated line.\<close>

definition strip_cr :: "bytes \<Rightarrow> bytes" where
  "strip_cr l = (if l \<noteq> [] \<and> last l = 13 then butlast l else l)"

function split_lines :: "bytes \<Rightarrow> bytes list" where
  "split_lines bs =
     (if bs = [] then []
      else let l = takeWhile (\<lambda>b. b \<noteq> 10) bs
           in if length l = length bs then [l] else strip_cr l # split_lines (drop (length l + 1) bs))"
  by auto
termination
  by (relation "measure length") auto

declare split_lines.simps [simp del]

lemma split_lines_Nil [simp]: "split_lines [] = []"
  by (simp add: split_lines.simps)

lemma split_lines_line: "10 \<notin> set l \<Longrightarrow> split_lines (l @ 10 # rest) = strip_cr l # split_lines rest"
  by (subst split_lines.simps) (simp add: takeWhile_field)

lemma split_lines_torn: "10 \<notin> set l \<Longrightarrow> l \<noteq> [] \<Longrightarrow> split_lines l = [l]"
  by (subst split_lines.simps) (simp add: takeWhile_no_sep)

text \<open>\<open>s.splitn(n, c)\<close> and \<open>s.rsplit_once(c)\<close> for an ASCII character.\<close>

fun splitn :: "nat \<Rightarrow> u8 \<Rightarrow> bytes \<Rightarrow> bytes list" where
  "splitn 0 c s = []"
| "splitn (Suc 0) c s = [s]"
| "splitn (Suc (Suc n)) c s =
     (let a = takeWhile (\<lambda>b. b \<noteq> c) s
      in if length a = length s then [s] else a # splitn (Suc n) c (drop (length a + 1) s))"

definition rsplit_once :: "u8 \<Rightarrow> bytes \<Rightarrow> (bytes \<times> bytes) option" where
  "rsplit_once c s =
     (if c \<in> set s
      then let l = rev (takeWhile (\<lambda>b. b \<noteq> c) (rev s)) in Some (take (length s - length l - 1) s, l)
      else None)"

lemma splitn_field: "c \<notin> set a \<Longrightarrow> splitn (Suc (Suc n)) c (a @ c # s) = a # splitn (Suc n) c s"
  by (simp add: takeWhile_field)

lemma splitn_length: "length (splitn n c s) \<le> n"
  by (induction n c s rule: splitn.induct) (auto simp: Let_def)

lemma rsplit_once_field: "c \<notin> set l \<Longrightarrow> rsplit_once c (d @ c # l) = Some (d, l)"
  by (simp add: rsplit_once_def takeWhile_field)

text \<open>\<open>s.replace(pat, to)\<close> for a non-empty pattern.\<close>

function replace_all :: "bytes \<Rightarrow> bytes \<Rightarrow> bytes \<Rightarrow> bytes" where
  "replace_all pat to s =
     (if s = [] then []
      else if pat \<noteq> [] \<and> take (length pat) s = pat then to @ replace_all pat to (drop (length pat) s)
      else hd s # replace_all pat to (tl s))"
  by auto
termination
  by (relation "measure (\<lambda>(pat, to, s). length s)") auto

declare replace_all.simps [simp del]

section \<open>Numbers\<close>

definition show_u64 :: "u64 \<Rightarrow> bytes" where
  "show_u64 w = ascii (show_nat (unat w))"

text \<open>\<open>{:016x}\<close>\<close>

definition hex_digit_byte :: "nat \<Rightarrow> u8" where
  "hex_digit_byte d = (if d < 10 then of_nat (48 + d) else of_nat (87 + d))"

definition show_hex16 :: "u64 \<Rightarrow> bytes" where
  "show_hex16 w = map (\<lambda>i. hex_digit_byte (unat w div 16 ^ i mod 16)) (rev [0..<16])"

text \<open>\<open>char::to_digit(radix)\<close> and \<open>u64::from_str_radix\<close>: an optional plus sign, digits, no overflow.\<close>

definition to_digit :: "nat \<Rightarrow> u8 \<Rightarrow> nat option" where
  "to_digit radix b =
     (let n = unat b;
          d = (if 48 \<le> n \<and> n \<le> 57 then n - 48
               else if 97 \<le> n \<and> n \<le> 122 then n - 87
               else if 65 \<le> n \<and> n \<le> 90 then n - 55
               else radix)
      in if d < radix then Some d else None)"

fun radix_value :: "nat \<Rightarrow> nat \<Rightarrow> bytes \<Rightarrow> nat option" where
  "radix_value radix acc [] = Some acc"
| "radix_value radix acc (b # bs) =
     (case to_digit radix b of
        None \<Rightarrow> None
      | Some d \<Rightarrow> if acc * radix + d < 2 ^ 64 then radix_value radix (acc * radix + d) bs else None)"

definition from_str_radix :: "nat \<Rightarrow> bytes \<Rightarrow> u64 option" where
  "from_str_radix radix s =
     (let ds = (case s of b # r \<Rightarrow> if b = 43 then r else s | [] \<Rightarrow> s)
      in if ds = [] then None else map_option word_of_nat (radix_value radix 0 ds))"

definition parse_u64 :: "bytes \<Rightarrow> u64 option" where
  "parse_u64 = from_str_radix 10"

definition parse_u64_or_0 :: "bytes \<Rightarrow> u64" where
  "parse_u64_or_0 s = (case parse_u64 s of Some w \<Rightarrow> w | None \<Rightarrow> 0)"

definition is_hex_digit :: "u8 \<Rightarrow> bool" where
  "is_hex_digit b \<longleftrightarrow> in_range 48 57 b \<or> in_range 97 102 b \<or> in_range 65 70 b"


section \<open>Rendered fields\<close>

lemma radix_value_append:
  "radix_value r acc (xs @ ys) = (case radix_value r acc xs of None \<Rightarrow> None | Some v \<Rightarrow> radix_value r v ys)"
  by (induction r acc xs rule: radix_value.induct) (auto split: option.split)

lemma byte_of_char: "(of_char (char_of (n :: nat)) :: u8) = of_nat (n mod 256)"
  by (metis of_char_of of_nat_of_char)

lemma to_digit_decimal: "d < 10 \<Longrightarrow> to_digit 10 (of_char (digit_char d)) = Some d"
proof -
  assume "d < 10"
  then have "d \<in> {0, 1, 2, 3, 4, 5, 6, 7, 8, 9}" by auto
  then show ?thesis by (auto simp: to_digit_def digit_char_def byte_of_char)
qed

lemma radix_value_show: "n < 2 ^ 64 \<Longrightarrow> radix_value 10 0 (ascii (show_nat n)) = Some n"
proof (induction n rule: show_nat.induct)
  case (1 n)
  show ?case
  proof (cases "n < 10")
    case True
    then show ?thesis
      by (subst show_nat.simps) (simp add: to_digit_decimal)
  next
    case False
    then have "radix_value 10 0 (ascii (show_nat (n div 10))) = Some (n div 10)"
      using 1 by (simp add: div_le_dividend [THEN le_less_trans])
    then show ?thesis
      using False 1 by (subst show_nat.simps) (simp add: radix_value_append to_digit_decimal)
  qed
qed

lemma show_nat_byte_digits: "set (show_nat n) \<subseteq> digit_char ` {..<10}"
proof (induction n rule: show_nat.induct)
  case (1 n)
  then show ?case
    by (subst show_nat.simps) auto
qed

lemma show_nat_ne: "show_nat n \<noteq> []"
  by (subst show_nat.simps) simp

lemma show_u64_digits: "b \<in> set (show_u64 w) \<Longrightarrow> in_range 48 57 b"
proof -
  assume "b \<in> set (show_u64 w)"
  then obtain d where "d < 10" "b = of_char (digit_char d)"
    using show_nat_byte_digits [of "unat w"] by (auto simp: show_u64_def)
  then have "d \<in> {0, 1, 2, 3, 4, 5, 6, 7, 8, 9}" "b = of_char (digit_char d)" by auto
  then show ?thesis by (auto simp: digit_char_def byte_of_char in_range_def)
qed

lemma parse_show_u64: "parse_u64 (show_u64 w) = Some w"
proof -
  have ne: "show_u64 w \<noteq> []"
    by (simp add: show_u64_def show_nat_ne)
  have "hd (show_u64 w) \<noteq> 43"
    using show_u64_digits [of "hd (show_u64 w)" w] ne by (auto simp: in_range_def)
  then have "(case show_u64 w of b # r \<Rightarrow> if b = 43 then r else show_u64 w | [] \<Rightarrow> show_u64 w) = show_u64 w"
    by (auto split: list.split)
  moreover have "radix_value 10 0 (show_u64 w) = Some (unat w)"
    unfolding show_u64_def by (rule radix_value_show) (use unsigned_less [of w] in simp)
  ultimately show ?thesis
    using ne by (simp add: parse_u64_def from_str_radix_def)
qed

lemma hex_digit_byte_value: "d < 16 \<Longrightarrow> is_hex_digit (hex_digit_byte d) \<and> to_digit 16 (hex_digit_byte d) = Some d"
proof -
  assume "d < 16"
  then have "d \<in> {0, 1, 2, 3, 4, 5, 6, 7, 8, 9, 10, 11, 12, 13, 14, 15}" unfolding insert_iff empty_iff by presburger
  then show ?thesis by (auto simp: hex_digit_byte_def is_hex_digit_def in_range_def to_digit_def)
qed

lemma show_hex16_digits: "b \<in> set (show_hex16 w) \<Longrightarrow> is_hex_digit b"
  by (auto simp: show_hex16_def hex_digit_byte_value)

lemma show_hex16_length [simp]: "length (show_hex16 w) = 16"
  by (simp add: show_hex16_def)

lemma radix_value_hex:
  assumes "v < 2 ^ 64" "k \<le> 16"
  shows "radix_value 16 (v div 16 ^ k) (map (\<lambda>i. hex_digit_byte (v div 16 ^ i mod 16)) (rev [0..<k])) = Some v"
  using assms(2)
proof (induction k)
  case (Suc k)
  have "v div 16 ^ Suc k * 16 + v div 16 ^ k mod 16 = v div 16 ^ k"
    by (metis div_mult_mod_eq div_mult2_eq power_Suc2)
  moreover have "v div 16 ^ k < 2 ^ 64"
    using assms(1) div_le_dividend le_less_trans by blast
  ultimately show ?case
    using Suc by (simp add: hex_digit_byte_value)
qed simp

lemma parse_show_hex16: "from_str_radix 16 (show_hex16 w) = Some w"
proof -
  have ne: "show_hex16 w \<noteq> []"
    using show_hex16_length [of w] by (metis list.size(3) zero_neq_numeral)
  have "hd (show_hex16 w) \<noteq> 43"
    using show_hex16_digits [of "hd (show_hex16 w)" w] ne by (auto simp: is_hex_digit_def in_range_def)
  then have "(case show_hex16 w of b # r \<Rightarrow> if b = 43 then r else show_hex16 w | [] \<Rightarrow> show_hex16 w) = show_hex16 w"
    by (auto split: list.split)
  moreover have "radix_value 16 0 (show_hex16 w) = Some (unat w)"
    using radix_value_hex [of "unat w" 16] unsigned_less [of w] by (simp add: show_hex16_def)
  ultimately show ?thesis
    using ne by (simp add: from_str_radix_def)
qed

end
