(* ===== verification/Wal.thy ===== *)
theory Wal
  imports Utf8_Text Io_Monad
begin

text \<open>
  The write-ahead log of \<open>src/storage/recovery.rs\<close>: records and their line format, the segment files of
  the log directory, appending with rotation, the fsync operations of single and group commit, reading,
  truncation and opening. The state contains the directory (\<open>log_dir\<close>): the bytes of every file and how
  many of them an fsync has made durable, the outcomes of the system calls to come and the clock. Base64,
  JSON and xxh3 are the crates \<open>base64\<close>, \<open>serde_json\<close> and \<open>xxhash-rust\<close>, arguments of the model
  (\<open>codec\<close>); the replication sink and the Raft client are arguments too (\<open>peers\<close>). Creating and removing
  a file is taken to be durable at once; only file contents can be lost in a crash. Counters wrap as in a
  release build.
\<close>

section \<open>Records\<close>

text \<open>\<open>usize\<close> has 64 bits on the platforms the engine targets.\<close>

type_synonym usize = u64

datatype physical_change =
    PageAlloc u64 u32
  | CellUpdate u64 u32 usize u64 u64
  | RowInsert u64 u32 usize "u64 list"
  | RowUpdate u64 u32 usize "u64 list" "u64 list"
  | RowDelete u64 u32 usize
  | PageSplit u64 u32 u32 usize

record wal_record =
  rec_lsn :: u64
  rec_timestamp_us :: u64
  rec_txn_id :: u64
  rec_sql :: bytes
  is_commit :: bool
  is_rollback :: bool
  rec_physical :: "physical_change option"

definition rec_txn_dml :: "u64 \<Rightarrow> bytes \<Rightarrow> wal_record" where
  "rec_txn_dml txn sql =
     \<lparr>rec_lsn = 0, rec_timestamp_us = 0, rec_txn_id = txn, rec_sql = sql, is_commit = False, is_rollback = False,
      rec_physical = None\<rparr>"

definition rec_autocommit :: "bytes \<Rightarrow> wal_record" where
  "rec_autocommit sql =
     \<lparr>rec_lsn = 0, rec_timestamp_us = 0, rec_txn_id = 0, rec_sql = sql, is_commit = False, is_rollback = False,
      rec_physical = None\<rparr>"

definition rec_begin :: "u64 \<Rightarrow> wal_record" where
  "rec_begin txn =
     \<lparr>rec_lsn = 0, rec_timestamp_us = 0, rec_txn_id = txn, rec_sql = [], is_commit = False, is_rollback = False,
      rec_physical = None\<rparr>"

definition rec_commit :: "u64 \<Rightarrow> wal_record" where
  "rec_commit txn =
     \<lparr>rec_lsn = 0, rec_timestamp_us = 0, rec_txn_id = txn, rec_sql = [], is_commit = True, is_rollback = False,
      rec_physical = None\<rparr>"

definition rec_rollback :: "u64 \<Rightarrow> wal_record" where
  "rec_rollback txn =
     \<lparr>rec_lsn = 0, rec_timestamp_us = 0, rec_txn_id = txn, rec_sql = [], is_commit = False, is_rollback = True,
      rec_physical = None\<rparr>"

definition rec_change :: "u64 \<Rightarrow> physical_change \<Rightarrow> wal_record" where
  "rec_change txn change =
     \<lparr>rec_lsn = 0, rec_timestamp_us = 0, rec_txn_id = txn, rec_sql = [], is_commit = False, is_rollback = False,
      rec_physical = Some change\<rparr>"

section \<open>The line of a record\<close>

record codec =
  b64_encode :: "bytes \<Rightarrow> bytes"
  b64_decode :: "bytes \<Rightarrow> bytes option"
  json_of_change :: "physical_change \<Rightarrow> bytes option"
  change_of_json :: "bytes \<Rightarrow> physical_change option"
  xxh3_64 :: "bytes \<Rightarrow> u64"

abbreviation pipe :: u8 where
  "pipe \<equiv> 124"

definition flag_bytes :: "bool \<Rightarrow> bytes" where
  "flag_bytes b = (if b then [49] else [48])"

text \<open>The \<open>data_line\<close> and the \<open>line\<close> of \<open>append\<close>, for the sequence number and time it assigns.\<close>

definition data_line :: "codec \<Rightarrow> u64 \<Rightarrow> u64 \<Rightarrow> wal_record \<Rightarrow> bytes" where
  "data_line C lsn time r =
     (let sql_b64 = b64_encode C (rec_sql r);
          physical_json = (case rec_physical r of
             Some change \<Rightarrow> (case json_of_change C change of Some js \<Rightarrow> js | None \<Rightarrow> [])
           | None \<Rightarrow> [])
      in show_u64 lsn @ pipe # show_u64 time @ pipe # show_u64 (rec_txn_id r) @ pipe # flag_bytes (is_commit r)
         @ pipe # flag_bytes (is_rollback r) @ pipe # sql_b64 @ pipe # physical_json)"

definition record_line :: "codec \<Rightarrow> u64 \<Rightarrow> u64 \<Rightarrow> wal_record \<Rightarrow> bytes" where
  "record_line C lsn time r =
     (let d = data_line C lsn time r in d @ pipe # show_hex16 (xxh3_64 C d) @ [10])"

definition decode_legacy_sql :: "bytes \<Rightarrow> bytes" where
  "decode_legacy_sql s = replace_all [92, 110] [10] (replace_all [92, 124] [124] s)"

definition decode_sql :: "codec \<Rightarrow> bytes \<Rightarrow> bytes" where
  "decode_sql C field =
     (case b64_decode C field of Some bs \<Rightarrow> utf8_lossy bs | None \<Rightarrow> decode_legacy_sql field)"

definition decode_change :: "codec \<Rightarrow> bytes \<Rightarrow> physical_change option" where
  "decode_change C field = (if field \<noteq> [] then change_of_json C field else None)"

definition parse_legacy_record :: "bytes \<Rightarrow> wal_record" where
  "parse_legacy_record line =
     (let parts = splitn 4 pipe line
      in \<lparr>rec_lsn = 0, rec_timestamp_us = 0, rec_txn_id = parse_u64_or_0 (parts ! 0),
          rec_sql = (case slice_get parts 3 of Some s \<Rightarrow> decode_legacy_sql s | None \<Rightarrow> []),
          is_commit = (case slice_get parts 1 of Some s \<Rightarrow> s = [49] | None \<Rightarrow> False),
          is_rollback = (case slice_get parts 2 of Some s \<Rightarrow> s = [49] | None \<Rightarrow> False),
          rec_physical = None\<rparr>)"

text \<open>The checksum field is split off if the last field looks like one.\<close>

definition split_checksum :: "bytes \<Rightarrow> bytes \<times> bytes option" where
  "split_checksum line =
     (case rsplit_once pipe line of
        Some (data, last_field) \<Rightarrow>
          (if length last_field = 16 \<and> list_all is_hex_digit last_field then (data, Some last_field) else (line, None))
      | None \<Rightarrow> (line, None))"

definition checksum_ok :: "codec \<Rightarrow> bytes \<times> bytes option \<Rightarrow> bool" where
  "checksum_ok C dc =
     (case snd dc of
        Some hex \<Rightarrow> (case from_str_radix 16 hex of Some w \<Rightarrow> w | None \<Rightarrow> 0) = xxh3_64 C (fst dc)
      | None \<Rightarrow> True)"

text \<open>The seven-field format, the six-field format without time, and the older formats.\<close>

definition parse_data_line :: "codec \<Rightarrow> bytes \<Rightarrow> wal_record" where
  "parse_data_line C line =
     (let parts7 = splitn 7 pipe line; parts6 = splitn 6 pipe line; parts5 = splitn 5 pipe line
      in if length parts7 = 7
         then \<lparr>rec_lsn = parse_u64_or_0 (parts7 ! 0), rec_timestamp_us = parse_u64_or_0 (parts7 ! 1),
               rec_txn_id = parse_u64_or_0 (parts7 ! 2), rec_sql = decode_sql C (parts7 ! 5),
               is_commit = (parts7 ! 3 = [49]), is_rollback = (parts7 ! 4 = [49]),
               rec_physical = decode_change C (parts7 ! 6)\<rparr>
         else if length parts6 = 6
         then \<lparr>rec_lsn = parse_u64_or_0 (parts6 ! 0), rec_timestamp_us = 0,
               rec_txn_id = parse_u64_or_0 (parts6 ! 1), rec_sql = decode_sql C (parts6 ! 4),
               is_commit = (parts6 ! 2 = [49]), is_rollback = (parts6 ! 3 = [49]),
               rec_physical = decode_change C (parts6 ! 5)\<rparr>
         else if length parts5 < 4 then parse_legacy_record line
         else \<lparr>rec_lsn = 0, rec_timestamp_us = 0,
               rec_txn_id = parse_u64_or_0 (parts5 ! 0), rec_sql = decode_sql C (parts5 ! 3),
               is_commit = (parts5 ! 1 = [49]), is_rollback = (parts5 ! 2 = [49]),
               rec_physical = (if 5 \<le> length parts5 then decode_change C (parts5 ! 4) else None)\<rparr>)"

text \<open>One line of \<open>read_all\<close>: blank lines and lines with a wrong checksum give no record.\<close>

definition parse_line :: "codec \<Rightarrow> bytes \<Rightarrow> wal_record option" where
  "parse_line C line =
     (if is_blank line then None
      else let dc = split_checksum line
           in if checksum_ok C dc then Some (parse_data_line C (fst dc)) else None)"

section \<open>The log directory\<close>

record seg_file =
  file_data :: bytes
  synced_len :: nat

record log_dir =
  dir_present :: bool
  dir_files :: "(bytes, seg_file) hash_map"
  dir_outcomes :: "io_outcome list"
  dir_clock :: "u64 list"

datatype wal_error = Wal_Os_Error | Wal_Not_Found | Wal_Invalid_Utf8 | Wal_Replication bytes

type_synonym 'a dir_op = "(wal_error, log_dir, 'a) fallible"

definition dir_call :: "io_outcome dir_op" where
  "dir_call d = (case next_outcome (dir_outcomes d) of (oc, rest) \<Rightarrow> (Inr oc, d\<lparr>dir_outcomes := rest\<rparr>))"

definition dir_call_ok :: "unit dir_op" where
  "dir_call_ok = io_bind dir_call (\<lambda>oc. case oc of Io_Ok \<Rightarrow> io_return () | Io_Fails _ \<Rightarrow> io_fail Wal_Os_Error)"

definition segment_path :: "u64 \<Rightarrow> bytes" where
  "segment_path n = ascii ''wal-'' @ show_u64 n @ ascii ''.log''"

definition parse_segment_name :: "bytes \<Rightarrow> u64 option" where
  "parse_segment_name name =
     (let s = utf8_lossy name
      in if take 4 s = ascii ''wal-''
         then let r = drop 4 s
              in if 4 \<le> length r \<and> drop (length r - 4) r = ascii ''.log'' then parse_u64 (take (length r - 4) r) else None
         else None)"

text \<open>\<open>dir.exists()\<close> is false when the call fails; every directory entry is one call.\<close>

primrec read_entries :: "bytes list \<Rightarrow> u64 list \<Rightarrow> u64 list dir_op" where
  "read_entries [] segs = io_return segs"
| "read_entries (name # names) segs =
     io_bind dir_call_ok (\<lambda>_.
       read_entries names (case parse_segment_name name of Some n \<Rightarrow> segs @ [n] | None \<Rightarrow> segs))"

definition list_segments :: "u64 list dir_op" where
  "list_segments =
     io_bind dir_call (\<lambda>oc d.
       if oc \<noteq> Io_Ok \<or> \<not> dir_present d then (Inr [], d)
       else io_bind dir_call_ok (\<lambda>_.
            io_bind (\<lambda>d. read_entries (map fst (dir_files d)) [] d) (\<lambda>segs. io_return (sort segs))) d)"

definition scan_max_segment :: "u64 dir_op" where
  "scan_max_segment = io_bind list_segments (\<lambda>segs. io_return (if segs = [] then 0 else Max (set segs)))"

text \<open>Opening a segment for appending creates it; opening it for reading does not.\<close>

definition open_segment :: "u64 \<Rightarrow> unit dir_op" where
  "open_segment n =
     io_bind dir_call_ok (\<lambda>_ d.
       case hm_get (dir_files d) (segment_path n) of
         Some _ \<Rightarrow> (Inr (), d)
       | None \<Rightarrow> (Inr (), d\<lparr>dir_files := hm_insert (dir_files d) (segment_path n) \<lparr>file_data = [], synced_len = 0\<rparr>\<rparr>))"

definition read_segment :: "u64 \<Rightarrow> bytes dir_op" where
  "read_segment n =
     io_bind dir_call_ok (\<lambda>_ d.
       case hm_get (dir_files d) (segment_path n) of
         None \<Rightarrow> (Inl Wal_Not_Found, d)
       | Some f \<Rightarrow> io_bind dir_call_ok (\<lambda>_. io_return (file_data f)) d)"

definition remove_segment :: "u64 \<Rightarrow> unit dir_op" where
  "remove_segment n =
     io_bind dir_call_ok (\<lambda>_ d.
       case hm_get (dir_files d) (segment_path n) of
         None \<Rightarrow> (Inl Wal_Not_Found, d)
       | Some _ \<Rightarrow> (Inr (), d\<lparr>dir_files := hm_remove (dir_files d) (segment_path n)\<rparr>))"

definition segment_file :: "log_dir \<Rightarrow> u64 \<Rightarrow> seg_file" where
  "segment_file d n =
     (case hm_get (dir_files d) (segment_path n) of Some f \<Rightarrow> f | None \<Rightarrow> \<lparr>file_data = [], synced_len = 0\<rparr>)"

definition put_segment :: "u64 \<Rightarrow> seg_file \<Rightarrow> log_dir \<Rightarrow> log_dir" where
  "put_segment n f d = d\<lparr>dir_files := hm_insert (dir_files d) (segment_path n) f\<rparr>"

text \<open>\<open>write_all\<close> on a handle opened for appending, \<open>sync_all\<close>, and \<open>metadata().len()\<close>.\<close>

definition append_bytes :: "u64 \<Rightarrow> bytes \<Rightarrow> unit dir_op" where
  "append_bytes n bs =
     io_bind dir_call (\<lambda>oc d.
       let f = segment_file d n
       in case oc of
            Io_Ok \<Rightarrow> (Inr (), put_segment n (f\<lparr>file_data := file_data f @ bs\<rparr>) d)
          | Io_Fails k \<Rightarrow> (Inl Wal_Os_Error, put_segment n (f\<lparr>file_data := file_data f @ take k bs\<rparr>) d))"

definition sync_segment :: "u64 \<Rightarrow> unit dir_op" where
  "sync_segment n =
     io_bind dir_call_ok (\<lambda>_ d.
       let f = segment_file d n in (Inr (), put_segment n (f\<lparr>synced_len := length (file_data f)\<rparr>) d))"

definition segment_size :: "u64 \<Rightarrow> nat dir_op" where
  "segment_size n = io_bind dir_call_ok (\<lambda>_ d. (Inr (length (file_data (segment_file d n))), d))"

text \<open>\<open>SystemTime::now()\<close> in microseconds: the next reading of the clock. The code uses 0 for a clock that is
  set before the epoch, and so does the model, for which every reading beyond the given ones is such a one.\<close>

definition now_us :: "u64 dir_op" where
  "now_us d = (case dir_clock d of [] \<Rightarrow> (Inr 0, d) | t # ts \<Rightarrow> (Inr t, d\<lparr>dir_clock := ts\<rparr>))"

section \<open>Reading\<close>

fun read_lines :: "codec \<Rightarrow> bytes list \<Rightarrow> wal_error + wal_record list" where
  "read_lines C [] = Inr []"
| "read_lines C (line # rest) =
     (if \<not> utf8_ok line then Inl Wal_Invalid_Utf8
      else case read_lines C rest of
             Inl e \<Rightarrow> Inl e
           | Inr rs \<Rightarrow> Inr ((case parse_line C line of Some r \<Rightarrow> [r] | None \<Rightarrow> []) @ rs))"

primrec read_segments :: "codec \<Rightarrow> u64 list \<Rightarrow> wal_record list \<Rightarrow> wal_record list dir_op" where
  "read_segments C [] records = io_return records"
| "read_segments C (seg # segs) records =
     io_bind (read_segment seg) (\<lambda>bs.
       case read_lines C (split_lines bs) of
         Inl e \<Rightarrow> io_fail e
       | Inr rs \<Rightarrow> read_segments C segs (records @ rs))"

definition read_all :: "codec \<Rightarrow> wal_record list dir_op" where
  "read_all C = io_bind list_segments (\<lambda>segs. read_segments C segs [])"

section \<open>The log\<close>

datatype sync_mode = Asynchronous | Synchronous

text \<open>The open log. \<open>wal_file\<close> is the segment the handle was opened on. A sink is attached with the flag
  of its mutex being poisoned; \<open>wal_net\<close> is the state of the replicas and of the Raft cluster.\<close>

record 'x wal =
  current_segment :: u64
  wal_file :: "u64 option"
  next_lsn :: u64
  segment_limit :: u64
  last_synced_lsn :: u64
  stream_sink :: "bool option"
  wal_sync_mode :: sync_mode
  raft_handle :: bool
  wal_dir :: log_dir
  wal_net :: 'x

type_synonym ('x, 'a) wal_op = "(wal_error, 'x wal, 'a) fallible"

record 'x peers =
  raft_propose :: "wal_record \<Rightarrow> 'x \<Rightarrow> (bytes + unit) \<times> 'x"
  sink_stream :: "wal_record \<Rightarrow> 'x \<Rightarrow> (bytes + unit) \<times> 'x"
  sink_sync_wait :: "'x \<Rightarrow> (bytes + unit) \<times> 'x"

definition on_dir :: "'a dir_op \<Rightarrow> ('x, 'a) wal_op" where
  "on_dir m W = (case m (wal_dir W) of (r, d) \<Rightarrow> (r, W\<lparr>wal_dir := d\<rparr>))"

definition on_net :: "('x \<Rightarrow> (bytes + 'a) \<times> 'x) \<Rightarrow> 'x wal \<Rightarrow> (bytes + 'a) \<times> 'x wal" where
  "on_net m W = (case m (wal_net W) of (r, x) \<Rightarrow> (r, W\<lparr>wal_net := x\<rparr>))"

definition wal_of :: "u64 \<Rightarrow> u64 \<Rightarrow> log_dir \<Rightarrow> 'x \<Rightarrow> 'x wal" where
  "wal_of seg limit d x =
     \<lparr>current_segment = seg, wal_file = Some seg, next_lsn = 1, segment_limit = limit, last_synced_lsn = 0,
      stream_sink = None, wal_sync_mode = Asynchronous, raft_handle = False, wal_dir = d, wal_net = x\<rparr>"

definition max_lsn :: "wal_record list \<Rightarrow> u64" where
  "max_lsn rs = (if rs = [] then 0 else Max (rec_lsn ` set rs))"

text \<open>\<open>open_with_segment_limit\<close>: \<open>create_dir_all\<close>, the newest segment, then the highest sequence number.
  A log that cannot be read leaves the counter at 1.\<close>

definition open_with_segment_limit :: "codec \<Rightarrow> u64 \<Rightarrow> 'x \<Rightarrow> 'x wal dir_op" where
  "open_with_segment_limit C limit x =
     io_bind dir_call_ok (\<lambda>_.
     io_bind (\<lambda>d. (Inr (), d\<lparr>dir_present := True\<rparr>)) (\<lambda>_.
     io_bind scan_max_segment (\<lambda>seg.
     io_bind (open_segment seg) (\<lambda>_ d.
       case read_all C d of
         (Inl _, d') \<Rightarrow> (Inr (wal_of seg limit d' x), d')
       | (Inr records, d') \<Rightarrow> (Inr ((wal_of seg limit d' x)\<lparr>next_lsn := max_lsn records + 1\<rparr>), d')))))"

definition DEFAULT_SEGMENT_LIMIT :: u64 where
  "DEFAULT_SEGMENT_LIMIT = 64 * 1024 * 1024"

definition wal_open :: "codec \<Rightarrow> 'x \<Rightarrow> 'x wal dir_op" where
  "wal_open C = open_with_segment_limit C DEFAULT_SEGMENT_LIMIT"

text \<open>\<open>saturating_sub\<close> and \<open>saturating_add\<close>\<close>

definition current_lsn :: "'x wal \<Rightarrow> u64" where
  "current_lsn W = (if next_lsn W = 0 then 0 else next_lsn W - 1)"

definition advance_lsn_to :: "u64 \<Rightarrow> 'x wal \<Rightarrow> 'x wal" where
  "advance_lsn_to lsn W =
     (let needed = (if lsn = - 1 then - 1 else lsn + 1)
      in if next_lsn W < needed then W\<lparr>next_lsn := needed\<rparr> else W)"

definition maybe_rotate :: "('x, unit) wal_op" where
  "maybe_rotate W =
     (case wal_file W of
        None \<Rightarrow> (Inr (), W)
      | Some n \<Rightarrow>
          io_bind (on_dir (segment_size n)) (\<lambda>size W.
            if unat (segment_limit W) \<le> size
            then let W1 = W\<lparr>current_segment := current_segment W + 1\<rparr>
                 in io_bind (on_dir (open_segment (current_segment W1))) (\<lambda>_ W2.
                      (Inr (), W2\<lparr>wal_file := Some (current_segment W2)\<rparr>)) W1
            else (Inr (), W)) W)"

definition wal_append :: "codec \<Rightarrow> wal_record \<Rightarrow> ('x, unit) wal_op" where
  "wal_append C r =
     io_bind maybe_rotate (\<lambda>_ W.
       case wal_file W of
         None \<Rightarrow> (Inr (), W)
       | Some n \<Rightarrow>
           let lsn = next_lsn W
           in io_bind (on_dir now_us) (\<lambda>time.
                on_dir (append_bytes n (record_line C lsn time r))) (W\<lparr>next_lsn := next_lsn W + 1\<rparr>))"

definition wal_sync :: "('x, unit) wal_op" where
  "wal_sync W =
     io_bind (case wal_file W of Some n \<Rightarrow> on_dir (sync_segment n) | None \<Rightarrow> io_return ()) (\<lambda>_ W.
       (Inr (), W\<lparr>last_synced_lsn := current_lsn W\<rparr>)) W"

text \<open>Streaming to the replica: in synchronous mode its errors fail the call.\<close>

definition stream_to_replica :: "'x peers \<Rightarrow> wal_record \<Rightarrow> ('x, unit) wal_op" where
  "stream_to_replica X r W =
     (case stream_sink W of
        Some False \<Rightarrow>
          (case on_net (sink_stream X r) W of
             (Inr _, W1) \<Rightarrow>
               (if wal_sync_mode W1 = Synchronous
                then (case on_net (sink_sync_wait X) W1 of
                        (Inr _, W2) \<Rightarrow> (Inr (), W2)
                      | (Inl e, W2) \<Rightarrow> (Inl (Wal_Replication (ascii ''replication sync_wait failed: '' @ e)), W2))
                else (Inr (), W1))
           | (Inl e, W1) \<Rightarrow>
               (if wal_sync_mode W1 = Synchronous
                then (Inl (Wal_Replication (ascii ''replication stream failed: '' @ e)), W1)
                else (Inr (), W1)))
      | _ \<Rightarrow> (Inr (), W))"

definition propose_to_raft :: "'x peers \<Rightarrow> wal_record \<Rightarrow> ('x, unit) wal_op" where
  "propose_to_raft X r W =
     (if raft_handle W
      then (case on_net (raft_propose X r) W of
              (Inr _, W1) \<Rightarrow> (Inr (), W1)
            | (Inl e, W1) \<Rightarrow> (Inl (Wal_Replication e), W1))
      else (Inr (), W))"

definition append_and_sync :: "codec \<Rightarrow> 'x peers \<Rightarrow> wal_record \<Rightarrow> ('x, unit) wal_op" where
  "append_and_sync C X r =
     io_bind (propose_to_raft X r) (\<lambda>_.
     io_bind (wal_append C r) (\<lambda>_.
     io_bind wal_sync (\<lambda>_ W.
       stream_to_replica X (r\<lparr>rec_lsn := current_lsn W\<rparr>) W)))"

definition append_async :: "codec \<Rightarrow> wal_record \<Rightarrow> ('x, u64) wal_op" where
  "append_async C r = io_bind (wal_append C r) (\<lambda>_ W. (Inr (current_lsn W), W))"

definition sync_to_lsn :: "u64 \<Rightarrow> ('x, unit) wal_op" where
  "sync_to_lsn lsn W =
     (if last_synced_lsn W < lsn
      then io_bind (case wal_file W of Some n \<Rightarrow> on_dir (sync_segment n) | None \<Rightarrow> io_return ()) (\<lambda>_ W.
             (Inr (), W\<lparr>last_synced_lsn := lsn\<rparr>)) W
      else (Inr (), W))"

definition flush_group :: "u64 list \<Rightarrow> ('x, unit) wal_op" where
  "flush_group lsns = sync_to_lsn (if lsns = [] then 0 else Max (set lsns))"

definition wal_truncate :: "('x, unit) wal_op" where
  "wal_truncate W =
     io_bind (on_dir (io_bind list_segments (io_each remove_segment))) (\<lambda>_ W.
       io_bind (on_dir (open_segment 0)) (\<lambda>_ W. (Inr (), W\<lparr>wal_file := Some 0\<rparr>)) (W\<lparr>current_segment := 0\<rparr>))
       (W\<lparr>wal_file := None\<rparr>)"

definition wal_close :: "'x wal \<Rightarrow> 'x wal" where
  "wal_close W = W\<lparr>wal_file := None\<rparr>"

definition segment_count :: "('x, nat) wal_op" where
  "segment_count = io_bind (on_dir list_segments) (\<lambda>segs. io_return (length segs))"

definition set_stream_sink :: "bool \<Rightarrow> 'x wal \<Rightarrow> 'x wal" where
  "set_stream_sink poisoned W = W\<lparr>stream_sink := Some poisoned\<rparr>"

definition clear_stream_sink :: "'x wal \<Rightarrow> 'x wal" where
  "clear_stream_sink W = W\<lparr>stream_sink := None\<rparr>"

definition set_sync_mode :: "sync_mode \<Rightarrow> 'x wal \<Rightarrow> 'x wal" where
  "set_sync_mode mode W = W\<lparr>wal_sync_mode := mode\<rparr>"

definition set_raft_handle :: "'x wal \<Rightarrow> 'x wal" where
  "set_raft_handle W = W\<lparr>raft_handle := True\<rparr>"

definition clear_raft_handle :: "'x wal \<Rightarrow> 'x wal" where
  "clear_raft_handle W = W\<lparr>raft_handle := False\<rparr>"

section \<open>Lines and records\<close>

text \<open>What is used of the codecs: decoding reverses encoding, Base64 has its alphabet, and the JSON of a
  change is one line of printable ASCII.\<close>

definition b64_char :: "u8 \<Rightarrow> bool" where
  "b64_char b \<longleftrightarrow> in_range 65 90 b \<or> in_range 97 122 b \<or> in_range 48 57 b \<or> b = 43 \<or> b = 47 \<or> b = 61"

definition printable :: "bytes \<Rightarrow> bool" where
  "printable bs \<longleftrightarrow> list_all (in_range 0x20 0x7E) bs"

definition codec_ok :: "codec \<Rightarrow> bool" where
  "codec_ok C \<longleftrightarrow>
     (\<forall>bs. b64_decode C (b64_encode C bs) = Some bs \<and> list_all b64_char (b64_encode C bs))
     \<and> (\<forall>c. \<exists>js. json_of_change C c = Some js \<and> js \<noteq> [] \<and> printable js \<and> change_of_json C js = Some c)"

text \<open>The line of a record that carries its sequence number and time, without the newline and with it.\<close>

definition line_body :: "codec \<Rightarrow> wal_record \<Rightarrow> bytes" where
  "line_body C r =
     (let d = data_line C (rec_lsn r) (rec_timestamp_us r) r in d @ pipe # show_hex16 (xxh3_64 C d))"

definition stored_line :: "codec \<Rightarrow> wal_record \<Rightarrow> bytes" where
  "stored_line C r = line_body C r @ [10]"

definition stored :: "u64 \<Rightarrow> u64 \<Rightarrow> wal_record \<Rightarrow> wal_record" where
  "stored lsn time r = r\<lparr>rec_lsn := lsn, rec_timestamp_us := time\<rparr>"

lemma record_line_stored: "record_line C lsn time r = stored_line C (stored lsn time r)"
  by (simp add: record_line_def stored_line_def line_body_def stored_def data_line_def Let_def)

lemma printable_simps [simp]:
  "printable []" "printable (b # bs) \<longleftrightarrow> in_range 0x20 0x7E b \<and> printable bs"
  "printable (as @ bs) \<longleftrightarrow> printable as \<and> printable bs"
  by (simp_all add: printable_def)

lemma printable_ascii: "printable bs \<Longrightarrow> is_ascii bs"
  by (force simp: printable_def is_ascii_def list_all_iff in_range_def word_le_nat_alt word_less_nat_alt)

lemma printable_no_newline: "printable bs \<Longrightarrow> 10 \<notin> set bs \<and> 13 \<notin> set bs"
  by (auto simp: printable_def list_all_iff in_range_def)

lemma split_printable_line: "printable l \<Longrightarrow> split_lines (l @ 10 # rest) = l # split_lines rest"
  using printable_no_newline [of l] by (auto simp: split_lines_line strip_cr_def) (metis last_in_set)

lemma printable_prefix: "printable bs \<Longrightarrow> printable (take k bs)"
  by (auto simp: printable_def list_all_iff dest: in_set_takeD)

lemma printable_by: "(\<And>b. b \<in> set bs \<Longrightarrow> in_range 0x20 0x7E b) \<Longrightarrow> printable bs"
  by (simp add: printable_def list_all_iff)

lemma b64_char_range: "b64_char b \<Longrightarrow> in_range 0x20 0x7E b \<and> b \<noteq> pipe"
  by (auto simp: b64_char_def in_range_def word_le_nat_alt)

lemma field_printable: "printable (show_u64 w)" "printable (show_hex16 w)" "printable (flag_bytes f)"
  by (auto intro!: printable_by dest!: show_u64_digits show_hex16_digits
      simp: is_hex_digit_def flag_bytes_def in_range_def word_le_nat_alt split: if_splits)

lemma field_no_pipe: "pipe \<notin> set (show_u64 w)" "pipe \<notin> set (show_hex16 w)" "pipe \<notin> set (flag_bytes f)"
  using show_u64_digits [of pipe w] show_hex16_digits [of pipe w]
  by (auto simp: in_range_def is_hex_digit_def flag_bytes_def)

lemma splitn_seven:
  assumes "\<forall>x \<in> {a, b, c, d, e, f}. pipe \<notin> set x"
  shows "splitn 7 pipe (a @ pipe # b @ pipe # c @ pipe # d @ pipe # e @ pipe # f @ pipe # g) = [a, b, c, d, e, f, g]"
  using assms by (simp add: numeral_eq_Suc splitn_field del: splitn.simps(3))

definition change_json :: "codec \<Rightarrow> wal_record \<Rightarrow> bytes" where
  "change_json C r = (case rec_physical r of
     Some change \<Rightarrow> (case json_of_change C change of Some js \<Rightarrow> js | None \<Rightarrow> [])
   | None \<Rightarrow> [])"

lemma change_json_ok:
  assumes "codec_ok C"
  shows "printable (change_json C r)" "decode_change C (change_json C r) = rec_physical r"
proof -
  have "printable (change_json C r) \<and> decode_change C (change_json C r) = rec_physical r"
  proof (cases "rec_physical r")
    case (Some c)
    obtain js where "json_of_change C c = Some js" "js \<noteq> []" "printable js" "change_of_json C js = Some c"
      using assms unfolding codec_ok_def by blast
    then show ?thesis
      using Some by (simp add: change_json_def decode_change_def)
  qed (simp add: change_json_def decode_change_def)
  then show "printable (change_json C r)" "decode_change C (change_json C r) = rec_physical r" by auto
qed

lemma b64_encode_ok:
  assumes "codec_ok C"
  shows "printable (b64_encode C bs)" "pipe \<notin> set (b64_encode C bs)" "utf8_ok bs \<Longrightarrow> decode_sql C (b64_encode C bs) = bs"
proof -
  have chars: "b64_char b" if "b \<in> set (b64_encode C bs)" for b
    using assms that by (auto simp: codec_ok_def list_all_iff)
  show "printable (b64_encode C bs)"
    using chars b64_char_range by (auto intro!: printable_by)
  show "pipe \<notin> set (b64_encode C bs)"
    using chars b64_char_range by blast
  show "decode_sql C (b64_encode C bs) = bs" if "utf8_ok bs"
    using assms that by (simp add: codec_ok_def decode_sql_def utf8_lossy_ok)
qed

lemma data_line_eq: "data_line C lsn time r =
    show_u64 lsn @ pipe # show_u64 time @ pipe # show_u64 (rec_txn_id r) @ pipe # flag_bytes (is_commit r)
      @ pipe # flag_bytes (is_rollback r) @ pipe # b64_encode C (rec_sql r) @ pipe # change_json C r"
  by (simp add: data_line_def change_json_def Let_def)

lemma pipe_printable [simp]: "in_range 0x20 0x7E pipe"
  by (simp add: in_range_def)

lemma line_body_printable: "codec_ok C \<Longrightarrow> printable (line_body C r)"
  by (simp add: line_body_def Let_def data_line_eq field_printable b64_encode_ok change_json_ok)

lemma parse_data_line_ok:
  assumes "codec_ok C" "utf8_ok (rec_sql r)"
  shows "parse_data_line C (data_line C (rec_lsn r) (rec_timestamp_us r) r) = r"
proof -
  have flag: "flag_bytes b = [49] \<longleftrightarrow> b" for b
    by (simp add: flag_bytes_def)
  have num: "parse_u64_or_0 (show_u64 w) = w" for w
    by (simp add: parse_u64_or_0_def parse_show_u64)
  have seven: "splitn 7 pipe (data_line C (rec_lsn r) (rec_timestamp_us r) r) =
      [show_u64 (rec_lsn r), show_u64 (rec_timestamp_us r), show_u64 (rec_txn_id r), flag_bytes (is_commit r),
       flag_bytes (is_rollback r), b64_encode C (rec_sql r), change_json C r]"
    unfolding data_line_eq by (rule splitn_seven) (simp add: field_no_pipe b64_encode_ok assms)
  show ?thesis
    unfolding parse_data_line_def Let_def seven using assms
    by (simp add: flag num b64_encode_ok change_json_ok nth_Cons_numeral)
qed

lemma parse_line_body:
  assumes "codec_ok C" "utf8_ok (rec_sql r)"
  shows "parse_line C (line_body C r) = Some r"
proof -
  let ?d = "data_line C (rec_lsn r) (rec_timestamp_us r) r"
  have body: "line_body C r = ?d @ pipe # show_hex16 (xxh3_64 C ?d)"
    by (simp add: line_body_def Let_def)
  have "list_all is_hex_digit (show_hex16 w)" for w
    by (simp add: list_all_iff show_hex16_digits)
  then have "split_checksum (line_body C r) = (?d, Some (show_hex16 (xxh3_64 C ?d)))"
    unfolding body split_checksum_def by (simp add: rsplit_once_field field_no_pipe)
  moreover have "\<not> is_blank (line_body C r)"
  proof -
    have "show_u64 (rec_lsn r) \<noteq> []"
      by (simp add: show_u64_def show_nat_ne)
    then obtain b bs where b: "show_u64 (rec_lsn r) = b # bs"
      by (cases "show_u64 (rec_lsn r)") auto
    then have "in_range 48 57 b"
      using show_u64_digits [of b "rec_lsn r"] by simp
    then have "\<not> (in_range 9 13 b \<or> b = 32)"
      by (auto simp: in_range_def word_le_nat_alt)
    then show ?thesis
      using printable_ascii [OF line_body_printable [OF assms(1), of r]]
      by (simp add: is_blank_ascii body data_line_eq b)
  qed
  ultimately show ?thesis
    using assms by (simp add: parse_line_def checksum_ok_def parse_show_hex16 parse_data_line_ok)
qed

text \<open>The records of a byte string made of complete lines and an unfinished last line.\<close>

definition torn_records :: "codec \<Rightarrow> bytes \<Rightarrow> wal_record list" where
  "torn_records C t = (if t = [] then [] else case parse_line C t of Some r \<Rightarrow> [r] | None \<Rightarrow> [])"

definition lines_of :: "codec \<Rightarrow> wal_record list \<Rightarrow> bytes" where
  "lines_of C rs = concat (map (stored_line C) rs)"

lemma lines_of_simps [simp]:
  "lines_of C [] = []" "lines_of C (r # rs) = stored_line C r @ lines_of C rs"
  "lines_of C (rs @ rs') = lines_of C rs @ lines_of C rs'"
  by (simp_all add: lines_of_def)

definition rec_ok :: "wal_record \<Rightarrow> bool" where
  "rec_ok r \<longleftrightarrow> utf8_ok (rec_sql r)"

lemma read_lines_prefix:
  assumes "codec_ok C" "list_all rec_ok rs"
  shows "read_lines C (split_lines (lines_of C rs @ bs)) =
    (case read_lines C (split_lines bs) of Inl e \<Rightarrow> Inl e | Inr xs \<Rightarrow> Inr (rs @ xs))"
  using assms(2)
proof (induction rs)
  case Nil
  then show ?case by (simp split: sum.split)
next
  case (Cons r rs)
  have p: "printable (line_body C r)"
    by (rule line_body_printable [OF assms(1)])
  then have "split_lines (lines_of C (r # rs) @ bs) = line_body C r # split_lines (lines_of C rs @ bs)"
    by (simp add: stored_line_def split_printable_line)
  then show ?case
    using Cons ascii_utf8_ok [OF printable_ascii [OF p]] parse_line_body [OF assms(1), of r]
    by (simp add: rec_ok_def split: sum.split)
qed

lemma read_lines_torn:
  assumes "printable t"
  shows "read_lines C (split_lines t) = Inr (torn_records C t)"
  using assms printable_no_newline [OF assms] ascii_utf8_ok [OF printable_ascii [OF assms]]
  by (cases "t = []") (simp_all add: split_lines_torn torn_records_def)

lemma read_lines_ok:
  assumes "codec_ok C" "list_all rec_ok rs" "printable t"
  shows "read_lines C (split_lines (lines_of C rs @ t)) = Inr (rs @ torn_records C t)"
  using assms by (simp add: read_lines_prefix read_lines_torn)

section \<open>The directory as a sequence of segments\<close>

text \<open>A segment: its number, the records of its complete lines, the bytes of an unfinished line, and how
  many bytes are durable.\<close>

record aseg =
  seg_no :: u64
  seg_recs :: "wal_record list"
  seg_tail :: bytes
  seg_synced :: nat

definition seg_bytes :: "codec \<Rightarrow> aseg \<Rightarrow> bytes" where
  "seg_bytes C s = lines_of C (seg_recs s) @ seg_tail s"

definition seg_in :: "codec \<Rightarrow> log_dir \<Rightarrow> aseg \<Rightarrow> bool" where
  "seg_in C d s \<longleftrightarrow>
     hm_get (dir_files d) (segment_path (seg_no s)) = Some \<lparr>file_data = seg_bytes C s, synced_len = seg_synced s\<rparr>
     \<and> list_all rec_ok (seg_recs s) \<and> printable (seg_tail s)"

definition names_ok :: "u64 set \<Rightarrow> log_dir \<Rightarrow> bool" where
  "names_ok ns d \<longleftrightarrow>
     (\<forall>name n. hm_get (dir_files d) name \<noteq> None \<longrightarrow> parse_segment_name name = Some n
        \<longrightarrow> n \<in> ns \<and> name = segment_path n)"

definition dir_rep :: "codec \<Rightarrow> aseg list \<Rightarrow> log_dir \<Rightarrow> bool" where
  "dir_rep C segs d \<longleftrightarrow>
     dir_present d \<and> hm_ok (dir_files d) \<and> sorted_wrt (<) (map seg_no segs) \<and> (\<forall>s \<in> set segs. seg_in C d s)
     \<and> names_ok (seg_no ` set segs) d"

definition log_of :: "codec \<Rightarrow> aseg list \<Rightarrow> wal_record list" where
  "log_of C segs = concat (map (\<lambda>s. seg_recs s @ torn_records C (seg_tail s)) segs)"

lemma parse_segment_path: "parse_segment_name (segment_path n) = Some n"
proof -
  have dots: "ascii ''wal-'' = [119, 97, 108, 45]" "ascii ''.log'' = [46, 108, 111, 103]"
    by (simp_all add: of_char_def)
  have "printable (segment_path n)"
    by (simp add: segment_path_def dots field_printable in_range_def)
  then have "utf8_lossy (segment_path n) = segment_path n"
    by (simp add: utf8_lossy_ok ascii_utf8_ok printable_ascii)
  then show ?thesis
    by (simp add: parse_segment_name_def segment_path_def dots parse_show_u64)
qed

lemma segment_path_inj [simp]: "segment_path m = segment_path n \<longleftrightarrow> m = n"
  using parse_segment_path by (metis option.inject)

definition same_log :: "log_dir \<Rightarrow> log_dir \<Rightarrow> bool" where
  "same_log d d' \<longleftrightarrow> dir_files d' = dir_files d \<and> dir_present d' = dir_present d"

lemma same_log_refl [simp]: "same_log d d"
  by (simp add: same_log_def)

lemma same_log_trans: "same_log d d1 \<Longrightarrow> same_log d1 d2 \<Longrightarrow> same_log d d2"
  by (simp add: same_log_def)

lemma dir_rep_same: "same_log d d' \<Longrightarrow> dir_rep C segs d' = dir_rep C segs d"
  by (simp add: same_log_def dir_rep_def seg_in_def names_ok_def)

lemma segment_file_same: "same_log d d' \<Longrightarrow> segment_file d' = segment_file d"
  by (simp add: same_log_def segment_file_def fun_eq_iff)

lemma dir_call_same: "dir_call d = (r, d') \<Longrightarrow> same_log d d'"
  by (auto simp: dir_call_def same_log_def split: prod.splits)

lemma dir_call_ok_same: "dir_call_ok d = (r, d') \<Longrightarrow> same_log d d'"
  unfolding dir_call_ok_def by (erule io_bind_cases) (auto dest: dir_call_same split: io_outcome.splits)

lemma now_us_same: "now_us d = (r, d') \<Longrightarrow> same_log d d' \<and> (\<exists>t. r = Inr t)"
  by (auto simp: now_us_def same_log_def split: list.splits)

text \<open>Without failing calls, the calls change nothing but what they are for.\<close>

definition calm :: "log_dir \<Rightarrow> bool" where
  "calm d \<longleftrightarrow> dir_outcomes d = []"

lemma calm_call: "calm d \<Longrightarrow> dir_call d = (Inr Io_Ok, d)" "calm d \<Longrightarrow> dir_call_ok d = (Inr (), d)"
  by (simp_all add: calm_def dir_call_def dir_call_ok_def io_bind_def)

lemma read_entries_calm:
  "calm d \<Longrightarrow> read_entries names segs d = (Inr (segs @ List.map_filter parse_segment_name names), d)"
  by (induction names arbitrary: segs) (simp_all add: calm_call List.map_filter_simps split: option.split)

definition dir_names :: "u64 list \<Rightarrow> log_dir \<Rightarrow> bool" where
  "dir_names ns d \<longleftrightarrow>
     dir_present d \<and> hm_ok (dir_files d) \<and> sorted_wrt (<) ns \<and> names_ok (set ns) d
     \<and> (\<forall>n \<in> set ns. hm_get (dir_files d) (segment_path n) \<noteq> None)"

lemma dir_rep_names: "dir_rep C segs d \<Longrightarrow> dir_names (map seg_no segs) d"
  by (auto simp: dir_rep_def dir_names_def seg_in_def)

lemma dir_names_numbers:
  assumes "dir_names ns d"
  shows "sort (List.map_filter parse_segment_name (map fst (dir_files d))) = ns"
proof (rule sorted_distinct_set_unique)
  let ?names = "map fst (dir_files d)" and ?ps = "List.map_filter parse_segment_name (map fst (dir_files d))"
  have present: "name \<in> set ?names \<longleftrightarrow> hm_get (dir_files d) name \<noteq> None" for name
    by (simp add: hm_get_def map_of_eq_None_iff)
  have name: "name = segment_path n \<and> n \<in> set ns"
    if "name \<in> set ?names" "parse_segment_name name = Some n" for name n
    using assms that unfolding dir_names_def names_ok_def present by blast
  have "distinct ?names"
    using assms by (simp add: dir_names_def hm_ok_def)
  then have "distinct (List.map_filter parse_segment_name names)" if "set names \<subseteq> set ?names" "distinct names" for names
    using that(2,1)
  proof (induction names)
    case (Cons x xs)
    have "y \<notin> set (List.map_filter parse_segment_name xs)" if y: "parse_segment_name x = Some y" for y
    proof
      assume "y \<in> set (List.map_filter parse_segment_name xs)"
      then obtain x' where "x' \<in> set xs" "parse_segment_name x' = Some y"
        by (auto simp: List.map_filter_def)
      then show False
        using name [of x y] name [of x' y] Cons.prems y by (metis distinct.simps(2) list.set_intros subsetD)
    qed
    then show ?case
      using Cons by (auto simp: List.map_filter_simps split: option.split)
  qed (simp add: List.map_filter_simps)
  then show "distinct (sort ?ps)"
    using \<open>distinct ?names\<close> by simp
  have "n \<in> set ?ps" if "n \<in> set ns" for n
  proof -
    have "segment_path n \<in> set ?names"
      using assms that unfolding dir_names_def present by blast
    then show ?thesis
      using parse_segment_path [of n] by (force simp: List.map_filter_def)
  qed
  moreover have "n \<in> set ns" if "n \<in> set ?ps" for n
    using that name by (fastforce simp: List.map_filter_def)
  ultimately show "set (sort ?ps) = set ns"
    by auto
  show "sorted ns" "distinct ns"
    using assms by (simp_all add: dir_names_def strict_sorted_iff)
qed simp

lemma list_segments_names:
  assumes "dir_names ns d" "calm d"
  shows "list_segments d = (Inr ns, d)"
  using assms dir_names_numbers [OF assms(1)]
  by (simp add: list_segments_def calm_call read_entries_calm dir_names_def)

lemmas list_segments_calm = list_segments_names [OF dir_rep_names]

lemma read_segments_calm:
  assumes "codec_ok C" "calm d" "\<forall>s \<in> set segs. seg_in C d s"
  shows "read_segments C (map seg_no segs) rs d = (Inr (rs @ log_of C segs), d)"
  using assms(3)
proof (induction segs arbitrary: rs)
  case (Cons s segs)
  have "read_segment (seg_no s) d = (Inr (seg_bytes C s), d)"
    using Cons.prems assms(2) by (simp add: read_segment_def calm_call seg_in_def)
  moreover have "read_lines C (split_lines (seg_bytes C s)) = Inr (seg_recs s @ torn_records C (seg_tail s))"
    using Cons.prems assms(1) by (simp add: seg_bytes_def read_lines_ok seg_in_def)
  ultimately show ?case
    using Cons by (simp add: log_of_def)
qed (simp add: log_of_def)

lemma read_segments_append:
  "read_segments C (ns @ ms) rs d = io_bind (read_segments C ns rs) (read_segments C ms) d"
proof (induction ns arbitrary: rs d)
  case (Cons n ns)
  show ?case
  proof (cases "read_segment n d")
    case (Pair r d1)
    then show ?thesis
      by (cases r) (simp_all add: Cons io_bind_def split: sum.split)
  qed
qed simp

lemma read_all_calm:
  assumes "codec_ok C" "dir_rep C segs d" "calm d"
  shows "read_all C d = (Inr (log_of C segs), d)"
  using assms by (simp add: read_all_def list_segments_calm [OF assms(2,3)] read_segments_calm dir_rep_def)

section \<open>Appending and syncing\<close>

text \<open>The open log: the handle is on the last segment \<open>s\<close>, whose last line is complete.\<close>

definition wal_ok :: "codec \<Rightarrow> aseg list \<Rightarrow> aseg \<Rightarrow> 'x wal \<Rightarrow> bool" where
  "wal_ok C segs s W \<longleftrightarrow>
     dir_rep C (segs @ [s]) (wal_dir W) \<and> wal_file W = Some (seg_no s) \<and> seg_no s \<le> current_segment W \<and> seg_tail s = []"

definition fresh_seg :: "u64 \<Rightarrow> aseg" where
  "fresh_seg n = \<lparr>seg_no = n, seg_recs = [], seg_tail = [], seg_synced = 0\<rparr>"

definition add_record :: "wal_record \<Rightarrow> aseg \<Rightarrow> aseg" where
  "add_record r s = s\<lparr>seg_recs := seg_recs s @ [r]\<rparr>"

definition synced_seg :: "codec \<Rightarrow> aseg \<Rightarrow> aseg" where
  "synced_seg C s = s\<lparr>seg_synced := length (seg_bytes C s)\<rparr>"

lemma names_ok_insert:
  assumes "names_ok ns d"
  shows "names_ok (insert n ns) (put_segment n f d)"
proof -
  have "n' \<in> insert n ns \<and> name = segment_path n'"
    if "hm_get (hm_insert (dir_files d) (segment_path n) f) name \<noteq> None" "parse_segment_name name = Some n'" for name n'
  proof (cases "name = segment_path n")
    case True
    then show ?thesis using that(2) parse_segment_path by simp
  next
    case False
    then show ?thesis using assms that by (simp add: names_ok_def hm_simps)
  qed
  then show ?thesis
    by (simp add: names_ok_def put_segment_def)
qed

lemma seg_in_put:
  "seg_in C (put_segment n f d) s \<longleftrightarrow>
     (if seg_no s = n then f = \<lparr>file_data = seg_bytes C s, synced_len = seg_synced s\<rparr> \<and> list_all rec_ok (seg_recs s) \<and> printable (seg_tail s)
      else seg_in C d s)"
  by (simp add: seg_in_def put_segment_def hm_simps)

lemma put_segment_simps [simp]:
  "dir_present (put_segment n f d) = dir_present d" "hm_ok (dir_files d) \<Longrightarrow> hm_ok (dir_files (put_segment n f d))"
  "dir_outcomes (put_segment n f d) = dir_outcomes d" "dir_clock (put_segment n f d) = dir_clock d"
  by (simp_all add: put_segment_def hm_simps)

lemma dir_names_put: "dir_names ns d \<Longrightarrow> n \<in> set ns \<Longrightarrow> dir_names ns (put_segment n f d)"
  using names_ok_insert [of "set ns" d n f] by (auto simp: dir_names_def insert_absorb) (simp add: put_segment_def hm_simps)

lemma dir_rep_put:
  assumes "dir_rep C (segs @ [s]) d" "seg_no s' = seg_no s" "list_all rec_ok (seg_recs s')" "printable (seg_tail s')"
  shows "dir_rep C (segs @ [s']) (put_segment (seg_no s) \<lparr>file_data = seg_bytes C s', synced_len = seg_synced s'\<rparr> d)"
proof -
  have "seg_no t \<noteq> seg_no s" if "t \<in> set segs" for t
    using assms(1) that by (auto simp: dir_rep_def sorted_wrt_append)
  moreover have "names_ok (seg_no ` set (segs @ [s'])) (put_segment (seg_no s) f d)" for f
    using names_ok_insert [of "seg_no ` set (segs @ [s])" d "seg_no s" f] assms(1,2) by (simp add: dir_rep_def insert_absorb)
  ultimately show ?thesis
    using assms by (simp add: dir_rep_def seg_in_put)
qed

lemma dir_rep_new:
  assumes "dir_rep C segs d" "\<forall>s \<in> set segs. seg_no s < n"
  shows "hm_get (dir_files d) (segment_path n) = None"
    "dir_rep C (segs @ [fresh_seg n]) (put_segment n \<lparr>file_data = [], synced_len = 0\<rparr> d)"
proof -
  show none: "hm_get (dir_files d) (segment_path n) = None"
    using assms parse_segment_path [of n] by (force simp: dir_rep_def names_ok_def)
  have "seg_no s \<noteq> n" if "s \<in> set segs" for s
    using assms(2) that by auto
  moreover have "names_ok (insert n (seg_no ` set segs)) (put_segment n \<lparr>file_data = [], synced_len = 0\<rparr> d)"
    using assms(1) by (intro names_ok_insert) (simp add: dir_rep_def)
  ultimately show "dir_rep C (segs @ [fresh_seg n]) (put_segment n \<lparr>file_data = [], synced_len = 0\<rparr> d)"
    using assms by (simp add: dir_rep_def seg_in_put fresh_seg_def sorted_wrt_append seg_bytes_def)
qed

lemma open_segment_run:
  assumes "open_segment n d = (Inr (), d')"
  obtains d1 where "same_log d d1"
    "d' = (case hm_get (dir_files d) (segment_path n) of Some _ \<Rightarrow> d1
           | None \<Rightarrow> put_segment n \<lparr>file_data = [], synced_len = 0\<rparr> d1)"
proof -
  obtain d1 where "dir_call_ok d = (Inr (), d1)"
    using assms unfolding open_segment_def by (auto elim: io_bind_cases)
  moreover have "same_log d d1"
    using calculation by (rule dir_call_ok_same)
  ultimately show ?thesis
    using assms that by (auto simp: open_segment_def same_log_def put_segment_def split: option.splits)
qed

lemma dir_rep_last: "dir_rep C (segs @ [s]) d \<Longrightarrow>
    segment_file d (seg_no s) = \<lparr>file_data = seg_bytes C s, synced_len = seg_synced s\<rparr>"
  by (simp add: dir_rep_def seg_in_def segment_file_def)

lemma on_dir_cases:
  assumes "on_dir m W = (r, W')"
  obtains d where "m (wal_dir W) = (r, d)" "W' = W\<lparr>wal_dir := d\<rparr>"
  using assms by (auto simp: on_dir_def split: prod.splits)

lemma segment_size_run:
  "segment_size n d = (Inr k, d') \<Longrightarrow> same_log d d' \<and> k = length (file_data (segment_file d n))"
  unfolding segment_size_def
  by (erule io_bind_cases) (auto dest!: dir_call_ok_same simp: segment_file_same)

lemma word_inc:
  assumes "(x :: u64) \<noteq> - 1"
  shows "x < x + 1" "unat (x + 1) = Suc (unat x)"
proof -
  have "x + 1 \<noteq> 0"
    using assms by (simp add: eq_neg_iff_add_eq_0)
  then show "unat (x + 1) = Suc (unat x)"
    by (simp add: unatSuc add.commute)
  then show "x < x + 1"
    by (simp add: word_less_nat_alt)
qed

lemma maybe_rotate_eq:
  assumes "wal_file W = Some n"
  shows "maybe_rotate W =
    (case segment_size n (wal_dir W) of
       (Inl e, d) \<Rightarrow> (Inl e, W\<lparr>wal_dir := d\<rparr>)
     | (Inr k, d) \<Rightarrow>
         if unat (segment_limit W) \<le> k
         then (case open_segment (current_segment W + 1) d of
                 (Inl e, d') \<Rightarrow> (Inl e, W\<lparr>wal_dir := d', current_segment := current_segment W + 1\<rparr>)
               | (Inr _, d') \<Rightarrow>
                   (Inr (), W\<lparr>wal_dir := d', current_segment := current_segment W + 1, wal_file := Some (current_segment W + 1)\<rparr>))
         else (Inr (), W\<lparr>wal_dir := d\<rparr>))"
  using assms by (auto simp: maybe_rotate_def io_bind_def on_dir_def Let_def split: prod.splits sum.splits)

definition after_rotation :: "codec \<Rightarrow> 'x wal \<Rightarrow> aseg list \<Rightarrow> aseg \<Rightarrow> aseg list \<times> aseg" where
  "after_rotation C W segs s =
     (if length (seg_bytes C s) < unat (segment_limit W) then (segs, s)
      else (segs @ [s], fresh_seg (current_segment W + 1)))"

lemma maybe_rotate_ok:
  assumes ok: "wal_ok C segs s W" and seg: "current_segment W \<noteq> - 1" and run: "maybe_rotate W = (Inr (), W')"
    and ar: "after_rotation C W segs s = (segs', s')"
  shows "wal_ok C segs' s' W'" "next_lsn W' = next_lsn W" "segment_limit W' = segment_limit W"
    "last_synced_lsn W' = last_synced_lsn W" "stream_sink W' = stream_sink W" "wal_sync_mode W' = wal_sync_mode W"
    "wal_net W' = wal_net W"
    "current_segment W' = (if length (seg_bytes C s) < unat (segment_limit W) then current_segment W else current_segment W + 1)"
proof -
  let ?n = "current_segment W + 1"
  have handle: "wal_file W = Some (seg_no s)" and rep: "dir_rep C (segs @ [s]) (wal_dir W)" and le: "seg_no s \<le> current_segment W"
    using ok by (simp_all add: wal_ok_def)
  have less: "current_segment W < ?n"
    using seg by (rule word_inc)
  obtain d1 k where size: "segment_size (seg_no s) (wal_dir W) = (Inr k, d1)"
    using run by (auto simp: maybe_rotate_eq [OF handle] split: prod.splits sum.splits)
  have same: "same_log (wal_dir W) d1" and k: "k = length (seg_bytes C s)"
    using segment_size_run [OF size] dir_rep_last [OF rep] by simp_all
  have rep1: "dir_rep C (segs @ [s]) d1"
    using rep dir_rep_same [OF same] by simp
  have "wal_ok C segs' s' W' \<and> next_lsn W' = next_lsn W \<and> segment_limit W' = segment_limit W
    \<and> last_synced_lsn W' = last_synced_lsn W \<and> stream_sink W' = stream_sink W \<and> wal_sync_mode W' = wal_sync_mode W
    \<and> wal_net W' = wal_net W
    \<and> current_segment W' = (if length (seg_bytes C s) < unat (segment_limit W) then current_segment W else current_segment W + 1)"
  proof (cases "unat (segment_limit W) \<le> k")
    case False
    then have "W' = W\<lparr>wal_dir := d1\<rparr>"
      using run by (simp add: maybe_rotate_eq [OF handle] size)
    then show ?thesis
      using ok rep1 ar False k by (simp add: wal_ok_def after_rotation_def)
  next
    case True
    then obtain d2 where opened: "open_segment ?n d1 = (Inr (), d2)"
      and W': "W' = W\<lparr>wal_dir := d2, current_segment := ?n, wal_file := Some ?n\<rparr>"
      using run True by (auto simp: maybe_rotate_eq [OF handle] size split: prod.splits sum.splits)
    have nos: "\<forall>t \<in> set (segs @ [s]). seg_no t < ?n"
      using rep1 le less by (auto simp: dir_rep_def sorted_wrt_append)
    obtain d3 where d3: "same_log d1 d3"
      "d2 = put_segment ?n \<lparr>file_data = [], synced_len = 0\<rparr> d3"
      using open_segment_run [OF opened] dir_rep_new(1) [OF rep1 nos] by auto
    have "dir_rep C (segs @ [s]) d3"
      using rep1 dir_rep_same [OF d3(1)] by simp
    then have "dir_rep C ((segs @ [s]) @ [fresh_seg ?n]) d2"
      unfolding d3(2) by (rule dir_rep_new(2)) (rule nos)
    then show ?thesis
      using ar True k by (auto simp: wal_ok_def W' fresh_seg_def after_rotation_def)
  qed
  then show "wal_ok C segs' s' W'" "next_lsn W' = next_lsn W" "segment_limit W' = segment_limit W"
    "last_synced_lsn W' = last_synced_lsn W" "stream_sink W' = stream_sink W" "wal_sync_mode W' = wal_sync_mode W"
    "wal_net W' = wal_net W"
    "current_segment W' = (if length (seg_bytes C s) < unat (segment_limit W) then current_segment W else current_segment W + 1)"
    by simp_all
qed

lemma append_bytes_run:
  assumes "append_bytes n bs d = (Inr (), d')"
  obtains d1 where "same_log d d1" "d' = put_segment n ((segment_file d n)\<lparr>file_data := file_data (segment_file d n) @ bs\<rparr>) d1"
  using assms unfolding append_bytes_def
  by (elim io_bind_cases)
     (auto dest!: dir_call_same simp: Let_def segment_file_same split: io_outcome.splits intro: that)

lemma sync_segment_run:
  assumes "sync_segment n d = (Inr (), d')"
  obtains d1 where "same_log d d1"
    "d' = put_segment n ((segment_file d n)\<lparr>synced_len := length (file_data (segment_file d n))\<rparr>) d1"
  using assms unfolding sync_segment_def
  by (elim io_bind_cases) (auto dest!: dir_call_ok_same simp: Let_def segment_file_same intro: that)

lemma append_eq:
  assumes "maybe_rotate W = (Inr (), W1)" "wal_file W1 = Some n"
  shows "wal_append C r W =
    (case now_us (wal_dir W1) of (t, d) \<Rightarrow>
       case append_bytes n (record_line C (next_lsn W1) (projr t) r) d of (res, d') \<Rightarrow>
         (res, W1\<lparr>next_lsn := next_lsn W1 + 1, wal_dir := d'\<rparr>))"
  using assms now_us_same
  by (fastforce simp: wal_append_def on_dir_def Let_def io_bind_def split: prod.splits sum.splits)

lemma append_ok:
  assumes ok: "wal_ok C segs s W" and r: "rec_ok r" and seg: "current_segment W \<noteq> - 1"
    and run: "wal_append C r W = (Inr (), W')" and ar: "after_rotation C W segs s = (segs', s')"
  obtains time where "wal_ok C segs' (add_record (stored (next_lsn W) time r) s') W'"
    "next_lsn W' = next_lsn W + 1" "segment_limit W' = segment_limit W" "last_synced_lsn W' = last_synced_lsn W"
    "stream_sink W' = stream_sink W" "wal_sync_mode W' = wal_sync_mode W" "wal_net W' = wal_net W"
    "current_segment W' = (if length (seg_bytes C s) < unat (segment_limit W) then current_segment W else current_segment W + 1)"
proof -
  obtain W1 where rot: "maybe_rotate W = (Inr (), W1)"
    using run unfolding wal_append_def by (auto elim: io_bind_cases)
  note rotated = maybe_rotate_ok [OF ok seg rot ar]
  have lsn: "next_lsn W1 = next_lsn W" and ok1: "wal_ok C segs' s' W1"
    using rotated by simp_all
  have handle: "wal_file W1 = Some (seg_no s')" and rep: "dir_rep C (segs' @ [s']) (wal_dir W1)" and tail: "seg_tail s' = []"
    and no: "seg_no s' \<le> current_segment W1"
    using ok1 by (simp_all add: wal_ok_def)
  obtain t d1 where now: "now_us (wal_dir W1) = (Inr t, d1)" "same_log (wal_dir W1) d1"
    using now_us_same by (metis surj_pair)
  let ?r = "stored (next_lsn W) t r"
  have rep1: "dir_rep C (segs' @ [s']) d1"
    using rep dir_rep_same [OF now(2)] by simp
  obtain d2 where "append_bytes (seg_no s') (stored_line C ?r) d1 = (Inr (), d2)"
    and W': "W' = W1\<lparr>next_lsn := next_lsn W1 + 1, wal_dir := d2\<rparr>"
    using run by (auto simp: append_eq [OF rot handle] now record_line_stored lsn split: prod.splits)
  then obtain d3 where d3: "same_log d1 d3"
    "d2 = put_segment (seg_no s') \<lparr>file_data = seg_bytes C s' @ stored_line C ?r, synced_len = seg_synced s'\<rparr> d3"
    using dir_rep_last [OF rep1] by (auto elim: append_bytes_run)
  have rep3: "dir_rep C (segs' @ [s']) d3"
    using rep1 dir_rep_same [OF d3(1)] by simp
  have recs: "list_all rec_ok (seg_recs s')"
    using rep3 by (simp add: dir_rep_def seg_in_def)
  have "seg_bytes C (add_record ?r s') = seg_bytes C s' @ stored_line C ?r"
    using tail by (simp add: seg_bytes_def add_record_def)
  then have "dir_rep C (segs' @ [add_record ?r s']) d2"
    using dir_rep_put [OF rep3, of "add_record ?r s'"] recs r tail d3(2)
    by (simp add: add_record_def rec_ok_def stored_def)
  then have "wal_ok C segs' (add_record ?r s') W'"
    using handle tail no by (simp add: wal_ok_def W' add_record_def)
  then show ?thesis
    using that [of t] rotated W' by simp
qed

lemma sync_segment_ok:
  assumes ok: "wal_ok C segs s W" and run: "on_dir (sync_segment (seg_no s)) W = (Inr (), W')"
  shows "wal_ok C segs (synced_seg C s) W'" "\<exists>d. W' = W\<lparr>wal_dir := d\<rparr>"
proof -
  have rep: "dir_rep C (segs @ [s]) (wal_dir W)"
    using ok by (simp add: wal_ok_def)
  obtain d where d: "sync_segment (seg_no s) (wal_dir W) = (Inr (), d)" and W': "W' = W\<lparr>wal_dir := d\<rparr>"
    using run by (rule on_dir_cases)
  obtain d1 where d1: "same_log (wal_dir W) d1"
    "d = put_segment (seg_no s) \<lparr>file_data = seg_bytes C s, synced_len = length (seg_bytes C s)\<rparr> d1"
    using d dir_rep_last [OF rep] by (auto elim: sync_segment_run)
  have "dir_rep C (segs @ [s]) d1"
    using rep dir_rep_same [OF d1(1)] by simp
  then have "dir_rep C (segs @ [synced_seg C s]) d"
    using dir_rep_put [of C segs s d1 "synced_seg C s"] d1(2)
    by (simp add: synced_seg_def seg_bytes_def dir_rep_def seg_in_def)
  then show "wal_ok C segs (synced_seg C s) W'" "\<exists>d. W' = W\<lparr>wal_dir := d\<rparr>"
    using ok W' by (auto simp: wal_ok_def synced_seg_def)
qed

lemma sync_ok:
  assumes ok: "wal_ok C segs s W" and run: "wal_sync W = (Inr (), W')"
  shows "wal_ok C segs (synced_seg C s) W'" "next_lsn W' = next_lsn W" "current_segment W' = current_segment W"
    "last_synced_lsn W' = current_lsn W" "stream_sink W' = stream_sink W"
proof -
  have handle: "wal_file W = Some (seg_no s)"
    using ok by (simp add: wal_ok_def)
  obtain W1 where W1: "on_dir (sync_segment (seg_no s)) W = (Inr (), W1)" "W' = W1\<lparr>last_synced_lsn := current_lsn W1\<rparr>"
    using run handle unfolding wal_sync_def by (auto elim!: io_bind_cases)
  show "wal_ok C segs (synced_seg C s) W'" "next_lsn W' = next_lsn W" "current_segment W' = current_segment W"
    "last_synced_lsn W' = current_lsn W" "stream_sink W' = stream_sink W"
    using sync_segment_ok [OF ok W1(1)] by (auto simp: W1(2) wal_ok_def current_lsn_def)
qed

lemma sync_to_lsn_ok:
  assumes ok: "wal_ok C segs s W" and run: "sync_to_lsn lsn W = (Inr (), W')" and new: "last_synced_lsn W < lsn"
  shows "wal_ok C segs (synced_seg C s) W'" "last_synced_lsn W' = lsn"
proof -
  have handle: "wal_file W = Some (seg_no s)"
    using ok by (simp add: wal_ok_def)
  obtain W1 where W1: "on_dir (sync_segment (seg_no s)) W = (Inr (), W1)" "W' = W1\<lparr>last_synced_lsn := lsn\<rparr>"
    using run handle new unfolding sync_to_lsn_def by (auto elim!: io_bind_cases)
  show "wal_ok C segs (synced_seg C s) W'" "last_synced_lsn W' = lsn"
    using sync_segment_ok [OF ok W1(1)] by (auto simp: W1(2) wal_ok_def)
qed

lemma propose_to_raft_run:
  "propose_to_raft X r W = (res, W') \<Longrightarrow> \<exists>x. W' = W\<lparr>wal_net := x\<rparr>"
  by (auto simp: propose_to_raft_def on_net_def split: prod.splits sum.splits if_splits intro: exI [of _ "wal_net W"])

lemma stream_to_replica_run:
  "stream_to_replica X r W = (res, W') \<Longrightarrow> \<exists>x. W' = W\<lparr>wal_net := x\<rparr>"
  by (auto simp: stream_to_replica_def on_net_def
      split: prod.splits sum.splits if_splits option.splits bool.splits intro: exI [of _ "wal_net W"])

lemma wal_ok_net [simp]: "wal_ok C segs s (W\<lparr>wal_net := x\<rparr>) = wal_ok C segs s W"
  by (simp add: wal_ok_def)

lemma append_and_sync_steps:
  assumes "append_and_sync C X r W = (Inr (), W')"
  obtains W1 W2 W3 where "propose_to_raft X r W = (Inr (), W1)" "wal_append C r W1 = (Inr (), W2)"
    "wal_sync W2 = (Inr (), W3)" "stream_to_replica X (r\<lparr>rec_lsn := current_lsn W3\<rparr>) W3 = (Inr (), W')"
  using assms unfolding append_and_sync_def by (elim io_bind_cases) auto

lemma append_and_sync_ok:
  assumes ok: "wal_ok C segs s W" and r: "rec_ok r" and seg: "current_segment W \<noteq> - 1"
    and run: "append_and_sync C X r W = (Inr (), W')" and ar: "after_rotation C W segs s = (segs', s')"
  obtains time where "wal_ok C segs' (synced_seg C (add_record (stored (next_lsn W) time r) s')) W'"
    "next_lsn W' = next_lsn W + 1"
    "current_segment W' = (if length (seg_bytes C s) < unat (segment_limit W) then current_segment W else current_segment W + 1)"
proof -
  obtain W1 W2 W3 where steps: "propose_to_raft X r W = (Inr (), W1)" "wal_append C r W1 = (Inr (), W2)"
    "wal_sync W2 = (Inr (), W3)" "stream_to_replica X (r\<lparr>rec_lsn := current_lsn W3\<rparr>) W3 = (Inr (), W')"
    using run by (rule append_and_sync_steps)
  obtain x where W1: "W1 = W\<lparr>wal_net := x\<rparr>"
    using propose_to_raft_run [OF steps(1)] by blast
  obtain y where W': "W' = W3\<lparr>wal_net := y\<rparr>"
    using stream_to_replica_run [OF steps(4)] by blast
  have W1_ok: "wal_ok C segs s W1" "current_segment W1 \<noteq> - 1" "after_rotation C W1 segs s = (segs', s')"
    using ok seg ar by (auto simp: W1 after_rotation_def split: if_splits)
  obtain time where ok2: "wal_ok C segs' (add_record (stored (next_lsn W1) time r) s') W2" and lsn: "next_lsn W2 = next_lsn W1 + 1"
    and cur: "current_segment W2 = (if length (seg_bytes C s) < unat (segment_limit W1) then current_segment W1 else current_segment W1 + 1)"
    using append_ok [OF W1_ok(1) r W1_ok(2) steps(2) W1_ok(3)] by blast
  show ?thesis
    using that [of time] sync_ok [OF ok2 steps(3)] lsn cur by (simp add: W1 W')
qed

lemma after_rotation_facts:
  assumes "after_rotation C W segs s = (segs', s')" "seg_tail s = []"
  shows "concat (map seg_recs (segs' @ [s'])) = concat (map seg_recs (segs @ [s]))" "seg_tail s' = []"
    "set segs' \<subseteq> set (segs @ [s])"
  using assms by (auto simp: after_rotation_def fresh_seg_def split: if_splits)

section \<open>Crashes\<close>

text \<open>A crash keeps of every file a prefix with at least its durable bytes; \<open>kept\<close> says how much.\<close>

definition cut_file :: "nat \<Rightarrow> seg_file \<Rightarrow> seg_file" where
  "cut_file m f =
     (let k = max m (synced_len f) in \<lparr>file_data = take k (file_data f), synced_len = min k (length (file_data f))\<rparr>)"

definition crash :: "(bytes \<Rightarrow> nat) \<Rightarrow> log_dir \<Rightarrow> log_dir" where
  "crash kept d = d\<lparr>dir_files := map (\<lambda>(name, f). (name, cut_file (kept name) f)) (dir_files d)\<rparr>"

lemma hm_get_crash: "hm_get (dir_files (crash kept d)) name = map_option (cut_file (kept name)) (hm_get (dir_files d) name)"
proof -
  have "map_of (map (\<lambda>(name, f). (name, cut_file (kept name) f)) xs) name = map_option (cut_file (kept name)) (map_of xs name)" for xs
    by (induction xs) auto
  then show ?thesis
    by (simp add: crash_def hm_get_def)
qed

lemma crash_simps [simp]:
  "dir_present (crash kept d) = dir_present d" "hm_ok (dir_files (crash kept d)) = hm_ok (dir_files d)"
  "calm (crash kept d) = calm d"
  by (simp_all add: crash_def hm_ok_def calm_def split_def comp_def)

text \<open>A prefix of a segment is a sequence of its records and a part of the next line.\<close>

lemma lines_prefix:
  assumes "codec_ok C" "printable t"
  shows "\<exists>j t'. take m (lines_of C rs @ t) = lines_of C (take j rs) @ t' \<and> printable t' \<and> j \<le> length rs
    \<and> (\<forall>k \<le> length rs. length (lines_of C (take k rs)) \<le> m \<longrightarrow> k \<le> j)"
proof (induction rs arbitrary: m)
  case Nil
  show ?case
    using assms(2) by (intro exI [of _ 0] exI [of _ "take m t"]) (simp add: printable_prefix)
next
  case (Cons r rs)
  show ?case
  proof (cases "length (stored_line C r) \<le> m")
    case True
    obtain j t' where IH: "take (m - length (stored_line C r)) (lines_of C rs @ t) = lines_of C (take j rs) @ t'"
      "printable t'" "j \<le> length rs"
      "\<forall>k \<le> length rs. length (lines_of C (take k rs)) \<le> m - length (stored_line C r) \<longrightarrow> k \<le> j"
      using Cons.IH [of "m - length (stored_line C r)"] by blast
    have "k \<le> Suc j" if "k \<le> length (r # rs)" "length (lines_of C (take k (r # rs))) \<le> m" for k
      using that IH(4) by (cases k) auto
    then show ?thesis
      using True IH(1-3) by (intro exI [of _ "Suc j"] exI [of _ t']) (simp add: take_append)
  next
    case False
    have "k = 0" if "length (lines_of C (take k (r # rs))) \<le> m" for k
      using that False by (cases k) auto
    moreover have "take m (stored_line C r) = take m (line_body C r)"
      using False by (simp add: stored_line_def)
    ultimately show ?thesis
      using False line_body_printable [OF assms(1), of r]
      by (intro exI [of _ 0] exI [of _ "take m (line_body C r)"]) (auto simp: printable_prefix)
  qed
qed

definition crashed :: "codec \<Rightarrow> aseg \<Rightarrow> aseg \<Rightarrow> bool" where
  "crashed C s s' \<longleftrightarrow>
     seg_no s' = seg_no s \<and> seg_synced s' = length (seg_bytes C s')
     \<and> (seg_synced s = length (seg_bytes C s) \<longrightarrow> s' = s)
     \<and> (\<exists>j. seg_recs s' = take j (seg_recs s)
          \<and> (\<forall>k \<le> length (seg_recs s). length (lines_of C (take k (seg_recs s))) \<le> seg_synced s \<longrightarrow> k \<le> j))"

lemma crash_seg:
  assumes "codec_ok C" "seg_in C d s"
  shows "\<exists>s'. crashed C s s' \<and> seg_in C (crash kept d) s'"
proof -
  let ?f = "\<lparr>file_data = seg_bytes C s, synced_len = seg_synced s\<rparr>"
  let ?m = "max (kept (segment_path (seg_no s))) (seg_synced s)"
  have get: "hm_get (dir_files (crash kept d)) (segment_path (seg_no s)) = Some (cut_file (kept (segment_path (seg_no s))) ?f)"
    using assms(2) by (simp add: hm_get_crash seg_in_def)
  show ?thesis
  proof (cases "seg_synced s = length (seg_bytes C s)")
    case True
    then have "cut_file (kept (segment_path (seg_no s))) ?f = ?f"
      by (simp add: cut_file_def Let_def)
    moreover have "crashed C s s"
      using True by (auto simp: crashed_def intro!: exI [of _ "length (seg_recs s)"])
    ultimately show ?thesis
      using assms(2) get by (intro exI [of _ s]) (simp add: seg_in_def)
  next
    case False
    obtain j t where p: "take ?m (seg_bytes C s) = lines_of C (take j (seg_recs s)) @ t" "printable t"
      "\<forall>k \<le> length (seg_recs s). length (lines_of C (take k (seg_recs s))) \<le> ?m \<longrightarrow> k \<le> j"
      using lines_prefix [OF assms(1), of "seg_tail s" ?m "seg_recs s"] assms(2) by (auto simp: seg_bytes_def seg_in_def)
    let ?s = "\<lparr>seg_no = seg_no s, seg_recs = take j (seg_recs s), seg_tail = t,
               seg_synced = min (length (seg_bytes C s)) ?m\<rparr>"
    have bytes: "seg_bytes C ?s = take ?m (seg_bytes C s)"
      using p(1) by (simp add: seg_bytes_def)
    have "crashed C s ?s"
      using False p(3) by (auto simp: crashed_def bytes intro!: exI [of _ j])
    moreover have "seg_in C (crash kept d) ?s"
      using get p(2) assms(2)
      by (auto simp: seg_in_def cut_file_def Let_def bytes min.commute list_all_iff dest: in_set_takeD)
    ultimately show ?thesis by blast
  qed
qed

lemma crash_rep:
  assumes "codec_ok C" "dir_rep C segs d"
  shows "\<exists>segs'. list_all2 (crashed C) segs segs' \<and> dir_rep C segs' (crash kept d)"
proof -
  have "\<forall>s \<in> set segs. \<exists>s'. crashed C s s' \<and> seg_in C (crash kept d) s'"
    using assms crash_seg by (auto simp: dir_rep_def)
  then obtain g where g: "\<forall>s \<in> set segs. crashed C s (g s) \<and> seg_in C (crash kept d) (g s)"
    by metis
  have nos: "map seg_no (map g segs) = map seg_no segs"
    using g by (simp add: crashed_def)
  have "hm_get (dir_files (crash kept d)) name \<noteq> None \<longleftrightarrow> hm_get (dir_files d) name \<noteq> None" for name
    by (simp add: hm_get_crash)
  then have "names_ok ns (crash kept d) = names_ok ns d" for ns
    unfolding names_ok_def by simp
  moreover have img: "seg_no ` set (map g segs) = seg_no ` set segs"
    using arg_cong [OF nos, of set] by (simp add: image_image)
  ultimately have "dir_rep C (map g segs) (crash kept d)"
    unfolding dir_rep_def nos img using assms(2) g by (simp add: dir_rep_def)
  then show ?thesis
    using g by (intro exI [of _ "map g segs"]) (simp add: list_all2_conv_all_nth)
qed

text \<open>The crash that keeps no more than it must, on segments that are synced or not at all.\<close>

definition drop_unsynced :: "codec \<Rightarrow> aseg \<Rightarrow> aseg" where
  "drop_unsynced C s = (if seg_synced s = length (seg_bytes C s) then s else s\<lparr>seg_recs := [], seg_tail := []\<rparr>)"

definition synced_only :: "bytes \<Rightarrow> nat" where
  "synced_only name = 0"

lemma crash_at_once:
  assumes "dir_rep C segs d" "\<forall>s \<in> set segs. seg_synced s = 0 \<or> seg_synced s = length (seg_bytes C s)"
  shows "dir_rep C (map (drop_unsynced C) segs) (crash synced_only d)"
proof -
  have in': "seg_in C (crash synced_only d) (drop_unsynced C s)" if "s \<in> set segs" for s
  proof -
    have get: "hm_get (dir_files (crash synced_only d)) (segment_path (seg_no s)) =
        Some (cut_file 0 \<lparr>file_data = seg_bytes C s, synced_len = seg_synced s\<rparr>)" and "list_all rec_ok (seg_recs s)" "printable (seg_tail s)"
      using assms(1) that by (auto simp: dir_rep_def seg_in_def hm_get_crash synced_only_def)
    moreover have "seg_synced s = 0 \<or> seg_synced s = length (seg_bytes C s)"
      using assms(2) that by blast
    ultimately show ?thesis
      by (auto simp: seg_in_def drop_unsynced_def cut_file_def seg_bytes_def [of C "s\<lparr>seg_recs := [], seg_tail := []\<rparr>"])
  qed
  have nos: "map seg_no (map (drop_unsynced C) segs) = map seg_no segs"
    by (simp add: drop_unsynced_def)
  have "hm_get (dir_files (crash kept d)) name \<noteq> None \<longleftrightarrow> hm_get (dir_files d) name \<noteq> None" for kept name
    by (simp add: hm_get_crash)
  then have "names_ok ns (crash synced_only d) = names_ok ns d" for ns
    unfolding names_ok_def by simp
  moreover have img: "seg_no ` set (map (drop_unsynced C) segs) = seg_no ` set segs"
    using arg_cong [OF nos, of set] by (simp add: image_image)
  ultimately show ?thesis
    unfolding dir_rep_def nos img using assms(1) in' by (simp add: dir_rep_def)
qed

text \<open>A log all of whose bytes are durable survives a crash unchanged.\<close>

definition durable :: "codec \<Rightarrow> aseg list \<Rightarrow> bool" where
  "durable C segs \<longleftrightarrow> (\<forall>s \<in> set segs. seg_synced s = length (seg_bytes C s))"

lemma durable_crash:
  assumes "codec_ok C" "dir_rep C segs d" "durable C segs"
  shows "dir_rep C segs (crash kept d)"
proof -
  obtain segs' where segs': "list_all2 (crashed C) segs segs'" "dir_rep C segs' (crash kept d)"
    using crash_rep [OF assms(1,2)] by blast
  from segs'(1) assms(3) have "segs' = segs"
    by (induction rule: list_all2_induct) (auto simp: durable_def crashed_def)
  then show ?thesis
    using segs'(2) by simp
qed

section \<open>Opening and truncating\<close>

lemma scan_max_calm:
  assumes "dir_rep C segs d" "calm d"
  shows "scan_max_segment d = (Inr (if segs = [] then 0 else seg_no (last segs)), d)"
proof -
  have "Max (seg_no ` set segs) = seg_no (last segs)" if ne: "segs \<noteq> []"
  proof (rule Max_eqI)
    fix n
    assume "n \<in> seg_no ` set segs"
    then obtain s where s: "s \<in> set segs" "n = seg_no s" by blast
    obtain ss l where segs: "segs = ss @ [l]"
      using ne by (cases segs rule: rev_cases) auto
    then have "sorted_wrt (<) (map seg_no ss @ [seg_no l])" "s \<in> set ss \<or> s = l"
      using assms(1) s(1) by (auto simp: dir_rep_def)
    then show "n \<le> seg_no (last segs)"
      using s(2) segs by (auto simp: sorted_wrt_append)
  qed (use that in auto)
  then show ?thesis
    using assms by (simp add: scan_max_segment_def list_segments_calm)
qed

definition open_segs :: "aseg list \<Rightarrow> aseg list" where
  "open_segs segs = (if segs = [] then [fresh_seg 0] else segs)"

lemma log_of_fresh [simp]: "log_of C [fresh_seg n] = []" "log_of C [] = []"
  by (simp_all add: log_of_def fresh_seg_def torn_records_def)

lemma calm_put [simp]: "calm (put_segment n f d) = calm d" "calm (d\<lparr>dir_present := b\<rparr>) = calm d"
  by (simp_all add: calm_def)

lemma open_segment_calm:
  assumes "dir_rep C segs d" "calm d" "n = (if segs = [] then 0 else seg_no (last segs))"
  shows "\<exists>d'. open_segment n d = (Inr (), d') \<and> dir_rep C (open_segs segs) d' \<and> calm d'"
proof (cases "segs = []")
  case True
  have none: "hm_get (dir_files d) (segment_path 0) = None" "dir_rep C [fresh_seg 0] (put_segment 0 \<lparr>file_data = [], synced_len = 0\<rparr> d)"
    using dir_rep_new [of C "[]" d 0] assms(1) True by simp_all
  then have "open_segment n d = (Inr (), put_segment 0 \<lparr>file_data = [], synced_len = 0\<rparr> d)"
    using assms True by (simp add: open_segment_def calm_call put_segment_def)
  then show ?thesis
    using none assms(2) True by (simp add: open_segs_def)
next
  case False
  then have "seg_in C d (last segs)"
    using assms(1) by (simp add: dir_rep_def)
  then show ?thesis
    using assms False by (simp add: open_segment_def calm_call seg_in_def open_segs_def)
qed

lemma open_calm:
  assumes "codec_ok C" "dir_rep C segs (d\<lparr>dir_present := True\<rparr>)" "calm d"
  obtains W where "open_with_segment_limit C limit x d = (Inr W, wal_dir W)" "dir_rep C (open_segs segs) (wal_dir W)"
    "calm (wal_dir W)" "wal_file W = Some (seg_no (last (open_segs segs)))" "current_segment W = seg_no (last (open_segs segs))"
    "next_lsn W = max_lsn (log_of C segs) + 1" "raft_handle W = False" "stream_sink W = None"
    "segment_limit W = limit" "last_synced_lsn W = 0" "wal_net W = x"
proof -
  let ?d = "d\<lparr>dir_present := True\<rparr>" and ?n = "if segs = [] then 0 else seg_no (last segs)"
  have calm: "calm ?d"
    using assms(3) by simp
  obtain d' where d': "open_segment ?n ?d = (Inr (), d')" "dir_rep C (open_segs segs) d'" "calm d'"
    using open_segment_calm [OF assms(2) calm refl] by blast
  have "log_of C (open_segs segs) = log_of C segs"
    by (simp add: open_segs_def)
  then have "read_all C d' = (Inr (log_of C segs), d')"
    using read_all_calm [OF assms(1) d'(2,3)] by simp
  moreover have "scan_max_segment ?d = (Inr ?n, ?d)"
    by (rule scan_max_calm [OF assms(2) calm])
  ultimately have run: "open_with_segment_limit C limit x d = (Inr ((wal_of ?n limit d' x)\<lparr>next_lsn := max_lsn (log_of C segs) + 1\<rparr>), d')"
    using d'(1) assms(3) by (simp add: open_with_segment_limit_def calm_call)
  show ?thesis
    by (rule that [of "(wal_of ?n limit d' x)\<lparr>next_lsn := max_lsn (log_of C segs) + 1\<rparr>"])
       (use run d' in \<open>simp_all add: wal_of_def open_segs_def fresh_seg_def\<close>)
qed

lemma remove_segment_rep:
  assumes "dir_rep C (s # segs) d" "calm d"
  shows "\<exists>d'. remove_segment (seg_no s) d = (Inr (), d') \<and> dir_rep C segs d' \<and> calm d'"
proof -
  let ?d = "d\<lparr>dir_files := hm_remove (dir_files d) (segment_path (seg_no s))\<rparr>"
  have "remove_segment (seg_no s) d = (Inr (), ?d)"
    using assms by (simp add: remove_segment_def calm_call dir_rep_def seg_in_def)
  moreover have "seg_in C ?d t" if "t \<in> set segs" for t
    using assms(1) that by (auto simp: dir_rep_def seg_in_def hm_simps)
  moreover have "names_ok (seg_no ` set segs) ?d"
    using assms(1) by (force simp: dir_rep_def names_ok_def hm_simps)
  ultimately show ?thesis
    using assms by (simp add: dir_rep_def hm_simps calm_def)
qed

lemma remove_all_rep:
  "dir_rep C segs d \<Longrightarrow> calm d \<Longrightarrow>
     \<exists>d'. io_each remove_segment (map seg_no segs) d = (Inr (), d') \<and> dir_rep C [] d' \<and> calm d'"
proof (induction segs arbitrary: d)
  case (Cons s segs)
  obtain d1 where "remove_segment (seg_no s) d = (Inr (), d1)" "dir_rep C segs d1" "calm d1"
    using remove_segment_rep [OF Cons.prems] by blast
  then show ?case
    using Cons.IH [of d1] by auto
qed auto

lemma truncate_calm:
  assumes "dir_rep C segs (wal_dir W)" "calm (wal_dir W)"
  obtains d' where "wal_truncate W = (Inr (), W\<lparr>wal_file := Some 0, current_segment := 0, wal_dir := d'\<rparr>)"
    "dir_rep C [fresh_seg 0] d'" "calm d'"
proof -
  obtain d1 where d1: "io_each remove_segment (map seg_no segs) (wal_dir W) = (Inr (), d1)" "dir_rep C [] d1" "calm d1"
    using remove_all_rep [OF assms] by blast
  obtain d2 where "open_segment 0 d1 = (Inr (), d2)" "dir_rep C [fresh_seg 0] d2" "calm d2"
    using open_segment_calm [OF d1(2,3), of 0] by (auto simp: open_segs_def)
  then show ?thesis
    using that [of d2] d1(1) list_segments_calm [OF assms]
    by (simp add: wal_truncate_def on_dir_def io_bind_def)
qed

end
