(* ===== verification/Sample_Codec.thy ===== *)
theory Sample_Codec
  imports Wal
begin

text \<open>
  An instance of the codecs of the log, for the examples: pairs of hexadecimal digits in place of Base64,
  decimal numbers closed by commas in place of JSON, and the length in place of xxh3.
\<close>

fun hex_decode :: "bytes \<Rightarrow> bytes option" where
  "hex_decode [] = Some []"
| "hex_decode [a] = None"
| "hex_decode (a # b # r) =
     (case (to_digit 16 a, to_digit 16 b) of
        (Some x, Some y) \<Rightarrow> map_option (Cons (of_nat (16 * x + y))) (hex_decode r)
      | _ \<Rightarrow> None)"

definition hex_encode :: "bytes \<Rightarrow> bytes" where
  "hex_encode bs = concat (map (\<lambda>b. [hex_digit_byte (unat b div 16), hex_digit_byte (unat b mod 16)]) bs)"

definition nums_encode :: "u64 list \<Rightarrow> bytes" where
  "nums_encode ws = concat (map (\<lambda>w. show_u64 w @ [44]) ws)"

function nums_decode :: "bytes \<Rightarrow> u64 list" where
  "nums_decode s =
     (let a = takeWhile (\<lambda>b. b \<noteq> 44) s
      in if length a \<ge> length s then [] else parse_u64_or_0 a # nums_decode (drop (length a + 1) s))"
  by auto
termination
  by (relation "measure length") auto

declare nums_decode.simps [simp del]

definition change_encode :: "physical_change \<Rightarrow> bytes" where
  "change_encode c =
     (case c of
        PageAlloc t p \<Rightarrow> nums_encode [0, t, ucast p]
      | CellUpdate t p i old new \<Rightarrow> nums_encode [1, t, ucast p, i, old, new]
      | RowInsert t p i vs \<Rightarrow> nums_encode (2 # t # ucast p # i # vs)
      | RowUpdate t p i old new \<Rightarrow> nums_encode (3 # t # ucast p # i # old) @ 59 # nums_encode new
      | RowDelete t p i \<Rightarrow> nums_encode [4, t, ucast p, i]
      | PageSplit t p q n \<Rightarrow> nums_encode [5, t, ucast p, ucast q, n])"

definition change_decode :: "bytes \<Rightarrow> physical_change option" where
  "change_decode s =
     (let a = takeWhile (\<lambda>b. b \<noteq> 59) s; ns = nums_decode a; ms = nums_decode (drop (length a + 1) s)
      in case ns of
           k # t # p # r \<Rightarrow>
             (if k = 0 then Some (PageAlloc t (ucast p))
              else (case r of
                 i # r' \<Rightarrow>
                   (if k = 2 then Some (RowInsert t (ucast p) i r')
                    else if k = 3 then Some (RowUpdate t (ucast p) i r' ms)
                    else if k = 4 then Some (RowDelete t (ucast p) i)
                    else (case r' of
                       old # r'' \<Rightarrow>
                         (if k = 5 then Some (PageSplit t (ucast p) (ucast i) old)
                          else (case r'' of new # _ \<Rightarrow> Some (CellUpdate t (ucast p) i old new) | [] \<Rightarrow> None))
                     | [] \<Rightarrow> None))
               | [] \<Rightarrow> None))
         | _ \<Rightarrow> None)"

definition sample_codec :: codec where
  "sample_codec =
     \<lparr>b64_encode = hex_encode, b64_decode = hex_decode, json_of_change = (\<lambda>c. Some (change_encode c)),
      change_of_json = change_decode, xxh3_64 = (\<lambda>bs. of_nat (length bs))\<rparr>"

lemma nibble: "unat (b :: u8) div 16 < 16"
proof -
  have "unat b < 256"
    using unsigned_less [of b] by simp
  then show ?thesis by simp
qed

lemma hex_decode_encode: "hex_decode (hex_encode bs) = Some bs"
proof (induction bs)
  case (Cons b bs)
  have "unat b div 16 < 16"
    by (rule nibble)
  then have "to_digit 16 (hex_digit_byte (unat b div 16)) = Some (unat b div 16)"
    "to_digit 16 (hex_digit_byte (unat b mod 16)) = Some (unat b mod 16)"
    by (simp_all add: hex_digit_byte_value)
  moreover have "of_nat (16 * (unat b div 16) + unat b mod 16) = b"
    by (simp only: mult_div_mod_eq of_nat_unat ucast_id)
  ultimately show ?case
    using Cons by (simp add: hex_encode_def)
qed (simp add: hex_encode_def)

lemma hex_encode_chars: "list_all b64_char (hex_encode bs)"
proof -
  have hex: "b64_char (hex_digit_byte d)" if "d < 16" for d
    using hex_digit_byte_value [OF that] by (auto simp: is_hex_digit_def b64_char_def in_range_def word_le_nat_alt)
  show ?thesis
    by (induction bs) (auto simp: hex_encode_def intro!: hex nibble)
qed

lemma show_u64_no: "44 \<notin> set (show_u64 w)" "59 \<notin> set (show_u64 w)"
  using show_u64_digits [of 44 w] show_u64_digits [of 59 w] by (auto simp: in_range_def)

lemma nums_decode_encode: "nums_decode (nums_encode ws) = ws"
proof (induction ws)
  case Nil
  show ?case
    by (subst nums_decode.simps) (simp add: nums_encode_def)
next
  case (Cons w ws)
  have enc: "nums_encode (w # ws) = show_u64 w @ 44 # nums_encode ws"
    by (simp add: nums_encode_def)
  show ?case
    unfolding enc using Cons
    by (subst nums_decode.simps)
       (simp add: takeWhile_field show_u64_no parse_u64_or_0_def parse_show_u64)
qed

lemma nums_encode_no: "59 \<notin> set (nums_encode ws)"
  by (auto simp: nums_encode_def show_u64_no)

lemma nums_encode_printable: "printable (nums_encode ws)"
  by (induction ws) (simp_all add: nums_encode_def field_printable in_range_def)

lemma ucast_down: "ucast (ucast (p :: u32) :: u64) = p"
  by (rule bit_word_eqI) (simp add: bit_ucast_iff)

lemma change_decode_encode: "change_decode (change_encode c) = Some c"
  by (cases c) (simp_all add: change_decode_def change_encode_def takeWhile_no_sep takeWhile_field nums_encode_no
      nums_decode_encode ucast_down)

lemma change_encode_ok: "change_encode c \<noteq> [] \<and> printable (change_encode c)"
proof
  have "nums_encode (w # ws) \<noteq> []" for w ws
    by (simp add: nums_encode_def)
  then show "change_encode c \<noteq> []"
    by (cases c) (simp_all add: change_encode_def)
  show "printable (change_encode c)"
    by (cases c) (simp_all add: change_encode_def nums_encode_printable in_range_def)
qed

lemma sample_codec_ok: "codec_ok sample_codec"
  by (simp add: codec_ok_def sample_codec_def hex_decode_encode hex_encode_chars change_decode_encode change_encode_ok)

end
