(* ===== verification/Wal_Durability.thy ===== *)
theory Wal_Durability
  imports Sample_Codec "HOL-Library.Sublist"
begin

text \<open>
  What the log promises. A history of the log is any sequence of appends, commits, syncs, group commits, counter
  advances, checkpoints, crashes and restarts, with the environment choosing clocks, failing calls, partial
  writes and the answers of the peers in between; in every history the log read back after a crash contains the
  acknowledged records. Further: what a crash leaves of unsynced records, sequence numbers, and the
  cases in which an acknowledged record is lost: a commit after an unfinished line, after a failed
  truncation, and a group commit across a rotation.
\<close>

section \<open>Histories\<close>

definition untimed :: "wal_record \<Rightarrow> wal_record" where
  "untimed r = r\<lparr>rec_timestamp_us := 0\<rparr>"

text \<open>No segment ends in an unfinished line.\<close>

definition whole_lines :: "log_dir \<Rightarrow> bool" where
  "whole_lines d \<longleftrightarrow>
     list_all (\<lambda>(name, f). parse_segment_name name = None \<or> file_data f = [] \<or> last (file_data f) = 10) (dir_files d)"

text \<open>The histories of a log, with the records that were handed to it since the last truncation and those
  whose commit was acknowledged. Every call may fail, at any of its system calls or in a peer; only
  the opening of the log and its truncation are taken to succeed, and a record is handed only to a log
  without an unfinished line and with counters that do not wrap. A failed write leaves a part of the line.\<close>

inductive log_history :: "codec \<Rightarrow> 'x peers \<Rightarrow> 'x wal \<Rightarrow> wal_record list \<Rightarrow> wal_record list \<Rightarrow> bool" for C X where
  opened: "dir_files d = [] \<Longrightarrow> calm d \<Longrightarrow> open_with_segment_limit C limit x d = (Inr W, d') \<Longrightarrow> log_history C X W [] []"
| environment: "log_history C X W tried acked \<Longrightarrow>
    log_history C X (W\<lparr>wal_dir := (wal_dir W)\<lparr>dir_outcomes := ocs, dir_clock := ts\<rparr>, wal_net := x,
       stream_sink := sink, wal_sync_mode := mode, raft_handle := raft\<rparr>) tried acked"
| appended: "log_history C X W tried acked \<Longrightarrow> wal_append C r W = (res, W') \<Longrightarrow> rec_ok r \<Longrightarrow> whole_lines (wal_dir W)
    \<Longrightarrow> current_segment W \<noteq> - 1 \<Longrightarrow> next_lsn W \<noteq> - 1
    \<Longrightarrow> log_history C X W' (tried @ [r\<lparr>rec_lsn := next_lsn W, rec_timestamp_us := 0\<rparr>]) acked"
| committed: "log_history C X W tried acked \<Longrightarrow> append_and_sync C X r W = (res, W') \<Longrightarrow> rec_ok r \<Longrightarrow> whole_lines (wal_dir W)
    \<Longrightarrow> current_segment W \<noteq> - 1 \<Longrightarrow> next_lsn W \<noteq> - 1
    \<Longrightarrow> log_history C X W' (tried @ [r\<lparr>rec_lsn := next_lsn W, rec_timestamp_us := 0\<rparr>])
          (if res = Inr () then acked @ [r\<lparr>rec_lsn := next_lsn W, rec_timestamp_us := 0\<rparr>] else acked)"
| synced: "log_history C X W tried acked \<Longrightarrow> wal_sync W = (res, W') \<Longrightarrow> log_history C X W' tried acked"
| grouped: "log_history C X W tried acked \<Longrightarrow> flush_group lsns W = (res, W') \<Longrightarrow> log_history C X W' tried acked"
| advanced: "log_history C X W tried acked \<Longrightarrow> log_history C X (advance_lsn_to lsn W) tried acked"
| truncated: "log_history C X W tried acked \<Longrightarrow> calm (wal_dir W) \<Longrightarrow> wal_truncate W = (Inr (), W') \<Longrightarrow> log_history C X W' [] []"
| restarted: "log_history C X W tried acked \<Longrightarrow> calm (wal_dir W)
    \<Longrightarrow> open_with_segment_limit C limit x (crash kept (wal_dir W)) = (Inr W', d') \<Longrightarrow> log_history C X W' tried acked"

section \<open>Durable records\<close>

text \<open>The records whose lines lie within the first \<open>m\<close> bytes.\<close>

fun fits :: "codec \<Rightarrow> nat \<Rightarrow> wal_record list \<Rightarrow> wal_record list" where
  "fits C m [] = []"
| "fits C m (r # rs) =
     (if length (stored_line C r) \<le> m then r # fits C (m - length (stored_line C r)) rs else [])"

definition durable_recs :: "codec \<Rightarrow> aseg \<Rightarrow> wal_record list" where
  "durable_recs C s = fits C (seg_synced s) (seg_recs s)"

lemma fits_take: "\<exists>k \<le> length rs. fits C m rs = take k rs \<and> length (lines_of C (take k rs)) \<le> m"
proof (induction rs arbitrary: m)
  case (Cons r rs)
  show ?case
  proof (cases "length (stored_line C r) \<le> m")
    case True
    obtain k where "k \<le> length rs" "fits C (m - length (stored_line C r)) rs = take k rs"
      "length (lines_of C (take k rs)) \<le> m - length (stored_line C r)"
      using Cons.IH by blast
    then show ?thesis
      using True by (intro exI [of _ "Suc k"]) simp
  qed (auto intro!: exI [of _ 0])
qed simp

lemma fits_all: "length (lines_of C rs) \<le> m \<Longrightarrow> fits C m rs = rs"
  by (induction rs arbitrary: m) auto

lemma fits_append: "subseq (fits C m rs) (fits C m (rs @ xs))"
  by (induction rs arbitrary: m) auto

lemma durable_recs_subseq: "subseq (durable_recs C s) (seg_recs s)"
  using fits_take [of "seg_recs s" C "seg_synced s"] by (auto simp: durable_recs_def prefix_imp_subseq take_is_prefix)

lemma durable_recs_synced: "seg_synced s = length (seg_bytes C s) \<Longrightarrow> durable_recs C s = seg_recs s"
  unfolding durable_recs_def by (rule fits_all) (simp add: seg_bytes_def)

lemma durable_recs_add: "subseq (durable_recs C s) (durable_recs C (add_record r s))"
  by (simp add: durable_recs_def add_record_def fits_append)

lemma durable_recs_synced_seg: "durable_recs C (synced_seg C s) = seg_recs s"
  by (subst durable_recs_synced) (simp_all add: synced_seg_def seg_bytes_def)

lemma crashed_recs:
  assumes "crashed C s s'"
  shows "durable_recs C s' = seg_recs s'" "subseq (durable_recs C s) (seg_recs s')" "subseq (seg_recs s') (seg_recs s)"
proof -
  obtain j where j: "seg_recs s' = take j (seg_recs s)"
    "\<forall>k \<le> length (seg_recs s). length (lines_of C (take k (seg_recs s))) \<le> seg_synced s \<longrightarrow> k \<le> j"
    and full: "seg_synced s' = length (seg_bytes C s')"
    using assms unfolding crashed_def by blast
  show "durable_recs C s' = seg_recs s'"
    using full by (rule durable_recs_synced)
  obtain k where k: "k \<le> length (seg_recs s)" "durable_recs C s = take k (seg_recs s)"
    "length (lines_of C (take k (seg_recs s))) \<le> seg_synced s"
    using fits_take [of "seg_recs s" C "seg_synced s"] unfolding durable_recs_def by blast
  then have "take k (seg_recs s) = take k (seg_recs s')"
    using j by (auto simp: min_absorb1)
  then show "subseq (durable_recs C s) (seg_recs s')"
    using k(2) by (simp add: prefix_imp_subseq take_is_prefix)
  show "subseq (seg_recs s') (seg_recs s)"
    by (simp add: j(1) prefix_imp_subseq take_is_prefix)
qed

lemma subseq_concat: "list_all2 (\<lambda>x y. subseq (f x) (g y)) xs ys \<Longrightarrow> subseq (concat (map f xs)) (concat (map g ys))"
  by (induction rule: list_all2_induct) (auto intro: list_emb_append_mono)

lemma subseq_set: "subseq xs ys \<Longrightarrow> set xs \<subseteq> set ys"
  by (induction rule: list_emb.induct) auto

lemma sorted_subseq: "subseq xs ys \<Longrightarrow> sorted_wrt P (map f ys) \<Longrightarrow> sorted_wrt P (map f xs)"
  by (induction rule: list_emb.induct) (auto dest: subseq_set)

section \<open>Whole lines\<close>

lemma whole_seg:
  assumes "seg_in C d s" "whole_lines d"
  shows "seg_tail s = []"
proof (rule ccontr)
  assume t: "seg_tail s \<noteq> []"
  have "(segment_path (seg_no s), \<lparr>file_data = seg_bytes C s, synced_len = seg_synced s\<rparr>) \<in> set (dir_files d)"
    using assms(1) by (auto simp: seg_in_def hm_get_def dest: map_of_SomeD)
  then have "last (seg_tail s) = 10"
    using assms(2) t by (auto simp: whole_lines_def list_all_iff parse_segment_path seg_bytes_def)
  then have "10 \<in> set (seg_tail s)"
    using t last_in_set by metis
  then show False
    using printable_no_newline assms(1) by (auto simp: seg_in_def)
qed

lemma whole_tails: "dir_rep C segs d \<Longrightarrow> whole_lines d \<Longrightarrow> \<forall>s \<in> set segs. seg_tail s = []"
  using whole_seg by (auto simp: dir_rep_def)

lemma whole_linesI:
  assumes "dir_rep C segs d" "\<And>s. s \<in> set segs \<Longrightarrow> seg_tail s = []"
  shows "whole_lines d"
proof -
  have "file_data f = [] \<or> last (file_data f) = 10"
    if mem: "(name, f) \<in> set (dir_files d)" and name: "parse_segment_name name = Some n" for name f n
  proof -
    have get: "hm_get (dir_files d) name = Some f"
      using assms(1) mem by (auto simp: dir_rep_def hm_ok_def hm_get_def)
    then obtain s where s: "s \<in> set segs" "name = segment_path (seg_no s)"
      using assms(1) name unfolding dir_rep_def names_ok_def by blast
    then have "file_data f = lines_of C (seg_recs s)"
      using assms get by (auto simp: dir_rep_def seg_in_def seg_bytes_def)
    then show ?thesis
      by (cases "seg_recs s" rule: rev_cases) (simp_all add: stored_line_def)
  qed
  then show ?thesis
    by (auto simp: whole_lines_def list_all_iff)
qed

lemma log_of_no_tail: "\<forall>s \<in> set segs. seg_tail s = [] \<Longrightarrow> log_of C segs = concat (map seg_recs segs)"
  by (induction segs) (simp_all add: log_of_def torn_records_def)

section \<open>What a step does to the records\<close>

text \<open>The open log with the segments in its directory; the last line of \<open>s\<close> may be unfinished.\<close>

definition log_rep :: "codec \<Rightarrow> aseg list \<Rightarrow> aseg \<Rightarrow> 'x wal \<Rightarrow> bool" where
  "log_rep C segs s W \<longleftrightarrow>
     dir_rep C (segs @ [s]) (wal_dir W) \<and> wal_file W = Some (seg_no s) \<and> seg_no s \<le> current_segment W"

lemma wal_ok_rep: "wal_ok C segs s W \<longleftrightarrow> log_rep C segs s W \<and> seg_tail s = []"
  by (auto simp: wal_ok_def log_rep_def)

lemma log_rep_whole: "log_rep C segs s W \<Longrightarrow> whole_lines (wal_dir W) \<Longrightarrow> wal_ok C segs s W"
  using whole_tails by (fastforce simp: log_rep_def wal_ok_def)

abbreviation recs_of :: "aseg list \<Rightarrow> wal_record list" where
  "recs_of segs \<equiv> concat (map seg_recs segs)"

abbreviation durable_of :: "codec \<Rightarrow> aseg list \<Rightarrow> wal_record list" where
  "durable_of C segs \<equiv> concat (map (durable_recs C) segs)"

text \<open>A call that fails before it writes.\<close>

lemma log_rep_same:
  "log_rep C segs s W \<Longrightarrow> same_log (wal_dir W) d \<Longrightarrow> seg_no s \<le> n \<Longrightarrow>
   log_rep C segs s (W\<lparr>wal_dir := d, current_segment := n\<rparr>)"
  using dir_rep_same by (auto simp: log_rep_def)

lemma segment_size_same: "segment_size n d = (res, d') \<Longrightarrow> same_log d d'"
  unfolding segment_size_def by (erule io_bind_cases) (auto dest: dir_call_ok_same)

lemma open_segment_fails: "open_segment n d = (Inl e, d') \<Longrightarrow> same_log d d'"
  unfolding open_segment_def by (erule io_bind_cases) (auto dest: dir_call_ok_same split: option.splits)

lemma sync_segment_fails: "sync_segment n d = (Inl e, d') \<Longrightarrow> same_log d d'"
  unfolding sync_segment_def by (erule io_bind_cases) (auto dest: dir_call_ok_same simp: Let_def)

lemma maybe_rotate_fails:
  assumes "log_rep C segs s W" "current_segment W \<noteq> - 1" "maybe_rotate W = (Inl e, W')"
  shows "log_rep C segs s W'" "next_lsn W' = next_lsn W"
proof -
  have handle: "wal_file W = Some (seg_no s)" and le: "seg_no s \<le> current_segment W"
    using assms(1) by (simp_all add: log_rep_def)
  obtain d n where W': "W' = W\<lparr>wal_dir := d, current_segment := n\<rparr>" "same_log (wal_dir W) d" "seg_no s \<le> n"
  proof (cases "segment_size (seg_no s) (wal_dir W)")
    case (Pair res d)
    have same: "same_log (wal_dir W) d"
      using Pair by (rule segment_size_same)
    show ?thesis
    proof (cases res)
      case (Inl e')
      then show ?thesis
        using assms(3) Pair same le that [of "current_segment W" d] by (auto simp: maybe_rotate_eq [OF handle])
    next
      case (Inr k)
      then obtain d' where "open_segment (current_segment W + 1) d = (Inl e, d')"
        "W' = W\<lparr>wal_dir := d', current_segment := current_segment W + 1\<rparr>"
        using assms(3) Pair by (auto simp: maybe_rotate_eq [OF handle] split: if_splits prod.splits sum.splits)
      moreover have "seg_no s \<le> current_segment W + 1"
        using le word_inc [OF assms(2)] by simp
      ultimately show ?thesis
        using that same open_segment_fails same_log_trans by blast
    qed
  qed
  then show "log_rep C segs s W'" "next_lsn W' = next_lsn W"
    using log_rep_same [OF assms(1)] by auto
qed

lemma dir_call_total: "dir_call d \<noteq> (Inl e, d')"
  by (simp add: dir_call_def split: prod.split)

lemma append_bytes_fails:
  assumes "append_bytes n bs d = (Inl e, d')"
  obtains k d1 where "same_log d d1"
    "d' = put_segment n ((segment_file d n)\<lparr>file_data := file_data (segment_file d n) @ take k bs\<rparr>) d1"
  using assms unfolding append_bytes_def
  by (elim io_bind_cases)
     (auto dest!: dir_call_same simp: dir_call_total Let_def segment_file_same split: io_outcome.splits intro: that)

text \<open>A call that hands the record \<open>r\<close> to the log writes its line, or leaves the records as they were; what was
  durable stays so.\<close>

definition logged :: "codec \<Rightarrow> u64 \<Rightarrow> wal_record \<Rightarrow> aseg list \<Rightarrow> 'x wal \<Rightarrow> bool" where
  "logged C lsn r segs W' \<longleftrightarrow>
     (\<exists>segs' s'. log_rep C segs' s' W' \<and> subseq (durable_of C segs) (durable_of C (segs' @ [s']))
        \<and> (recs_of (segs' @ [s']) = recs_of segs \<and> next_lsn W' \<in> {lsn, lsn + 1}
           \<or> (\<exists>time. recs_of (segs' @ [s']) = recs_of segs @ [stored lsn time r]) \<and> next_lsn W' = lsn + 1))"

lemma logged_unwritten:
  "log_rep C segs s W' \<Longrightarrow> subseq (durable_of C segs0) (durable_of C (segs @ [s])) \<Longrightarrow> recs_of (segs @ [s]) = recs_of segs0
     \<Longrightarrow> next_lsn W' \<in> {lsn, lsn + 1} \<Longrightarrow> logged C lsn r segs0 W'"
  unfolding logged_def by blast

lemma logged_written:
  "log_rep C segs s W' \<Longrightarrow> subseq (durable_of C segs0) (durable_of C (segs @ [s]))
     \<Longrightarrow> recs_of (segs @ [s]) = recs_of segs0 @ [stored lsn time r]
     \<Longrightarrow> next_lsn W' = lsn + 1 \<Longrightarrow> logged C lsn r segs0 W'"
  unfolding logged_def by blast

lemma after_rotation_durable:
  "after_rotation C W segs s = (segs', s') \<Longrightarrow> durable_of C (segs' @ [s']) = durable_of C (segs @ [s])"
  by (auto simp: after_rotation_def fresh_seg_def durable_recs_def split: if_splits)

lemma durable_of_last: "subseq (durable_recs C s) (durable_recs C s') \<Longrightarrow> subseq (durable_of C (segs @ [s])) (durable_of C (segs @ [s']))"
  by (simp add: subseq_append')

text \<open>A write that fails after \<open>k\<close> bytes.\<close>

lemma dir_rep_partial:
  assumes C: "codec_ok C" and rep: "dir_rep C (segs @ [s]) d" and tail: "seg_tail s = []" and x: "rec_ok x"
    and d': "d' = put_segment (seg_no s) \<lparr>file_data = seg_bytes C s @ take k (stored_line C x), synced_len = seg_synced s\<rparr> d"
  shows "if length (stored_line C x) \<le> k then dir_rep C (segs @ [add_record x s]) d'
    else dir_rep C (segs @ [s\<lparr>seg_tail := take k (line_body C x)\<rparr>]) d'"
proof -
  have recs: "list_all rec_ok (seg_recs s)"
    using rep by (simp add: dir_rep_def seg_in_def)
  show ?thesis
  proof (cases "length (stored_line C x) \<le> k")
    case True
    then show ?thesis
      using dir_rep_put [OF rep, of "add_record x s"] recs tail x d' by (simp add: add_record_def seg_bytes_def)
  next
    case False
    then have "take k (stored_line C x) = take k (line_body C x)"
      by (simp add: stored_line_def)
    then show ?thesis
      using False dir_rep_put [OF rep, of "s\<lparr>seg_tail := take k (line_body C x)\<rparr>"] recs tail d'
        printable_prefix [OF line_body_printable [OF C, of x], of k]
      by (simp add: seg_bytes_def)
  qed
qed

lemma append_logged:
  assumes C: "codec_ok C" and ok: "wal_ok C segs s W" and r: "rec_ok r" and seg: "current_segment W \<noteq> - 1"
    and run: "wal_append C r W = (res, W')"
  shows "logged C (next_lsn W) r (segs @ [s]) W'"
proof -
  obtain segs1 s1 where ar: "after_rotation C W segs s = (segs1, s1)"
    by fastforce
  have tail: "seg_tail s = []"
    using ok by (simp add: wal_ok_def)
  note rotated = after_rotation_facts(1) [OF ar tail] after_rotation_durable [OF ar]
  show ?thesis
  proof (cases res)
    case (Inr u)
    then obtain time where "wal_ok C segs1 (add_record (stored (next_lsn W) time r) s1) W'" "next_lsn W' = next_lsn W + 1"
      using append_ok [OF ok r seg _ ar, of W'] run by (metis old.unit.exhaust)
    then show ?thesis
      using rotated durable_of_last [OF durable_recs_add, of C segs1 s1]
      by (intro logged_written [of C segs1 "add_record (stored (next_lsn W) time r) s1"]) (auto simp: wal_ok_rep add_record_def)
  next
    case (Inl e)
    show ?thesis
    proof (cases "maybe_rotate W")
      case (Pair res1 W1)
      show ?thesis
      proof (cases res1)
        case Inl': (Inl e')
        then have "W' = W1"
          using run Pair unfolding wal_append_def by simp
        then show ?thesis
          using maybe_rotate_fails [of C segs s W e' W1] ok seg Pair Inl'
          by (intro logged_unwritten [of C segs s]) (simp_all add: wal_ok_rep)
      next
        case (Inr u)
        then have rot: "maybe_rotate W = (Inr (), W1)"
          using Pair by simp
        note ok1 = maybe_rotate_ok [OF ok seg rot ar]
        have handle: "wal_file W1 = Some (seg_no s1)" and rep: "dir_rep C (segs1 @ [s1]) (wal_dir W1)" and tail1: "seg_tail s1 = []"
          using ok1(1) by (simp_all add: wal_ok_def)
        obtain t d1 where now: "now_us (wal_dir W1) = (Inr t, d1)" "same_log (wal_dir W1) d1"
          using now_us_same by (metis surj_pair)
        let ?x = "stored (next_lsn W) t r"
        have rep1: "dir_rep C (segs1 @ [s1]) d1"
          using rep dir_rep_same [OF now(2)] by simp
        obtain d2 where "append_bytes (seg_no s1) (stored_line C ?x) d1 = (Inl e, d2)"
          and W': "W' = W1\<lparr>next_lsn := next_lsn W1 + 1, wal_dir := d2\<rparr>"
          using run Inl by (auto simp: append_eq [OF rot handle] now record_line_stored ok1(2) split: prod.splits)
        then obtain k d3 where d3: "same_log d1 d3"
          "d2 = put_segment (seg_no s1) \<lparr>file_data = seg_bytes C s1 @ take k (stored_line C ?x), synced_len = seg_synced s1\<rparr> d3"
          using dir_rep_last [OF rep1] by (auto elim: append_bytes_fails)
        have rep3: "dir_rep C (segs1 @ [s1]) d3" and x: "rec_ok ?x"
          using rep1 dir_rep_same [OF d3(1)] r by (simp_all add: rec_ok_def stored_def)
        note part = dir_rep_partial [OF C rep3 tail1 x d3(2)]
        show ?thesis
        proof (cases "length (stored_line C ?x) \<le> k")
          case True
          then show ?thesis
            using part ok1 rotated W' durable_of_last [OF durable_recs_add, of C segs1 s1]
            by (intro logged_written [of C segs1 "add_record ?x s1"]) (auto simp: wal_ok_def log_rep_def add_record_def)
        next
          case False
          then show ?thesis
            using part ok1 rotated W'
            by (intro logged_unwritten [of C segs1 "s1\<lparr>seg_tail := take k (line_body C ?x)\<rparr>"])
               (auto simp: wal_ok_def log_rep_def durable_recs_def)
        qed
      qed
    qed
  qed
qed

lemma sync_segment_rep:
  assumes rep: "log_rep C segs s W" and run: "on_dir (sync_segment (seg_no s)) W = (res, W')"
  shows "\<exists>s' d. log_rep C segs s' W' \<and> (s' = s \<or> s' = synced_seg C s) \<and> W' = W\<lparr>wal_dir := d\<rparr>"
proof -
  have dir: "dir_rep C (segs @ [s]) (wal_dir W)"
    using rep by (simp add: log_rep_def)
  obtain d where d: "sync_segment (seg_no s) (wal_dir W) = (res, d)" and W': "W' = W\<lparr>wal_dir := d\<rparr>"
    using run by (rule on_dir_cases)
  show ?thesis
  proof (cases res)
    case (Inl e)
    then show ?thesis
      using d sync_segment_fails [of "seg_no s" "wal_dir W" e d] rep W' dir_rep_same by (auto simp: log_rep_def)
  next
    case (Inr u)
    then obtain d1 where d1: "same_log (wal_dir W) d1"
      "d = put_segment (seg_no s) \<lparr>file_data = seg_bytes C s, synced_len = length (seg_bytes C s)\<rparr> d1"
      using d dir_rep_last [OF dir] by (auto elim: sync_segment_run)
    have "dir_rep C (segs @ [s]) d1"
      using dir dir_rep_same [OF d1(1)] by simp
    then have "dir_rep C (segs @ [synced_seg C s]) d"
      using dir_rep_put [of C segs s d1 "synced_seg C s"] d1(2)
      by (simp add: synced_seg_def seg_bytes_def dir_rep_def seg_in_def)
    then have "log_rep C segs (synced_seg C s) W'"
      using rep W' by (simp add: log_rep_def synced_seg_def)
    then show ?thesis
      using W' by blast
  qed
qed

lemma log_rep_synced_lsn [simp]: "log_rep C segs s (W\<lparr>last_synced_lsn := n\<rparr>) = log_rep C segs s W"
  by (simp add: log_rep_def)

lemma log_rep_net [simp]: "log_rep C segs s (W\<lparr>wal_net := x\<rparr>) = log_rep C segs s W"
  by (simp add: log_rep_def)

text \<open>Every way of syncing, whether it succeeds or not.\<close>

definition syncing :: "codec \<Rightarrow> aseg list \<Rightarrow> aseg \<Rightarrow> 'x wal \<Rightarrow> 'x wal \<Rightarrow> bool" where
  "syncing C segs s W W' \<longleftrightarrow> next_lsn W' = next_lsn W \<and> (\<exists>s'. log_rep C segs s' W' \<and> (s' = s \<or> s' = synced_seg C s))"

lemma wal_sync_rep:
  assumes rep: "log_rep C segs s W" and run: "wal_sync W = (res, W')"
  shows "syncing C segs s W W'"
proof -
  have handle: "wal_file W = Some (seg_no s)"
    using rep by (simp add: log_rep_def)
  obtain res1 W1 where W1: "on_dir (sync_segment (seg_no s)) W = (res1, W1)"
    by fastforce
  then have "W' = W1 \<or> W' = W1\<lparr>last_synced_lsn := current_lsn W1\<rparr>"
    using run handle by (cases res1) (auto simp: wal_sync_def)
  then show ?thesis
    using sync_segment_rep [OF rep W1] by (auto simp: syncing_def)
qed

lemma sync_to_lsn_rep:
  assumes rep: "log_rep C segs s W" and run: "sync_to_lsn lsn W = (res, W')"
  shows "syncing C segs s W W'"
proof (cases "last_synced_lsn W < lsn")
  case False
  then show ?thesis
    using run rep by (auto simp: sync_to_lsn_def syncing_def)
next
  case True
  have handle: "wal_file W = Some (seg_no s)"
    using rep by (simp add: log_rep_def)
  obtain res1 W1 where W1: "on_dir (sync_segment (seg_no s)) W = (res1, W1)"
    by fastforce
  then have "W' = W1 \<or> W' = W1\<lparr>last_synced_lsn := lsn\<rparr>"
    using run handle True by (cases res1) (auto simp: sync_to_lsn_def)
  then show ?thesis
    using sync_segment_rep [OF rep W1] by (auto simp: syncing_def)
qed

lemma syncing_durable: "syncing C segs s W W' \<Longrightarrow>
    \<exists>s'. log_rep C segs s' W' \<and> recs_of (segs @ [s']) = recs_of (segs @ [s])
      \<and> subseq (durable_of C (segs @ [s])) (durable_of C (segs @ [s']))"
  using durable_recs_subseq [of C s] durable_recs_synced_seg [of C s]
  by (auto simp: syncing_def synced_seg_def subseq_append')

lemma append_and_sync_logged:
  assumes C: "codec_ok C" and ok: "wal_ok C segs s W" and r: "rec_ok r" and seg: "current_segment W \<noteq> - 1"
    and run: "append_and_sync C X r W = (res, W')"
  shows "logged C (next_lsn W) r (segs @ [s]) W'"
proof -
  obtain res1 W1 where W1: "propose_to_raft X r W = (res1, W1)"
    by fastforce
  then obtain x where x: "W1 = W\<lparr>wal_net := x\<rparr>"
    using propose_to_raft_run by blast
  obtain res2 W2 where W2: "wal_append C r W1 = (res2, W2)"
    by fastforce
  obtain res3 W3 where W3: "wal_sync W2 = (res3, W3)"
    by fastforce
  obtain res4 W4 where W4: "stream_to_replica X (r\<lparr>rec_lsn := current_lsn W3\<rparr>) W3 = (res4, W4)"
    by fastforce
  then obtain y where y: "W4 = W3\<lparr>wal_net := y\<rparr>"
    using stream_to_replica_run by blast
  have two: "logged C (next_lsn W) r (segs @ [s]) W2"
    using append_logged [OF C _ r _ W2, of segs s] ok seg by (simp add: x)
  have "logged C (next_lsn W) r (segs @ [s]) W1"
    using ok by (intro logged_unwritten [of C segs s]) (simp_all add: x wal_ok_rep)
  moreover have three: "logged C (next_lsn W) r (segs @ [s]) W3"
  proof -
    obtain segs' s' where s': "log_rep C segs' s' W2" "subseq (durable_of C (segs @ [s])) (durable_of C (segs' @ [s']))"
      "recs_of (segs' @ [s']) = recs_of (segs @ [s]) \<and> next_lsn W2 \<in> {next_lsn W, next_lsn W + 1}
       \<or> (\<exists>time. recs_of (segs' @ [s']) = recs_of (segs @ [s]) @ [stored (next_lsn W) time r]) \<and> next_lsn W2 = next_lsn W + 1"
      using two unfolding logged_def by blast
    have sy: "syncing C segs' s' W2 W3"
      using wal_sync_rep [OF s'(1) W3] .
    then obtain s3 where s3: "log_rep C segs' s3 W3" "recs_of (segs' @ [s3]) = recs_of (segs' @ [s'])"
      "subseq (durable_of C (segs' @ [s'])) (durable_of C (segs' @ [s3]))"
      using syncing_durable by blast
    have "subseq (durable_of C (segs @ [s])) (durable_of C (segs' @ [s3]))"
      using s'(2) s3(3) by (rule subseq_order.trans)
    moreover have "next_lsn W3 = next_lsn W2"
      using sy by (simp only: syncing_def)
    ultimately show ?thesis
      unfolding logged_def using s'(3) s3(1) by (intro exI [of _ segs'] exI [of _ s3]) (simp only: s3(2) simp_thms)
  qed
  moreover have "logged C (next_lsn W) r (segs @ [s]) W4"
    using three by (simp add: logged_def y)
  moreover have "W' \<in> {W1, W2, W3, W4}"
    using run W1 W2 W3 W4 by (cases res1; cases res2; cases res3) (auto simp: append_and_sync_def)
  ultimately show ?thesis
    using two by blast
qed

section \<open>The invariant of a history\<close>

text \<open>What is acknowledged is durable, and what is in the log was handed to it, with increasing numbers; as long
  as every call was acknowledged, everything in the log is durable.\<close>

definition log_inv :: "codec \<Rightarrow> 'x wal \<Rightarrow> wal_record list \<Rightarrow> wal_record list \<Rightarrow> bool" where
  "log_inv C W tried acked \<longleftrightarrow>
     (\<exists>segs s. log_rep C segs s W
        \<and> subseq acked (map untimed (durable_of C (segs @ [s]))) \<and> subseq (map untimed (recs_of (segs @ [s]))) tried
        \<and> sorted_wrt (<) (map rec_lsn (recs_of (segs @ [s]))) \<and> (\<forall>r \<in> set (recs_of (segs @ [s])). rec_lsn r \<noteq> - 1)
        \<and> ((\<forall>t \<in> set (segs @ [s]). seg_tail t = []) \<longrightarrow> (\<forall>r \<in> set (recs_of (segs @ [s])). rec_lsn r < next_lsn W))
        \<and> (length acked = length tried \<longrightarrow> durable C (segs @ [s]) \<and> (\<forall>t \<in> set (segs @ [s]). seg_tail t = [])))"

lemma log_invI:
  assumes "log_rep C segs s W" "subseq acked (map untimed (durable_of C (segs @ [s])))"
    "subseq (map untimed (recs_of (segs @ [s]))) tried" "sorted_wrt (<) (map rec_lsn (recs_of (segs @ [s])))"
    "\<And>r. r \<in> set (recs_of (segs @ [s])) \<Longrightarrow> rec_lsn r \<noteq> - 1"
    "\<And>r. \<forall>t \<in> set (segs @ [s]). seg_tail t = [] \<Longrightarrow> r \<in> set (recs_of (segs @ [s])) \<Longrightarrow> rec_lsn r < next_lsn W"
    "length acked = length tried \<Longrightarrow> durable C (segs @ [s]) \<and> (\<forall>t \<in> set (segs @ [s]). seg_tail t = [])"
  shows "log_inv C W tried acked"
  unfolding log_inv_def using assms by blast

lemma log_invE:
  assumes "log_inv C W tried acked"
  obtains segs s where "log_rep C segs s W" "subseq acked (map untimed (durable_of C (segs @ [s])))"
    "subseq (map untimed (recs_of (segs @ [s]))) tried" "sorted_wrt (<) (map rec_lsn (recs_of (segs @ [s])))"
    "\<And>r. r \<in> set (recs_of (segs @ [s])) \<Longrightarrow> rec_lsn r \<noteq> - 1"
    "\<And>r. \<forall>t \<in> set (segs @ [s]). seg_tail t = [] \<Longrightarrow> r \<in> set (recs_of (segs @ [s])) \<Longrightarrow> rec_lsn r < next_lsn W"
    "length acked = length tried \<Longrightarrow> durable C (segs @ [s]) \<and> (\<forall>t \<in> set (segs @ [s]). seg_tail t = [])"
    "length acked \<le> length tried"
proof -
  obtain segs s where I: "log_rep C segs s W" "subseq acked (map untimed (durable_of C (segs @ [s])))"
    "subseq (map untimed (recs_of (segs @ [s]))) tried" "sorted_wrt (<) (map rec_lsn (recs_of (segs @ [s])))"
    "\<forall>r \<in> set (recs_of (segs @ [s])). rec_lsn r \<noteq> - 1"
    "(\<forall>t \<in> set (segs @ [s]). seg_tail t = []) \<longrightarrow> (\<forall>r \<in> set (recs_of (segs @ [s])). rec_lsn r < next_lsn W)"
    "length acked = length tried \<longrightarrow> durable C (segs @ [s]) \<and> (\<forall>t \<in> set (segs @ [s]). seg_tail t = [])"
    using assms unfolding log_inv_def by blast
  have "subseq (durable_of C (segs @ [s])) (recs_of (segs @ [s]))"
    using durable_recs_subseq by (intro subseq_concat) (simp add: list.rel_refl)
  then have "length acked \<le> length tried"
    using I(2,3) list_emb_length by (fastforce dest: list_emb_length)
  then show ?thesis
    using I by (intro that [of segs s]) blast+
qed

lemma untimed_stored: "untimed (stored lsn time r) = r\<lparr>rec_lsn := lsn, rec_timestamp_us := 0\<rparr>"
  by (simp add: untimed_def stored_def)

lemma rec_lsn_untimed [simp]: "rec_lsn (untimed r) = rec_lsn r" "rec_lsn (stored lsn time r) = lsn"
  by (simp_all add: untimed_def stored_def)

lemma log_inv_add:
  assumes "log_rep C segs s W" "subseq acked (map untimed (durable_of C (segs @ [s])))"
    and recs: "recs_of (segs @ [s]) = R @ [stored n time r]" and R: "subseq (map untimed R) tried"
    "sorted_wrt (<) (map rec_lsn R)" "\<And>x. x \<in> set R \<Longrightarrow> rec_lsn x \<noteq> - 1" "\<And>x. x \<in> set R \<Longrightarrow> rec_lsn x < n"
    and n: "n \<noteq> - 1" "next_lsn W = n + 1"
    and "length acked = Suc (length tried) \<Longrightarrow> durable C (segs @ [s]) \<and> (\<forall>t \<in> set (segs @ [s]). seg_tail t = [])"
  shows "log_inv C W (tried @ [r\<lparr>rec_lsn := n, rec_timestamp_us := 0\<rparr>]) acked"
proof (rule log_invI [OF assms(1,2)])
  show "subseq (map untimed (recs_of (segs @ [s]))) (tried @ [r\<lparr>rec_lsn := n, rec_timestamp_us := 0\<rparr>])"
    unfolding recs using R(1) by (simp add: untimed_stored)
  show "sorted_wrt (<) (map rec_lsn (recs_of (segs @ [s])))"
    unfolding recs using R(2,4) by (simp add: sorted_wrt_append)
  show "rec_lsn x \<noteq> - 1" if "x \<in> set (recs_of (segs @ [s]))" for x
    using that R(3) n(1) unfolding recs by auto
  show "rec_lsn x < next_lsn W" if "x \<in> set (recs_of (segs @ [s]))" for x
    using that R(4) word_inc(1) [OF n(1)] n(2) unfolding recs by (auto intro: less_trans)
qed (use assms(10) in simp)

text \<open>A record handed to a log without an unfinished line, whatever the call returns.\<close>

lemma log_inv_logged:
  assumes inv: "log_inv C W tried acked" and whole: "whole_lines (wal_dir W)" and lsn: "next_lsn W \<noteq> - 1"
    and step: "\<And>segs s. wal_ok C segs s W \<Longrightarrow> logged C (next_lsn W) r (segs @ [s]) W'"
  shows "log_inv C W' (tried @ [r\<lparr>rec_lsn := next_lsn W, rec_timestamp_us := 0\<rparr>]) acked"
  using inv
proof (rule log_invE)
  fix segs s
  assume I: "log_rep C segs s W" "subseq acked (map untimed (durable_of C (segs @ [s])))"
    "subseq (map untimed (recs_of (segs @ [s]))) tried" "sorted_wrt (<) (map rec_lsn (recs_of (segs @ [s])))"
    "\<And>r. r \<in> set (recs_of (segs @ [s])) \<Longrightarrow> rec_lsn r \<noteq> - 1"
    "\<And>r. \<forall>t \<in> set (segs @ [s]). seg_tail t = [] \<Longrightarrow> r \<in> set (recs_of (segs @ [s])) \<Longrightarrow> rec_lsn r < next_lsn W"
    "length acked \<le> length tried"
  have tails: "\<forall>t \<in> set (segs @ [s]). seg_tail t = []"
    using I(1) whole whole_tails by (auto simp: log_rep_def)
  obtain segs' s' where L: "log_rep C segs' s' W'" "subseq (durable_of C (segs @ [s])) (durable_of C (segs' @ [s']))"
    "recs_of (segs' @ [s']) = recs_of (segs @ [s]) \<and> next_lsn W' \<in> {next_lsn W, next_lsn W + 1}
     \<or> (\<exists>time. recs_of (segs' @ [s']) = recs_of (segs @ [s]) @ [stored (next_lsn W) time r]) \<and> next_lsn W' = next_lsn W + 1"
    using step [OF log_rep_whole [OF I(1) whole]] unfolding logged_def by blast
  have acked: "subseq acked (map untimed (durable_of C (segs' @ [s'])))"
    using I(2) subseq_map [OF L(2), of untimed] by (rule subseq_order.trans)
  have old: "rec_lsn x < next_lsn W" if "x \<in> set (recs_of (segs @ [s]))" for x
    using I(6) [OF tails that] .
  have up: "next_lsn W < next_lsn W + 1"
    using word_inc(1) [OF lsn] .
  show ?thesis
    using L(3)
  proof (elim disjE conjE exE)
    assume same: "recs_of (segs' @ [s']) = recs_of (segs @ [s])" and n: "next_lsn W' \<in> {next_lsn W, next_lsn W + 1}"
    have "rec_lsn x < next_lsn W'" if "x \<in> set (recs_of (segs @ [s]))" for x
      using old [OF that] up n by auto
    then show ?thesis
      using I(3-5,7) by (intro log_invI [OF L(1) acked]) (unfold same, auto simp: subseq_rev_drop_many)
  next
    fix time
    assume more: "recs_of (segs' @ [s']) = recs_of (segs @ [s]) @ [stored (next_lsn W) time r]" and n: "next_lsn W' = next_lsn W + 1"
    show ?thesis
      using log_inv_add [OF L(1) acked more I(3-5) old lsn n] I(7) by simp
  qed
qed

lemma log_inv_acknowledged:
  assumes C: "codec_ok C" and inv: "log_inv C W tried acked" and whole: "whole_lines (wal_dir W)" and lsn: "next_lsn W \<noteq> - 1"
    and run: "append_and_sync C X r W = (Inr (), W')" and r: "rec_ok r" and seg: "current_segment W \<noteq> - 1"
  shows "log_inv C W' (tried @ [r\<lparr>rec_lsn := next_lsn W, rec_timestamp_us := 0\<rparr>]) (acked @ [r\<lparr>rec_lsn := next_lsn W, rec_timestamp_us := 0\<rparr>])"
  using inv
proof (rule log_invE)
  fix segs s
  assume I: "log_rep C segs s W" "subseq acked (map untimed (durable_of C (segs @ [s])))"
    "subseq (map untimed (recs_of (segs @ [s]))) tried" "sorted_wrt (<) (map rec_lsn (recs_of (segs @ [s])))"
    "\<And>r. r \<in> set (recs_of (segs @ [s])) \<Longrightarrow> rec_lsn r \<noteq> - 1"
    "\<And>r. \<forall>t \<in> set (segs @ [s]). seg_tail t = [] \<Longrightarrow> r \<in> set (recs_of (segs @ [s])) \<Longrightarrow> rec_lsn r < next_lsn W"
    "length acked = length tried \<Longrightarrow> durable C (segs @ [s]) \<and> (\<forall>t \<in> set (segs @ [s]). seg_tail t = [])"
  have tails: "\<forall>t \<in> set (segs @ [s]). seg_tail t = []"
    using I(1) whole whole_tails by (auto simp: log_rep_def)
  obtain segs' s' where ar: "after_rotation C W segs s = (segs', s')"
    by fastforce
  obtain time where ok': "wal_ok C segs' (synced_seg C (add_record (stored (next_lsn W) time r) s')) W'"
    and n: "next_lsn W' = next_lsn W + 1"
    using append_and_sync_ok [OF log_rep_whole [OF I(1) whole] r seg run ar] by blast
  let ?x = "stored (next_lsn W) time r" let ?s = "synced_seg C (add_record ?x s')"
  have old: "recs_of (segs' @ [s']) = recs_of (segs @ [s])" "set segs' \<subseteq> set (segs @ [s])"
    using after_rotation_facts [OF ar] tails by simp_all
  have recs: "recs_of (segs' @ [?s]) = recs_of (segs @ [s]) @ [?x]"
    using old(1) by (simp add: synced_seg_def add_record_def)
  have "durable_of C (segs' @ [?s]) = durable_of C segs' @ seg_recs s' @ [?x]"
    by (simp add: durable_recs_synced_seg) (simp add: add_record_def)
  moreover have "subseq (durable_of C (segs' @ [s'])) (durable_of C segs' @ seg_recs s')"
    using durable_recs_subseq [of C s'] by (simp add: subseq_append')
  ultimately have "subseq (durable_of C (segs @ [s]) @ [?x]) (durable_of C (segs' @ [?s]))"
    using after_rotation_durable [OF ar] by (simp flip: append_assoc del: map_append concat_append)
  then have "subseq (map untimed (durable_of C (segs @ [s])) @ [untimed ?x]) (map untimed (durable_of C (segs' @ [?s])))"
    using subseq_map [of _ _ untimed] by fastforce
  moreover have "subseq (acked @ [untimed ?x]) (map untimed (durable_of C (segs @ [s])) @ [untimed ?x])"
    using I(2) by (simp only: subseq_append)
  ultimately have acked: "subseq (acked @ [untimed ?x]) (map untimed (durable_of C (segs' @ [?s])))"
    using subseq_order.trans by blast
  have lt: "rec_lsn y < next_lsn W" if "y \<in> set (recs_of (segs @ [s]))" for y
    using I(6) [OF tails that] .
  have tails': "\<forall>t \<in> set (segs' @ [?s]). seg_tail t = []"
    using old(2) tails ok' by (auto simp: wal_ok_def)
  have dur: "durable C (segs' @ [?s])" if "durable C (segs @ [s])"
    using that old(2) by (auto simp: durable_def) (simp add: synced_seg_def seg_bytes_def)
  have rep: "log_rep C segs' ?s W'"
    using ok' by (simp add: wal_ok_rep)
  show ?thesis
    using log_inv_add [OF rep acked recs I(3-5) lt lsn n] I(7) dur tails' by (simp add: untimed_stored)
qed

lemma log_inv_sync:
  assumes inv: "log_inv C W tried acked" and step: "\<And>segs s. log_rep C segs s W \<Longrightarrow> syncing C segs s W W'"
  shows "log_inv C W' tried acked"
  using inv
proof (rule log_invE)
  fix segs s
  assume I: "log_rep C segs s W" "subseq acked (map untimed (durable_of C (segs @ [s])))"
    "subseq (map untimed (recs_of (segs @ [s]))) tried" "sorted_wrt (<) (map rec_lsn (recs_of (segs @ [s])))"
    "\<And>r. r \<in> set (recs_of (segs @ [s])) \<Longrightarrow> rec_lsn r \<noteq> - 1"
    "\<And>r. \<forall>t \<in> set (segs @ [s]). seg_tail t = [] \<Longrightarrow> r \<in> set (recs_of (segs @ [s])) \<Longrightarrow> rec_lsn r < next_lsn W"
    "length acked = length tried \<Longrightarrow> durable C (segs @ [s]) \<and> (\<forall>t \<in> set (segs @ [s]). seg_tail t = [])"
  obtain s' where s': "log_rep C segs s' W'" "s' = s \<or> s' = synced_seg C s" and n: "next_lsn W' = next_lsn W"
    using step [OF I(1)] unfolding syncing_def by blast
  have eq: "seg_recs s' = seg_recs s" "seg_tail s' = seg_tail s" "seg_bytes C s' = seg_bytes C s"
    using s'(2) by (auto simp: synced_seg_def seg_bytes_def)
  have recs: "recs_of (segs @ [s']) = recs_of (segs @ [s])"
    by (simp add: eq)
  have tails: "(\<forall>t \<in> set (segs @ [s']). seg_tail t = []) \<longleftrightarrow> (\<forall>t \<in> set (segs @ [s]). seg_tail t = [])"
    by (simp add: eq)
  have "subseq (durable_recs C s) (durable_recs C s')"
    using s'(2) durable_recs_subseq [of C s] durable_recs_synced_seg [of C s] by auto
  from subseq_map [OF durable_of_last [OF this], of untimed segs]
  have acked: "subseq acked (map untimed (durable_of C (segs @ [s'])))"
    using I(2) subseq_order.trans by blast
  have "durable C (segs @ [s'])" if "durable C (segs @ [s])"
    using that s'(2) by (auto simp: durable_def) (simp add: synced_seg_def seg_bytes_def)
  then show ?thesis
    by (intro log_invI [OF s'(1) acked]; (unfold recs tails n)?; use I(3-7) in blast)
qed

lemma log_inv_environment:
  assumes "log_inv C W tried acked"
  shows "log_inv C (W\<lparr>wal_dir := (wal_dir W)\<lparr>dir_outcomes := ocs, dir_clock := ts\<rparr>, wal_net := x,
       stream_sink := sink, wal_sync_mode := mode, raft_handle := raft\<rparr>) tried acked"
proof -
  have "log_rep C segs s (W\<lparr>wal_dir := (wal_dir W)\<lparr>dir_outcomes := ocs, dir_clock := ts\<rparr>, wal_net := x,
       stream_sink := sink, wal_sync_mode := mode, raft_handle := raft\<rparr>) = log_rep C segs s W" for segs s
    by (simp add: log_rep_def dir_rep_def seg_in_def names_ok_def)
  then show ?thesis
    using assms by (simp add: log_inv_def)
qed

lemma advance_lsn_ge: "next_lsn W \<le> next_lsn (advance_lsn_to lsn W)"
  by (simp add: advance_lsn_to_def Let_def less_imp_le)

lemma log_inv_advanced:
  assumes "log_inv C W tried acked"
  shows "log_inv C (advance_lsn_to lsn W) tried acked"
proof -
  have "log_rep C segs s (advance_lsn_to lsn W) = log_rep C segs s W" for segs s
    by (simp add: log_rep_def advance_lsn_to_def Let_def)
  moreover have "n < next_lsn W \<Longrightarrow> n < next_lsn (advance_lsn_to lsn W)" for n
    using advance_lsn_ge [of W lsn] by (rule less_le_trans [rotated])
  ultimately show ?thesis
    using assms unfolding log_inv_def by metis
qed

lemma durable_fresh: "durable C [fresh_seg n]"
  by (simp add: durable_def fresh_seg_def seg_bytes_def)

lemma log_inv_fresh: "log_rep C [] (fresh_seg n) W \<Longrightarrow> log_inv C W [] []"
  using durable_fresh [of C n] by (intro log_invI [of C "[]" "fresh_seg n"]) (simp_all add: fresh_seg_def)

text \<open>The log of an empty directory.\<close>

lemma opened_empty:
  assumes "codec_ok C" "dir_files d = []" "calm d"
  obtains W where "open_with_segment_limit C limit x d = (Inr W, wal_dir W)" "wal_ok C [] (fresh_seg 0) W"
    "calm (wal_dir W)" "current_segment W = 0" "next_lsn W = 1" "\<not> raft_handle W" "stream_sink W = None"
    "segment_limit W = limit" "last_synced_lsn W = 0" "wal_net W = x"
proof -
  have "dir_rep C [] (d\<lparr>dir_present := True\<rparr>)"
    using assms(2) by (simp add: dir_rep_def names_ok_def hm_ok_def hm_get_def)
  then show ?thesis
    by (rule open_calm [OF assms(1) _ assms(3), of "[]" limit x])
       (rule that, simp_all add: open_segs_def fresh_seg_def max_lsn_def wal_ok_def)
qed

lemma log_inv_opened:
  assumes "codec_ok C" "dir_files d = []" "calm d" "open_with_segment_limit C limit x d = (Inr W, d')"
  shows "log_inv C W [] []"
proof -
  have "wal_ok C [] (fresh_seg 0) W"
    by (rule opened_empty [OF assms(1-3), of limit x]; use assms(4) in simp)
  then show ?thesis
    by (intro log_inv_fresh [of C 0]) (simp add: wal_ok_rep)
qed

lemma log_inv_truncated:
  assumes "log_inv C W tried acked" "calm (wal_dir W)" "wal_truncate W = (Inr (), W')"
  shows "log_inv C W' [] []"
proof -
  obtain segs s where "dir_rep C (segs @ [s]) (wal_dir W)"
    using assms(1) unfolding log_inv_def log_rep_def by blast
  then obtain d' where "W' = W\<lparr>wal_file := Some 0, current_segment := 0, wal_dir := d'\<rparr>" "dir_rep C [fresh_seg 0] d'"
    using truncate_calm [OF _ assms(2)] assms(3) by (metis Pair_inject)
  then show ?thesis
    by (intro log_inv_fresh [of C 0]) (simp add: log_rep_def fresh_seg_def)
qed

text \<open>The records after a crash.\<close>

lemma log_inv_crash:
  assumes C: "codec_ok C" and inv: "log_inv C W tried acked"
  obtains segs' where "dir_rep C segs' (crash kept (wal_dir W))" "segs' \<noteq> []" "durable C segs'"
    "subseq acked (map untimed (recs_of segs'))" "subseq (map untimed (recs_of segs')) tried"
    "sorted_wrt (<) (map rec_lsn (recs_of segs'))" "\<And>r. r \<in> set (recs_of segs') \<Longrightarrow> rec_lsn r \<noteq> - 1"
    "length acked = length tried \<Longrightarrow> \<forall>t \<in> set segs'. seg_tail t = []"
  using inv
proof (rule log_invE)
  fix segs s
  assume I: "log_rep C segs s W" "subseq acked (map untimed (durable_of C (segs @ [s])))"
    "subseq (map untimed (recs_of (segs @ [s]))) tried" "sorted_wrt (<) (map rec_lsn (recs_of (segs @ [s])))"
    "\<And>r. r \<in> set (recs_of (segs @ [s])) \<Longrightarrow> rec_lsn r \<noteq> - 1"
    "length acked = length tried \<Longrightarrow> durable C (segs @ [s]) \<and> (\<forall>t \<in> set (segs @ [s]). seg_tail t = [])"
  obtain segs' where segs': "list_all2 (crashed C) (segs @ [s]) segs'" "dir_rep C segs' (crash kept (wal_dir W))"
    using crash_rep [OF C] I(1) unfolding log_rep_def by blast
  have ne: "segs' \<noteq> []"
    using segs'(1) by auto
  have dur: "durable C segs'"
    using segs'(1) by (auto simp: durable_def list_all2_conv_all_nth in_set_conv_nth crashed_def)
  have "list_all2 (\<lambda>x y. subseq (durable_recs C x) (seg_recs y)) (segs @ [s]) segs'"
    "list_all2 (\<lambda>y x. subseq (seg_recs y) (seg_recs x)) segs' (segs @ [s])"
    using segs'(1) crashed_recs(2,3) unfolding list_all2_conv_all_nth by metis+
  then have kept: "subseq (durable_of C (segs @ [s])) (recs_of segs')" "subseq (recs_of segs') (recs_of (segs @ [s]))"
    by (simp_all only: subseq_concat)
  have same: "segs' = segs @ [s]" if "durable C (segs @ [s])"
    using segs'(1) that by (induction rule: list_all2_induct) (auto simp: durable_def crashed_def)
  show thesis
  proof (rule that [OF segs'(2) ne dur])
    show "subseq acked (map untimed (recs_of segs'))"
      using I(2) subseq_map [OF kept(1), of untimed] by (rule subseq_order.trans)
    show "subseq (map untimed (recs_of segs')) tried"
      using subseq_map [OF kept(2), of untimed] I(3) by (rule subseq_order.trans)
    show "sorted_wrt (<) (map rec_lsn (recs_of segs'))"
      using kept(2) I(4) by (rule sorted_subseq)
    show "rec_lsn r \<noteq> - 1" if "r \<in> set (recs_of segs')" for r
      using subseq_set [OF kept(2)] that I(5) by blast
    show "\<forall>t \<in> set segs'. seg_tail t = []" if "length acked = length tried"
      using I(6) [OF that] same by blast
  qed
qed

lemma max_lsn_bound:
  assumes "\<And>r. r \<in> set rs \<Longrightarrow> rec_lsn r \<noteq> - 1"
  shows "max_lsn rs \<noteq> - 1" "r \<in> set rs \<Longrightarrow> rec_lsn r < max_lsn rs + 1"
proof -
  show ne: "max_lsn rs \<noteq> - 1"
  proof (cases "rs = []")
    case False
    then have "rec_lsn ` set rs \<noteq> {}"
      by simp
    then obtain r where "r \<in> set rs" "Max (rec_lsn ` set rs) = rec_lsn r"
      using Max_in [of "rec_lsn ` set rs"] by blast
    then show ?thesis
      using assms False by (simp add: max_lsn_def)
  qed (simp add: max_lsn_def)
  assume "r \<in> set rs"
  then have "rec_lsn r \<le> max_lsn rs"
    by (auto simp: max_lsn_def)
  then show "rec_lsn r < max_lsn rs + 1"
    using word_inc(1) [OF ne] by simp
qed

lemma log_inv_restarted:
  assumes C: "codec_ok C" and inv: "log_inv C W tried acked" and calm: "calm (wal_dir W)"
    and run: "open_with_segment_limit C limit x (crash kept (wal_dir W)) = (Inr W', d')"
  shows "log_inv C W' tried acked"
  using C inv
proof (rule log_inv_crash)
  let ?d = "crash kept (wal_dir W)"
  fix segs'
  assume S: "dir_rep C segs' ?d" "segs' \<noteq> []" "durable C segs'"
    "subseq acked (map untimed (recs_of segs'))" "subseq (map untimed (recs_of segs')) tried"
    "sorted_wrt (<) (map rec_lsn (recs_of segs'))" "\<And>r. r \<in> set (recs_of segs') \<Longrightarrow> rec_lsn r \<noteq> - 1"
    "length acked = length tried \<Longrightarrow> \<forall>t \<in> set segs'. seg_tail t = []"
  have "dir_present ?d"
    using S(1) by (simp only: dir_rep_def)
  then have "?d\<lparr>dir_present := True\<rparr> = ?d"
    by simp
  moreover have "open_segs segs' = segs'"
    using S(2) by (simp add: open_segs_def)
  ultimately obtain W1 where W1: "open_with_segment_limit C limit x ?d = (Inr W1, wal_dir W1)"
    "dir_rep C segs' (wal_dir W1)" "wal_file W1 = Some (seg_no (last segs'))" "current_segment W1 = seg_no (last segs')"
    "next_lsn W1 = max_lsn (log_of C segs') + 1"
    using open_calm [OF C, of segs' ?d limit x] S(1) calm by auto
  obtain segs s where split: "segs' = segs @ [s]"
    using S(2) by (cases segs' rule: rev_cases) auto
  have rep: "log_rep C segs s W'"
    using run W1 by (simp add: log_rep_def split)
  have "durable_of C segs' = recs_of segs'"
    using S(3) durable_recs_synced by (intro arg_cong [where f = concat] map_cong) (auto simp: durable_def)
  then have acked: "subseq acked (map untimed (durable_of C (segs @ [s])))"
    using S(4) by (simp only: split)
  have bound: "rec_lsn r < next_lsn W'" if "\<forall>t \<in> set segs'. seg_tail t = []" "r \<in> set (recs_of segs')" for r
    using max_lsn_bound(2) [of "recs_of segs'" r] S(7) that run W1(1,5) log_of_no_tail [of segs' C] by auto
  show ?thesis
    by (rule log_invI [OF rep acked]; (fold split)?; use S bound in blast)
qed

lemma log_history_inv:
  assumes "log_history C X W tried acked" "codec_ok C"
  shows "log_inv C W tried acked"
  using assms
proof (induction rule: log_history.induct)
  case (opened d limit x W d')
  then show ?case by (metis log_inv_opened)
next
  case environment
  then show ?case by (metis log_inv_environment)
next
  case (appended W tried acked r res W')
  then show ?case
    using log_inv_logged [OF _ appended.hyps(4,6)] append_logged [OF appended.prems _ appended.hyps(3,5,2)] by blast
next
  case (committed W tried acked r res W')
  show ?case
  proof (cases "res = Inr ()")
    case True
    then show ?thesis
      using log_inv_acknowledged [OF committed.prems committed.IH [OF committed.prems] committed.hyps(4,6) _ committed.hyps(3,5)]
        committed.hyps(2) by simp
  next
    case False
    have "log_inv C W' (tried @ [r\<lparr>rec_lsn := next_lsn W, rec_timestamp_us := 0\<rparr>]) acked"
      using log_inv_logged [OF committed.IH [OF committed.prems] committed.hyps(4,6)]
        append_and_sync_logged [OF committed.prems _ committed.hyps(3,5,2)] by blast
    then show ?thesis
      using False by simp
  qed
next
  case (synced W tried acked res W')
  then show ?case
    using log_inv_sync wal_sync_rep by blast
next
  case (grouped W tried acked lsns res W')
  then show ?case
    using log_inv_sync sync_to_lsn_rep unfolding flush_group_def by blast
next
  case advanced
  then show ?case by (metis log_inv_advanced)
next
  case truncated
  then show ?case by (metis log_inv_truncated)
next
  case restarted
  then show ?case by (metis log_inv_restarted)
qed

lemma recs_in_log: "subseq (recs_of segs) (log_of C segs)"
  unfolding log_of_def by (rule subseq_concat) (simp add: list.rel_refl subseq_rev_drop_many)

text \<open>Without failing calls a commit is acknowledged.\<close>

lemma open_segment_calm_run: "calm d \<Longrightarrow> \<exists>d'. open_segment n d = (Inr (), d') \<and> calm d'"
  by (auto simp: open_segment_def calm_call calm_def split: option.split)

lemma append_calm:
  assumes "calm (wal_dir W)"
  shows "\<exists>W'. wal_append C r W = (Inr (), W') \<and> calm (wal_dir W') \<and> stream_sink W' = stream_sink W"
proof (cases "wal_file W")
  case None
  then show ?thesis
    using assms by (simp add: wal_append_def maybe_rotate_def io_bind_def)
next
  case (Some n)
  have size: "segment_size n (wal_dir W) = (Inr (length (file_data (segment_file (wal_dir W) n))), wal_dir W)"
    using assms by (simp add: segment_size_def calm_call)
  obtain d1 where "open_segment (current_segment W + 1) (wal_dir W) = (Inr (), d1)" "calm d1"
    using open_segment_calm_run [OF assms] by blast
  then obtain W1 n1 where rot: "maybe_rotate W = (Inr (), W1)" "wal_file W1 = Some n1" "calm (wal_dir W1)" "stream_sink W1 = stream_sink W"
    using assms Some by (cases "unat (segment_limit W) \<le> length (file_data (segment_file (wal_dir W) n))")
      (auto simp: maybe_rotate_eq [OF Some] size)
  obtain t d2 where now: "now_us (wal_dir W1) = (Inr t, d2)"
    using now_us_same by (metis surj_pair)
  then have "calm d2"
    using rot(3) by (auto simp: now_us_def calm_def split: list.splits)
  then show ?thesis
    using rot by (simp add: append_eq [OF rot(1,2)] now append_bytes_def calm_call Let_def)
qed

lemma sync_calm:
  assumes "calm (wal_dir W)"
  shows "\<exists>W'. wal_sync W = (Inr (), W') \<and> calm (wal_dir W') \<and> stream_sink W' = stream_sink W
    \<and> wal_sync_mode W' = wal_sync_mode W \<and> wal_net W' = wal_net W"
  using assms by (cases "wal_file W") (auto simp: wal_sync_def on_dir_def sync_segment_def calm_call Let_def)

lemma append_and_sync_calm:
  assumes "calm (wal_dir W)" "\<not> raft_handle W" "stream_sink W = None"
  shows "\<exists>W'. append_and_sync C X r W = (Inr (), W') \<and> calm (wal_dir W')"
proof -
  obtain W1 where W1: "wal_append C r W = (Inr (), W1)" "calm (wal_dir W1)" "stream_sink W1 = None"
    using append_calm [OF assms(1), of C r] assms(3) by auto
  then have "\<exists>W2. wal_sync W1 = (Inr (), W2) \<and> calm (wal_dir W2) \<and> stream_sink W2 = None"
    using sync_calm by metis
  then show ?thesis
    using W1 assms(2) by (auto simp: append_and_sync_def propose_to_raft_def stream_to_replica_def)
qed

text \<open>C4. Acknowledged records survive. In every history, in which any write, sync, rotation, Raft proposal or
  replication may fail and the machine may crash and restart any number of times, every record whose
  \<open>append_and_sync\<close> returned since the last truncation is in the log read after a crash, in order and with
  its sequence number, and these numbers increase strictly. When no call failed and nothing was
  appended without a sync, the log is exactly the acknowledged records; otherwise, unless the crash left an
  unfinished line, it consists of records that were handed to the log, with increasing numbers. Histories
  start with an empty directory, open and truncate the log without failing calls, and hand no record to a log that
  has an unfinished line; what happens then is stated further below.\<close>

theorem acknowledged_records_survive:
  assumes "codec_ok C" "log_history C X W tried acked" "calm (wal_dir W)"
  shows "\<exists>log. fst (read_all C (crash kept (wal_dir W))) = Inr log \<and> subseq acked (map untimed log)
    \<and> sorted_wrt (<) (map rec_lsn acked) \<and> (tried = acked \<longrightarrow> map untimed log = acked)
    \<and> (whole_lines (crash kept (wal_dir W)) \<longrightarrow> subseq (map untimed log) tried \<and> sorted_wrt (<) (map rec_lsn log))"
  using assms(1) log_history_inv [OF assms(2,1)]
proof (rule log_inv_crash)
  let ?d = "crash kept (wal_dir W)"
  fix segs
  assume S: "dir_rep C segs ?d" "subseq acked (map untimed (recs_of segs))" "subseq (map untimed (recs_of segs)) tried"
    "sorted_wrt (<) (map rec_lsn (recs_of segs))" "length acked = length tried \<Longrightarrow> \<forall>t \<in> set segs. seg_tail t = []"
  have "fst (read_all C ?d) = Inr (log_of C segs)"
    using read_all_calm [OF assms(1) S(1)] assms(3) by simp
  moreover have "subseq acked (map untimed (log_of C segs))"
    using S(2) subseq_map [OF recs_in_log, of untimed] by (rule subseq_order.trans)
  moreover have "sorted_wrt (<) (map rec_lsn acked)"
    using sorted_subseq [OF S(2), of "(<)" rec_lsn] S(4) by (simp add: comp_def)
  moreover have "map untimed (log_of C segs) = acked" if "tried = acked"
    using S(2,3,5) that log_of_no_tail [of segs C] subseq_order.antisym by fastforce
  moreover have "subseq (map untimed (log_of C segs)) tried \<and> sorted_wrt (<) (map rec_lsn (log_of C segs))" if "whole_lines ?d"
    using S(3,4) log_of_no_tail [OF whole_tails [OF S(1) that]] by simp
  ultimately show ?thesis by blast
qed

definition empty_dir :: log_dir where
  "empty_dir = \<lparr>dir_present = False, dir_files = [], dir_outcomes = [], dir_clock = []\<rparr>"

definition no_peers :: "unit peers" where
  "no_peers = \<lparr>raft_propose = (\<lambda>_ x. (Inr (), x)), sink_stream = (\<lambda>_ x. (Inr (), x)), sink_sync_wait = (\<lambda>x. (Inr (), x))\<rparr>"

lemma empty_dir_facts: "dir_files empty_dir = []" "calm empty_dir"
  by (simp_all add: empty_dir_def calm_def)

lemmas empty_dir_opens = opened_empty [OF sample_codec_ok empty_dir_facts]

text \<open>A commit is acknowledged; then a call fails while the next record is appended; then the machine crashes.\<close>

theorem acknowledged_records_survive_witness:
  "\<exists>W W' e. append_and_sync sample_codec no_peers (rec_autocommit [65]) W = (Inr (), W')
     \<and> fst (wal_append sample_codec (rec_begin 4) (W'\<lparr>wal_dir := (wal_dir W')\<lparr>dir_outcomes := [Io_Fails 3]\<rparr>\<rparr>)) = Inl e
     \<and> (\<exists>W3 log. log_history sample_codec no_peers W3
            [(rec_autocommit [65])\<lparr>rec_lsn := 1\<rparr>, (rec_begin 4)\<lparr>rec_lsn := 2\<rparr>] [(rec_autocommit [65])\<lparr>rec_lsn := 1\<rparr>]
          \<and> fst (read_all sample_codec (crash synced_only (wal_dir W3))) = Inr log
          \<and> subseq [(rec_autocommit [65])\<lparr>rec_lsn := 1\<rparr>] (map untimed log))"
proof -
  let ?A = "rec_autocommit [65]" and ?B = "rec_begin 4"
  obtain W :: "unit wal" where W: "open_with_segment_limit sample_codec 64 () empty_dir = (Inr W, wal_dir W)" "calm (wal_dir W)"
    "wal_ok sample_codec [] (fresh_seg 0) W" "current_segment W = 0" "next_lsn W = 1" "\<not> raft_handle W" "stream_sink W = None"
    "segment_limit W = 64"
    by (rule empty_dir_opens)
  obtain W' where W': "append_and_sync sample_codec no_peers ?A W = (Inr (), W')" "calm (wal_dir W')"
    using append_and_sync_calm [OF W(2,6,7)] by blast
  have recs: "rec_ok ?A" "rec_ok ?B"
    by (simp_all add: rec_ok_def rec_autocommit_def rec_begin_def ascii_utf8_ok is_ascii_def)
  have ar: "after_rotation sample_codec W [] (fresh_seg 0) = ([], fresh_seg 0)"
    by (simp add: after_rotation_def W(8) fresh_seg_def seg_bytes_def)
  obtain time where ok: "wal_ok sample_codec [] (synced_seg sample_codec (add_record (stored (next_lsn W) time ?A) (fresh_seg 0))) W'"
    and lsn: "next_lsn W' = next_lsn W + 1"
    "current_segment W' = (if length (seg_bytes sample_codec (fresh_seg 0)) < unat (segment_limit W) then current_segment W else current_segment W + 1)"
    by (rule append_and_sync_ok [OF W(3) recs(1) _ W'(1) ar]) (use W(4) in simp)
  have hist: "log_history sample_codec no_peers W [] []"
    by (rule log_history.opened [OF _ _ W(1)]) (simp_all add: empty_dir_def calm_def)
  have whole: "whole_lines (wal_dir W)" "whole_lines (wal_dir W')"
    using whole_linesI [of sample_codec "[fresh_seg 0]"] W(3) whole_linesI [of sample_codec "[_]" "wal_dir W'"] ok
    by (auto simp: wal_ok_def synced_seg_def add_record_def fresh_seg_def)
  let ?A1 = "?A\<lparr>rec_lsn := 1\<rparr>" and ?B2 = "?B\<lparr>rec_lsn := 2\<rparr>"
  have hist1: "log_history sample_codec no_peers W' [?A1] [?A1]"
    using log_history.committed [OF hist W'(1) recs(1) whole(1)] W(4,5) by (simp add: rec_autocommit_def)
  let ?W = "W'\<lparr>wal_dir := (wal_dir W')\<lparr>dir_outcomes := [Io_Fails 3]\<rparr>\<rparr>"
  have hist2: "log_history sample_codec no_peers ?W [?A1] [?A1]"
    using log_history.environment [OF hist1, where ocs = "[Io_Fails 3]" and ts = "dir_clock (wal_dir W')" and x = "wal_net W'"
        and sink = "stream_sink W'" and mode = "wal_sync_mode W'" and raft = "raft_handle W'"]
    by (cases W') simp
  obtain n where n: "wal_file ?W = Some n"
    using ok by (simp add: wal_ok_def)
  have "fst (maybe_rotate ?W) = Inl Wal_Os_Error"
    by (simp add: maybe_rotate_eq [OF n] segment_size_def dir_call_ok_def dir_call_def io_bind_def)
  then have fails: "fst (wal_append sample_codec ?B ?W) = Inl Wal_Os_Error"
    by (cases "maybe_rotate ?W") (simp add: wal_append_def)
  have "whole_lines (wal_dir ?W)" "current_segment ?W \<noteq> - 1" "next_lsn ?W = 2"
    using whole(2) lsn W(4,5) by (simp_all add: whole_lines_def fresh_seg_def seg_bytes_def W(8))
  then have "log_history sample_codec no_peers (snd (wal_append sample_codec ?B ?W)) ([?A1] @ [?B2\<lparr>rec_timestamp_us := 0\<rparr>]) [?A1]"
    using log_history.appended [OF hist2 prod.collapse [symmetric] recs(2)] by simp
  then have hist3: "log_history sample_codec no_peers (snd (wal_append sample_codec ?B ?W)) [?A1, ?B2] [?A1]"
    by (simp add: rec_begin_def)
  let ?V = "snd (wal_append sample_codec ?B ?W)"
  let ?W3 = "?V\<lparr>wal_dir := (wal_dir ?V)\<lparr>dir_outcomes := [], dir_clock := []\<rparr>, wal_net := (), stream_sink := None,
    wal_sync_mode := Asynchronous, raft_handle := False\<rparr>"
  have hist4: "log_history sample_codec no_peers ?W3 [?A1, ?B2] [?A1]" and calm: "calm (wal_dir ?W3)"
    using log_history.environment [OF hist3] by (simp_all add: calm_def)
  show ?thesis
    using acknowledged_records_survive [OF sample_codec_ok hist4 calm, of synced_only] W'(1) fails hist4 by blast
qed

section \<open>What a crash leaves\<close>

text \<open>C5. After a crash every segment holds a prefix of its records that contains those whose lines were durable,
  followed by at most one record read from the unfinished line; the log is always readable.\<close>

theorem crash_keeps_durable_records:
  assumes "codec_ok C" "dir_rep C segs d" "calm d"
  shows "\<exists>outs. fst (read_all C (crash kept d)) = Inr (concat outs)
    \<and> list_all2 (\<lambda>s out. \<exists>j junk. out = take j (seg_recs s) @ junk \<and> length junk \<le> 1
         \<and> (\<forall>k \<le> length (seg_recs s). length (lines_of C (take k (seg_recs s))) \<le> seg_synced s \<longrightarrow> k \<le> j)) segs outs"
proof -
  obtain segs' where segs': "list_all2 (crashed C) segs segs'" "dir_rep C segs' (crash kept d)"
    using crash_rep [OF assms(1,2)] by blast
  let ?out = "\<lambda>s. seg_recs s @ torn_records C (seg_tail s)"
  have "fst (read_all C (crash kept d)) = Inr (concat (map ?out segs'))"
    using read_all_calm [OF assms(1) segs'(2)] assms(3) by (simp add: log_of_def)
  moreover have "length (torn_records C t) \<le> 1" for t
    by (simp add: torn_records_def split: option.split)
  then have "list_all2 (\<lambda>s out. \<exists>j junk. out = take j (seg_recs s) @ junk \<and> length junk \<le> 1
         \<and> (\<forall>k \<le> length (seg_recs s). length (lines_of C (take k (seg_recs s))) \<le> seg_synced s \<longrightarrow> k \<le> j)) segs (map ?out segs')"
    unfolding list.rel_map by (intro list_all2_mono [OF segs'(1)]) (auto simp: crashed_def)
  ultimately show ?thesis
    by blast
qed

text \<open>A commit and a record appended after it that is not synced: the crash may tear or drop the second, and keeps
  the first.\<close>

theorem crash_keeps_durable_records_witness:
  "\<exists>(W :: unit wal) W1 W2 time log. append_and_sync sample_codec no_peers (rec_autocommit [65]) W = (Inr (), W1)
     \<and> wal_append sample_codec (rec_begin 4) W1 = (Inr (), W2)
     \<and> fst (read_all sample_codec (crash (\<lambda>_. 3) (wal_dir W2))) = Inr log
     \<and> log \<noteq> [] \<and> hd log = stored 1 time (rec_autocommit [65])"
proof -
  let ?C = sample_codec and ?A = "rec_autocommit [65]" and ?B = "rec_begin 4"
  obtain W :: "unit wal" where W: "wal_ok ?C [] (fresh_seg 0) W" "calm (wal_dir W)" "current_segment W = 0" "next_lsn W = 1"
    "\<not> raft_handle W" "stream_sink W = None" "segment_limit W = 64"
    by (rule empty_dir_opens [where limit = 64 and x = "()"])
  obtain W1 where W1: "append_and_sync ?C no_peers ?A W = (Inr (), W1)" "calm (wal_dir W1)"
    using append_and_sync_calm [OF W(2,5,6)] by blast
  have recs: "rec_ok ?A" "rec_ok ?B"
    by (simp_all add: rec_ok_def rec_autocommit_def rec_begin_def ascii_utf8_ok is_ascii_def)
  have ar: "after_rotation ?C W [] (fresh_seg 0) = ([], fresh_seg 0)"
    by (simp add: after_rotation_def W(7) fresh_seg_def seg_bytes_def)
  obtain time where ok1: "wal_ok ?C [] (synced_seg ?C (add_record (stored 1 time ?A) (fresh_seg 0))) W1" and cur: "current_segment W1 = 0"
    by (rule append_and_sync_ok [OF W(1) recs(1) _ W1(1) ar]) (use W in \<open>simp_all add: fresh_seg_def seg_bytes_def\<close>)
  let ?s1 = "synced_seg ?C (add_record (stored 1 time ?A) (fresh_seg 0))"
  obtain W2 where W2: "wal_append ?C ?B W1 = (Inr (), W2)" "calm (wal_dir W2)"
    using append_calm [OF W1(2)] by blast
  obtain segs s where ar1: "after_rotation ?C W1 [] ?s1 = (segs, s)"
    by fastforce
  obtain time2 where "wal_ok ?C segs (add_record (stored (next_lsn W1) time2 ?B) s) W2"
    by (rule append_ok [OF ok1 recs(2) _ W2(1) ar1]) (use cur in simp)
  then have rep: "dir_rep ?C (segs @ [add_record (stored (next_lsn W1) time2 ?B) s]) (wal_dir W2)"
    by (simp add: wal_ok_def)
  have shape: "\<exists>t ts. segs @ [add_record (stored (next_lsn W1) time2 ?B) s] = t # ts \<and> seg_synced t = seg_synced ?s1 \<and> (\<exists>xs. seg_recs t = stored 1 time ?A # xs)"
    using ar1 by (auto simp: after_rotation_def add_record_def fresh_seg_def synced_seg_def split: if_splits)
  then obtain t ts xs where t: "segs @ [add_record (stored (next_lsn W1) time2 ?B) s] = t # ts" "seg_synced t = seg_synced ?s1"
    "seg_recs t = stored 1 time ?A # xs"
    by blast
  obtain outs where outs: "fst (read_all ?C (crash (\<lambda>_. 3) (wal_dir W2))) = Inr (concat outs)"
    "list_all2 (\<lambda>s out. \<exists>j junk. out = take j (seg_recs s) @ junk \<and> length junk \<le> 1
         \<and> (\<forall>k \<le> length (seg_recs s). length (lines_of ?C (take k (seg_recs s))) \<le> seg_synced s \<longrightarrow> k \<le> j)) (t # ts) outs"
    using crash_keeps_durable_records [OF sample_codec_ok rep W2(2), of "\<lambda>_. 3"] unfolding t(1) by blast
  then obtain j junk outs' where o: "outs = (take j (seg_recs t) @ junk) # outs'"
    "\<forall>k \<le> length (seg_recs t). length (lines_of ?C (take k (seg_recs t))) \<le> seg_synced t \<longrightarrow> k \<le> j"
    by (auto simp: list_all2_Cons1)
  have "1 \<le> j"
    using o(2) [rule_format, of 1] t(2,3) by (simp add: synced_seg_def add_record_def fresh_seg_def seg_bytes_def)
  then have "concat outs \<noteq> [] \<and> hd (concat outs) = stored 1 time ?A"
    using o(1) t(3) by (cases j) auto
  then show ?thesis
    using W1(1) W2(1) outs(1) by blast
qed

section \<open>Lines\<close>

text \<open>C27. A log line reads back as the record it was written for, with the sequence number and time it was given,
  and so does a file of such lines, in order.\<close>

theorem record_lines_roundtrip:
  assumes "codec_ok C" "\<forall>(lsn, time, r) \<in> set xs. utf8_ok (rec_sql r)"
  shows "read_lines C (split_lines (concat (map (\<lambda>(lsn, time, r). record_line C lsn time r) xs)))
      = Inr (map (\<lambda>(lsn, time, r). r\<lparr>rec_lsn := lsn, rec_timestamp_us := time\<rparr>) xs)"
proof -
  let ?rs = "map (\<lambda>(lsn, time, r). stored lsn time r) xs"
  have "concat (map (\<lambda>(lsn, time, r). record_line C lsn time r) xs) = lines_of C ?rs"
    by (induction xs) (auto simp: record_line_stored)
  moreover have "list_all rec_ok ?rs"
    using assms(2) by (auto simp: list_all_iff rec_ok_def stored_def)
  ultimately have "read_lines C (split_lines (concat (map (\<lambda>(lsn, time, r). record_line C lsn time r) xs))) = Inr ?rs"
    using read_lines_ok [OF assms(1), of ?rs "[]"] by (simp add: torn_records_def)
  then show ?thesis
    by (simp only: stored_def)
qed

theorem record_lines_roundtrip_witness:
  "read_lines sample_codec (split_lines (record_line sample_codec 1 7 (rec_change 3 (RowInsert 1 0 2 [5, 6]))
       @ record_line sample_codec 2 8 (rec_commit 3)))
     = Inr [(rec_change 3 (RowInsert 1 0 2 [5, 6]))\<lparr>rec_lsn := 1, rec_timestamp_us := 7\<rparr>,
            (rec_commit 3)\<lparr>rec_lsn := 2, rec_timestamp_us := 8\<rparr>]"
  using record_lines_roundtrip [OF sample_codec_ok, of "[(1, 7, rec_change 3 (RowInsert 1 0 2 [5, 6])), (2, 8, rec_commit 3)]"]
  by (simp add: rec_change_def rec_commit_def ascii_utf8_ok is_ascii_def)

section \<open>Sequence numbers\<close>

text \<open>C28. Sequence numbers: after \<open>advance_lsn_to\<close> with the number of a checkpoint, the next record appended is
  read back with a number above it and not below the counter, except that the number \<open>u64::MAX\<close> is used as
  any other and the counter then wraps to 0.\<close>

theorem appended_lsn_bounds:
  assumes "codec_ok C" "wal_ok C segs s W" "rec_ok r" "current_segment W \<noteq> - 1"
    and "wal_append C r (advance_lsn_to lsn W) = (Inr (), W')" "calm (wal_dir W')"
  shows "\<exists>log x. fst (read_all C (wal_dir W')) = Inr (log @ [x]) \<and> rec_sql x = rec_sql r
    \<and> next_lsn W \<le> rec_lsn x \<and> (lsn \<noteq> - 1 \<longrightarrow> lsn < rec_lsn x) \<and> lsn \<le> rec_lsn x \<and> next_lsn W' = rec_lsn x + 1
    \<and> (if rec_lsn x = - 1 then current_lsn W' = 0 else current_lsn W' = rec_lsn x)"
proof -
  let ?W = "advance_lsn_to lsn W"
  have "wal_ok C segs s ?W" "current_segment ?W \<noteq> - 1"
    using assms(2,4) by (simp_all add: wal_ok_def advance_lsn_to_def Let_def)
  moreover obtain segs' s' where "after_rotation C ?W segs s = (segs', s')"
    by fastforce
  ultimately obtain time where ok: "wal_ok C segs' (add_record (stored (next_lsn ?W) time r) s') W'"
    and lsn': "next_lsn W' = next_lsn ?W + 1"
    using append_ok [OF _ assms(3) _ assms(5)] by blast
  let ?x = "stored (next_lsn ?W) time r"
  have "dir_rep C (segs' @ [add_record ?x s']) (wal_dir W')" "seg_tail s' = []"
    using ok by (simp_all add: wal_ok_def add_record_def)
  then have "fst (read_all C (wal_dir W')) = Inr ((log_of C segs' @ seg_recs s') @ [?x])"
    using read_all_calm [OF assms(1) _ assms(6)] by (simp add: log_of_def add_record_def torn_records_def)
  moreover have "next_lsn W \<le> next_lsn ?W" "lsn \<noteq> - 1 \<longrightarrow> lsn < next_lsn ?W" "lsn \<le> next_lsn ?W"
    using word_inc [of lsn]
    by (auto simp: advance_lsn_to_def Let_def word_less_nat_alt word_le_nat_alt split: if_splits)
  moreover have "if next_lsn ?W = - 1 then current_lsn W' = 0 else current_lsn W' = next_lsn ?W"
    using lsn' by (auto simp: current_lsn_def eq_neg_iff_add_eq_0)
  ultimately show ?thesis
    using lsn' by (intro exI [of _ "log_of C segs' @ seg_recs s'"] exI [of _ ?x]) (simp add: stored_def)
qed

theorem appended_lsn_bounds_witness:
  "\<exists>(W :: unit wal) W'. wal_append sample_codec (rec_begin 4) (advance_lsn_to 9 W) = (Inr (), W')
     \<and> (\<exists>log x. fst (read_all sample_codec (wal_dir W')) = Inr (log @ [x]) \<and> 9 < rec_lsn x)"
proof -
  obtain W :: "unit wal" where W: "calm (wal_dir W)" "wal_ok sample_codec [] (fresh_seg 0) W" "current_segment W = 0"
    by (rule empty_dir_opens [where limit = 64 and x = "()"])
  have "calm (wal_dir (advance_lsn_to 9 W))"
    using W(1) by (simp add: advance_lsn_to_def Let_def)
  then obtain W' where W': "wal_append sample_codec (rec_begin 4) (advance_lsn_to 9 W) = (Inr (), W')" "calm (wal_dir W')"
    using append_calm by blast
  have "rec_ok (rec_begin 4)" "current_segment W \<noteq> - 1"
    using W(3) by (simp_all add: rec_ok_def rec_begin_def ascii_utf8_ok is_ascii_def)
  then show ?thesis
    using appended_lsn_bounds [OF sample_codec_ok W(2) _ _ W'] W'(1)
    by (intro exI [of _ W] exI [of _ W']) auto
qed

section \<open>Commits that are lost\<close>

text \<open>C33. After a truncation that failed, the handle stays closed: every later commit is acknowledged without
  writing anything.\<close>

theorem failed_truncate_swallows_commits:
  assumes "wal_truncate W = (Inl e, W1)" "\<not> raft_handle W" "stream_sink W = None"
  shows "fst (io_each (append_and_sync C X) rs W1) = Inr ()
    \<and> wal_dir (snd (io_each (append_and_sync C X) rs W1)) = wal_dir W1"
proof -
  have step: "append_and_sync C X r V = (Inr (), V\<lparr>last_synced_lsn := current_lsn V\<rparr>)"
    if "wal_file V = None" "\<not> raft_handle V" "stream_sink V = None" for V :: "'a wal" and r
    using that by (simp add: append_and_sync_def propose_to_raft_def wal_append_def maybe_rotate_def wal_sync_def
        stream_to_replica_def io_bind_def current_lsn_def)
  have "wal_file W1 = None" "\<not> raft_handle W1" "stream_sink W1 = None"
    using assms by (auto simp: wal_truncate_def io_bind_def on_dir_def split: prod.splits sum.splits)
  then show ?thesis
  proof (induction rs arbitrary: W1)
    case (Cons r rs)
    then show ?case
      using Cons.IH [of "W1\<lparr>last_synced_lsn := current_lsn W1\<rparr>"] by (simp add: step)
  qed simp
qed

definition failing_dir :: log_dir where
  "failing_dir = \<lparr>dir_present = True, dir_files = [], dir_outcomes = [Io_Ok, Io_Fails 0], dir_clock = []\<rparr>"

theorem failed_truncate_swallows_commits_witness:
  "let W1 = snd (wal_truncate (wal_of 0 64 failing_dir ()))
   in fst (wal_truncate (wal_of 0 64 failing_dir ())) = Inl Wal_Os_Error
      \<and> fst (io_each (append_and_sync sample_codec no_peers) [rec_commit 1] W1) = Inr ()
      \<and> wal_dir (snd (io_each (append_and_sync sample_codec no_peers) [rec_commit 1] W1)) = wal_dir W1"
proof -
  let ?W = "wal_of 0 64 failing_dir ()"
  have fails: "fst (wal_truncate ?W) = Inl Wal_Os_Error"
    by (simp add: wal_truncate_def on_dir_def list_segments_def dir_call_def dir_call_ok_def wal_of_def failing_dir_def io_bind_def)
  then have run: "wal_truncate ?W = (Inl Wal_Os_Error, snd (wal_truncate ?W))"
    by (simp add: prod_eq_iff)
  show ?thesis
    unfolding Let_def using failed_truncate_swallows_commits [OF run, of sample_codec no_peers "[rec_commit 1]"] fails
    by (simp only: wal_of_def wal.simps not_False_eq_True simp_thms)
qed

lemma get_put_segment:
  "hm_get (dir_files (put_segment n f d)) (segment_path m) = (if m = n then Some f else hm_get (dir_files d) (segment_path m))"
  by (simp add: put_segment_def hm_simps)

lemma merged_line_dropped:
  assumes "xxh3_64 C (t @ data_line C lsn time r) \<noteq> xxh3_64 C (data_line C lsn time r)"
  shows "parse_line C (t @ line_body C (stored lsn time r)) = None"
proof -
  let ?d = "data_line C lsn time r"
  have body: "t @ line_body C (stored lsn time r) = (t @ ?d) @ pipe # show_hex16 (xxh3_64 C ?d)"
    by (simp add: line_body_def Let_def stored_def data_line_def)
  have "split_checksum (t @ line_body C (stored lsn time r)) = (t @ ?d, Some (show_hex16 (xxh3_64 C ?d)))"
    unfolding body split_checksum_def by (simp only: rsplit_once_field [OF field_no_pipe(2)])
      (simp add: list_all_iff show_hex16_digits)
  then show ?thesis
    using assms by (simp add: parse_line_def checksum_ok_def parse_show_hex16)
qed

lemma read_merged_line:
  assumes "codec_ok C" "list_all rec_ok rs" "printable t"
    and "xxh3_64 C (t @ data_line C lsn time r) \<noteq> xxh3_64 C (data_line C lsn time r)"
  shows "read_lines C (split_lines (lines_of C rs @ t @ stored_line C (stored lsn time r))) = Inr rs"
proof -
  let ?l = "t @ line_body C (stored lsn time r)"
  have p: "printable ?l"
    using assms(3) line_body_printable [OF assms(1)] by simp
  then have "split_lines (t @ stored_line C (stored lsn time r)) = [?l]"
    using split_printable_line [of ?l "[]"] by (simp add: stored_line_def)
  then show ?thesis
    using ascii_utf8_ok [OF printable_ascii [OF p]] merged_line_dropped [OF assms(4)]
    by (simp add: read_lines_prefix [OF assms(1,2)])
qed

text \<open>C31. An unfinished line is not repaired on opening. Let the handle be on a last segment that ends in an
  unfinished line and is below its size limit, with no Raft handle and no sink. Then \<open>append_and_sync\<close>, all of
  whose calls succeed, acknowledges the record, but its line continues the unfinished one and is dropped on
  reading, because its checksum does not cover the old part: the log reads as if nothing had been written.
  The checksums of the two byte strings are taken to differ, as they do unless xxh3 happens to collide.\<close>

theorem torn_line_swallows_commit:
  assumes C: "codec_ok C" and rep: "dir_rep C (segs @ [s]) (wal_dir W)" and handle: "wal_file W = Some (seg_no s)"
    and calm: "calm (wal_dir W)" and now: "now_us (wal_dir W) = (Inr time, d1)" and plain: "\<not> raft_handle W" "stream_sink W = None"
    and torn: "seg_tail s \<noteq> []" and small: "length (seg_bytes C s) < unat (segment_limit W)"
    and sums: "xxh3_64 C (seg_tail s @ data_line C (next_lsn W) time r) \<noteq> xxh3_64 C (data_line C (next_lsn W) time r)"
  shows "\<exists>W'. append_and_sync C X r W = (Inr (), W') \<and> fst (read_all C (wal_dir W')) = Inr (log_of C segs @ seg_recs s)"
proof -
  let ?n = "seg_no s" and ?d = d1 and ?r = "stored (next_lsn W) time r"
  let ?bytes = "seg_bytes C s @ stored_line C ?r"
  let ?f = "\<lparr>file_data = ?bytes, synced_len = seg_synced s\<rparr>"
  let ?g = "\<lparr>file_data = ?bytes, synced_len = length ?bytes\<rparr>"
  let ?d' = "put_segment ?n ?g (put_segment ?n ?f ?d)"
  have same: "same_log (wal_dir W) d1" and calm1: "calm d1"
    using now_us_same [OF now] calm now by (auto simp: now_us_def calm_def split: list.splits)
  have rep1: "dir_rep C (segs @ [s]) d1"
    using rep dir_rep_same [OF same] by simp
  have seg_file: "segment_file ?d ?n = \<lparr>file_data = seg_bytes C s, synced_len = seg_synced s\<rparr>"
    by (rule dir_rep_last [OF rep1])
  have rot: "maybe_rotate W = (Inr (), W)"
    using small by (simp add: maybe_rotate_eq [OF handle] segment_size_def calm_call [OF calm] dir_rep_last [OF rep])
  have app: "wal_append C r W = (Inr (), W\<lparr>next_lsn := next_lsn W + 1, wal_dir := put_segment ?n ?f ?d\<rparr>)"
    by (simp add: append_eq [OF rot handle] now append_bytes_def calm_call [OF calm1] Let_def seg_file record_line_stored)
  have "segment_file (put_segment ?n ?f ?d) ?n = ?f"
    by (simp add: segment_file_def put_segment_def hm_simps)
  then have sync: "wal_sync (W\<lparr>next_lsn := next_lsn W + 1, wal_dir := put_segment ?n ?f ?d\<rparr>) =
      (Inr (), W\<lparr>next_lsn := next_lsn W + 1, wal_dir := ?d', last_synced_lsn := current_lsn (W\<lparr>next_lsn := next_lsn W + 1\<rparr>)\<rparr>)"
    using handle calm1 by (simp add: wal_sync_def on_dir_def sync_segment_def calm_call Let_def current_lsn_def)
  have run: "append_and_sync C X r W =
      (Inr (), W\<lparr>next_lsn := next_lsn W + 1, wal_dir := ?d', last_synced_lsn := current_lsn (W\<lparr>next_lsn := next_lsn W + 1\<rparr>)\<rparr>)"
    using plain by (simp add: append_and_sync_def propose_to_raft_def app sync stream_to_replica_def)
  have "read_all C ?d' = (Inr (log_of C segs @ seg_recs s), ?d')"
  proof -
    have names: "dir_names (map seg_no (segs @ [s])) ?d'"
      using dir_rep_names [OF rep1] by (intro dir_names_put) simp_all
    have "seg_no t \<noteq> ?n" if "t \<in> set segs" for t
      using rep1 that by (auto simp: dir_rep_def sorted_wrt_append)
    then have "\<forall>t \<in> set segs. seg_in C ?d' t"
      using rep1 by (simp add: seg_in_put dir_rep_def)
    then have "read_segments C (map seg_no segs) [] ?d' = (Inr (log_of C segs), ?d')"
      using read_segments_calm [OF C, of ?d' segs "[]"] calm1 by simp
    moreover have "read_segment ?n ?d' = (Inr ?bytes, ?d')"
      using calm1 by (simp add: read_segment_def calm_call get_put_segment)
    moreover have "read_lines C (split_lines ?bytes) = Inr (seg_recs s)"
      using read_merged_line [OF C _ _ sums, of "seg_recs s"] rep by (simp add: seg_bytes_def dir_rep_def seg_in_def)
    ultimately show ?thesis
      using list_segments_names [OF names] calm1 by (simp add: read_all_def read_segments_append)
  qed
  then show ?thesis
    using run by simp
qed

definition bare_dir :: log_dir where
  "bare_dir = \<lparr>dir_present = True, dir_files = [], dir_outcomes = [], dir_clock = [7]\<rparr>"

definition torn_dir :: log_dir where
  "torn_dir = put_segment 0 \<lparr>file_data = [49], synced_len = 1\<rparr> bare_dir"

definition torn_seg :: aseg where
  "torn_seg = \<lparr>seg_no = 0, seg_recs = [], seg_tail = [49], seg_synced = 1\<rparr>"

theorem torn_line_swallows_commit_witness:
  "\<exists>W'. append_and_sync sample_codec no_peers (rec_commit 1) (wal_of 0 64 torn_dir ()) = (Inr (), W')
     \<and> fst (read_all sample_codec (wal_dir W')) = Inr []"
proof -
  let ?W = "wal_of 0 64 torn_dir ()"
  have "names_ok {} bare_dir" "hm_ok (dir_files bare_dir)" "dir_present bare_dir"
    by (simp_all add: names_ok_def hm_get_def hm_ok_def bare_dir_def)
  then have rep: "dir_rep sample_codec ([] @ [torn_seg]) (wal_dir ?W)"
    using names_ok_insert [of "{}" bare_dir 0]
    by (simp add: dir_rep_def torn_dir_def torn_seg_def seg_in_put wal_of_def seg_bytes_def in_range_def)
  have "calm (wal_dir ?W)" "now_us (wal_dir ?W) = (Inr 7, torn_dir\<lparr>dir_clock := []\<rparr>)" "wal_file ?W = Some (seg_no torn_seg)" "\<not> raft_handle ?W"
    "stream_sink ?W = None" "seg_tail torn_seg \<noteq> []" "length (seg_bytes sample_codec torn_seg) < unat (segment_limit ?W)"
    by (simp_all add: wal_of_def torn_dir_def torn_seg_def calm_def seg_bytes_def bare_dir_def now_us_def)
  moreover have "xxh3_64 sample_codec (seg_tail torn_seg @ d) \<noteq> xxh3_64 sample_codec d" for d
    by (simp add: sample_codec_def torn_seg_def)
  ultimately show ?thesis
    using torn_line_swallows_commit [OF sample_codec_ok rep, of 7 _ "rec_commit 1" no_peers] by (simp add: torn_seg_def)
qed

text \<open>C32. Group commit and rotation: when two records are appended and the second one starts a new segment,
  \<open>flush_group\<close> on both sequence numbers succeeds and reports them as durable, but only syncs the new segment;
  a crash then loses the first record and keeps the second.\<close>

theorem group_commit_loses_rotated_record:
  assumes C: "codec_ok C" and r: "rec_ok r1" "rec_ok r2" and d: "dir_files d = []" "calm d"
    and opened: "open_with_segment_limit C 1 x d = (Inr W, d')"
  shows "\<exists>W1 W2 W3 log. append_async C r1 W = (Inr 1, W1) \<and> append_async C r2 W1 = (Inr 2, W2)
    \<and> flush_group [1, 2] W2 = (Inr (), W3) \<and> last_synced_lsn W3 = 2
    \<and> fst (read_all C (crash synced_only (wal_dir W3))) = Inr log
    \<and> map untimed log = [r2\<lparr>rec_lsn := 2, rec_timestamp_us := 0\<rparr>]"
proof -
  have W: "wal_ok C [] (fresh_seg 0) W" "calm (wal_dir W)" "current_segment W = 0" "next_lsn W = 1" "segment_limit W = 1" "last_synced_lsn W = 0"
    by (rule opened_empty [OF C d, of 1 x]; use opened in simp)+
  obtain W1 where W1: "wal_append C r1 W = (Inr (), W1)" "calm (wal_dir W1)"
    using append_calm [OF W(2)] by blast
  have ar1: "after_rotation C W [] (fresh_seg 0) = ([], fresh_seg 0)"
    by (simp add: after_rotation_def W(5) fresh_seg_def seg_bytes_def)
  obtain t1 where ok1: "wal_ok C [] (add_record (stored 1 t1 r1) (fresh_seg 0)) W1" and W1': "next_lsn W1 = 2" "segment_limit W1 = 1"
    "last_synced_lsn W1 = 0" and cur: "current_segment W1 = 0"
    by (rule append_ok [OF W(1) r(1) _ W1(1) ar1]) (use W in \<open>simp_all add: fresh_seg_def seg_bytes_def\<close>)
  let ?s1 = "add_record (stored 1 t1 r1) (fresh_seg 0)"
  have ar2: "after_rotation C W1 [] ?s1 = ([?s1], fresh_seg 1)"
    by (simp add: after_rotation_def W1' cur seg_bytes_def add_record_def fresh_seg_def stored_line_def)
  obtain W2 where W2: "wal_append C r2 W1 = (Inr (), W2)" "calm (wal_dir W2)"
    using append_calm [OF W1(2)] by blast
  obtain t2 where ok2: "wal_ok C [?s1] (add_record (stored 2 t2 r2) (fresh_seg 1)) W2" and W2': "next_lsn W2 = 3" "last_synced_lsn W2 = 0"
    by (rule append_ok [OF ok1 r(2) _ W2(1) ar2]) (use W1' cur in simp_all)
  let ?s2 = "add_record (stored 2 t2 r2) (fresh_seg 1)"
  have flush: "flush_group [1, 2] W2 = sync_to_lsn 2 W2"
    by (simp add: flush_group_def)
  obtain W3 where W3: "flush_group [1, 2] W2 = (Inr (), W3)" "calm (wal_dir W3)"
    using W2(2) ok2 W2'(2)
    by (auto simp: flush sync_to_lsn_def wal_ok_def on_dir_def sync_segment_def calm_call Let_def io_bind_def)
  have ok3: "wal_ok C [?s1] (synced_seg C ?s2) W3" "last_synced_lsn W3 = 2"
    using sync_to_lsn_ok [OF ok2 W3(1) [unfolded flush]] W2'(2) by simp_all
  have "dir_rep C (map (drop_unsynced C) [?s1, synced_seg C ?s2]) (crash synced_only (wal_dir W3))"
    using ok3(1) by (intro crash_at_once) (auto simp: wal_ok_def add_record_def fresh_seg_def synced_seg_def seg_bytes_def)
  moreover have "log_of C (map (drop_unsynced C) [?s1, synced_seg C ?s2]) = [stored 2 t2 r2]"
    by (simp add: log_of_def drop_unsynced_def add_record_def fresh_seg_def synced_seg_def seg_bytes_def stored_line_def torn_records_def)
  ultimately have "fst (read_all C (crash synced_only (wal_dir W3))) = Inr [stored 2 t2 r2]"
    using read_all_calm [OF C] W3(2) by simp
  moreover have "append_async C r1 W = (Inr 1, W1)" "append_async C r2 W1 = (Inr 2, W2)"
    using W1(1) W1'(1) W2(1) W2'(1) by (simp_all add: append_async_def current_lsn_def)
  moreover have "map untimed [stored 2 t2 r2] = [r2\<lparr>rec_lsn := 2, rec_timestamp_us := 0\<rparr>]"
    by (simp add: untimed_def stored_def)
  ultimately show ?thesis
    using W3(1) ok3(2)
    by (intro exI [of _ W1] exI [of _ W2] exI [of _ W3] exI [of _ "[stored 2 t2 r2]"] conjI)
qed

theorem group_commit_loses_rotated_record_witness:
  "\<exists>(W :: unit wal) W1 W2 W3. append_async sample_codec (rec_commit 1) W = (Inr 1, W1)
     \<and> append_async sample_codec (rec_commit 2) W1 = (Inr 2, W2) \<and> flush_group [1, 2] W2 = (Inr (), W3)
     \<and> (\<exists>log. fst (read_all sample_codec (crash synced_only (wal_dir W3))) = Inr log \<and> length log = 1)"
proof -
  obtain W :: "unit wal" where W: "open_with_segment_limit sample_codec 1 () empty_dir = (Inr W, wal_dir W)"
    by (rule empty_dir_opens)
  have r: "rec_ok (rec_commit 1)" "rec_ok (rec_commit 2)"
    by (simp_all add: rec_ok_def rec_commit_def ascii_utf8_ok is_ascii_def)
  show ?thesis
  proof (rule exE [OF group_commit_loses_rotated_record [OF sample_codec_ok r empty_dir_facts W]], elim exE conjE, intro exI conjI)
    fix log
    assume "map untimed log = [(rec_commit 2)\<lparr>rec_lsn := 2, rec_timestamp_us := 0\<rparr>]"
    then show "length log = 1"
      using length_map [of untimed log] by simp
  qed
qed




end
