(* ===== verification/Result_Cache.thy ===== *)
theory Result_Cache
  imports Statement_Kind
begin

text \<open>
  The query result cache of \<open>src/engine/mod.rs\<close>: results keyed by a hash of the normalised statement text, with
  a time to live and eviction of the oldest entry at capacity. An \<open>Instant\<close> is a number of nanoseconds of the
  monotonic clock; xxh3 is an argument. The lemmas give the lookup after an insertion and the bound on the
  number of entries; two texts with the same normal form share an entry, whatever their string literals are.
\<close>

section \<open>Operations\<close>

text \<open>Code of the packages and tables the key depends on: lower case beyond ASCII and xxh3.\<close>

record text_env =
  env_unicode :: unicode
  env_lowercase :: "bytes \<Rightarrow> bytes"
  env_xxh3 :: "bytes \<Rightarrow> u64"

record 'q cached_result =
  cr_result :: 'q
  cr_created_at :: nat

record 'q result_cache =
  rc_entries :: "(u64, 'q cached_result) hash_map"
  rc_max_entries :: nat
  rc_ttl_secs :: nat

definition result_cache_default :: "'q result_cache" where
  "result_cache_default = \<lparr>rc_entries = hm_new, rc_max_entries = 1000, rc_ttl_secs = 300\<rparr>"

definition normalize_sql :: "text_env \<Rightarrow> bytes \<Rightarrow> bytes" where
  "normalize_sql T sql = to_lowercase (env_lowercase T) (join_words [32] (split_whitespace (trim sql)))"

definition hash_sql :: "text_env \<Rightarrow> bytes \<Rightarrow> u64" where
  "hash_sql T sql = env_xxh3 T (normalize_sql T sql)"

text \<open>\<open>created_at.elapsed().as_secs()\<close>\<close>

definition elapsed_secs :: "nat \<Rightarrow> nat \<Rightarrow> nat" where
  "elapsed_secs now created = (now - created) div 10 ^ 9"

definition cache_get :: "text_env \<Rightarrow> nat \<Rightarrow> 'q result_cache \<Rightarrow> bytes \<Rightarrow> 'q option" where
  "cache_get T now c sql =
     (case hm_get (rc_entries c) (hash_sql T sql) of
        None \<Rightarrow> None
      | Some entry \<Rightarrow> if elapsed_secs now (cr_created_at entry) < rc_ttl_secs c then Some (cr_result entry) else None)"

text \<open>\<open>min_by_key\<close> over the entries: the first one with the least time of creation.\<close>

fun oldest_entry :: "(u64 \<times> 'q cached_result) list \<Rightarrow> (u64 \<times> 'q cached_result) option" where
  "oldest_entry [] = None"
| "oldest_entry (x # xs) =
     (case oldest_entry xs of
        None \<Rightarrow> Some x
      | Some y \<Rightarrow> if cr_created_at (snd y) < cr_created_at (snd x) then Some y else Some x)"

definition cache_evict :: "'q result_cache \<Rightarrow> 'q result_cache" where
  "cache_evict c =
     (if rc_max_entries c \<le> length (rc_entries c)
      then case oldest_entry (rc_entries c) of
             None \<Rightarrow> c
           | Some (oldest_hash, _) \<Rightarrow> c\<lparr>rc_entries := hm_remove (rc_entries c) oldest_hash\<rparr>
      else c)"

definition cache_insert :: "text_env \<Rightarrow> nat \<Rightarrow> 'q result_cache \<Rightarrow> bytes \<Rightarrow> 'q \<Rightarrow> 'q result_cache" where
  "cache_insert T now c sql result =
     (let hash = hash_sql T sql; c' = cache_evict c
      in c'\<lparr>rc_entries := hm_insert (rc_entries c') hash \<lparr>cr_result = result, cr_created_at = now\<rparr>\<rparr>)"

definition cache_invalidate_all :: "'q result_cache \<Rightarrow> 'q result_cache" where
  "cache_invalidate_all c = c\<lparr>rc_entries := hm_new\<rparr>"

section \<open>Lookup and size\<close>

definition cache_ok :: "'q result_cache \<Rightarrow> bool" where
  "cache_ok c \<longleftrightarrow> hm_ok (rc_entries c) \<and> length (rc_entries c) \<le> max 1 (rc_max_entries c)"

lemma oldest_entry_None: "oldest_entry xs = None \<longleftrightarrow> xs = []"
  by (cases xs) (auto split: option.splits)

lemma oldest_entry_min:
  "oldest_entry xs = Some y \<Longrightarrow> y \<in> set xs \<and> (\<forall>x \<in> set xs. cr_created_at (snd y) \<le> cr_created_at (snd x))"
  by (induction xs arbitrary: y) (fastforce split: option.splits if_splits simp: oldest_entry_None)+

lemma length_hm_remove: "hm_ok m \<Longrightarrow> (k, v) \<in> set m \<Longrightarrow> length (hm_remove m k) = length m - 1"
proof (induction m)
  case (Cons x m)
  show ?case
  proof (cases "fst x = k")
    case True
    then have "k \<notin> fst ` set m"
      using Cons.prems(1) by (cases x) (auto simp: hm_ok_def)
    then have "filter (\<lambda>x. k \<noteq> fst x) m = m"
      by (intro filter_True) auto
    then show ?thesis
      using True by (cases x) (simp add: hm_remove_def AList.delete_eq split_def eq_commute)
  next
    case False
    then have mem: "(k, v) \<in> set m" "hm_ok m"
      using Cons.prems by (cases x; auto simp: hm_ok_def)+
    then have "length m \<noteq> 0"
      by auto
    then show ?thesis
      using False Cons.IH [OF mem(2,1)] by (cases x) (simp add: hm_remove_def)
  qed
qed simp

lemma length_hm_insert: "length (hm_insert m k v) \<le> Suc (length m)"
  by (induction m) (auto simp: hm_insert_def)

lemma cache_evict_entries:
  assumes "hm_ok (rc_entries c)"
  shows "hm_ok (rc_entries (cache_evict c))" "rc_max_entries (cache_evict c) = rc_max_entries c"
    "rc_ttl_secs (cache_evict c) = rc_ttl_secs c"
    "length (rc_entries c) \<le> max 1 (rc_max_entries c) \<Longrightarrow> length (rc_entries (cache_evict c)) \<le> max 1 (rc_max_entries c) - 1"
proof -
  show "hm_ok (rc_entries (cache_evict c))" "rc_max_entries (cache_evict c) = rc_max_entries c"
    "rc_ttl_secs (cache_evict c) = rc_ttl_secs c"
    using assms by (auto simp: cache_evict_def hm_simps split: option.split)
  assume len: "length (rc_entries c) \<le> max 1 (rc_max_entries c)"
  show "length (rc_entries (cache_evict c)) \<le> max 1 (rc_max_entries c) - 1"
  proof (cases "rc_max_entries c \<le> length (rc_entries c) \<and> rc_entries c \<noteq> []")
    case True
    then obtain h e where o: "oldest_entry (rc_entries c) = Some (h, e)"
      using oldest_entry_None [of "rc_entries c"] by (cases "oldest_entry (rc_entries c)") auto
    then have "(h, e) \<in> set (rc_entries c)"
      using oldest_entry_min by blast
    from length_hm_remove [OF assms this] show ?thesis
      using True len o by (simp add: cache_evict_def)
  next
    case False
    then show ?thesis
      using len by (auto simp: cache_evict_def)
  qed
qed

lemma cache_insert_ok: "cache_ok c \<Longrightarrow> cache_ok (cache_insert T now c sql q)"
  using cache_evict_entries [of c] length_hm_insert [of "rc_entries (cache_evict c)"]
  by (fastforce simp: cache_ok_def cache_insert_def Let_def hm_simps intro: le_trans)

lemma cache_get_insert:
  assumes "hash_sql T sql' = hash_sql T sql" "elapsed_secs now' now < rc_ttl_secs c" "hm_ok (rc_entries c)"
  shows "cache_get T now' (cache_insert T now c sql q) sql' = Some q"
  using assms cache_evict_entries [OF assms(3)] by (simp add: cache_get_def cache_insert_def Let_def hm_simps)

lemma cache_get_invalidated [simp]: "cache_get T now (cache_invalidate_all c) sql = None"
  by (simp add: cache_get_def cache_invalidate_all_def hm_simps)

section \<open>Normal forms\<close>

text \<open>Letter case does not count, inside string literals either.\<close>

lemma byte_lower_ascii: "b < 0x80 \<Longrightarrow> byte_lower b < 0x80"
  by (auto simp: byte_lower_def in_range_def word_less_nat_alt word_le_nat_alt unat_plus_if')

lemma byte_lower_space: "in_range 9 13 (byte_lower b) \<or> byte_lower b = 32 \<longleftrightarrow> in_range 9 13 b \<or> b = 32"
  by (auto simp: byte_lower_def in_range_def word_le_nat_alt word_unat_eq_iff unat_plus_if' split: if_splits)

abbreviation lower_chunk :: "bool \<times> bytes \<Rightarrow> bool \<times> bytes" where
  "lower_chunk c \<equiv> (fst c, map byte_lower (snd c))"

text \<open>The single-byte chunks of an ASCII text.\<close>

definition ascii_chunks :: "(bool \<times> bytes) list \<Rightarrow> bool" where
  "ascii_chunks cs \<longleftrightarrow> (\<forall>c \<in> set cs. \<exists>b < 0x80. c = (True, [b]))"

lemma ascii_chunks_of: "is_ascii s \<Longrightarrow> ascii_chunks (utf8_chunks s)"
  by (auto simp: ascii_chunks_def utf8_chunks_ascii is_ascii_def list_all_iff)

lemma ascii_chunks_text: "ascii_chunks cs \<Longrightarrow> is_ascii (chunk_text cs) \<and> utf8_chunks (chunk_text cs) = cs"
proof (induction cs)
  case (Cons c cs)
  then obtain b where b: "b < 0x80" "c = (True, [b])" and cs: "is_ascii (chunk_text cs)" "utf8_chunks (chunk_text cs) = cs"
    by (auto simp: ascii_chunks_def)
  have "is_ascii (b # chunk_text cs)"
    using b(1) cs(1) by (simp add: is_ascii_def)
  then show ?case
    using b(2) cs utf8_chunks_ascii [OF cs(1)] by (simp add: utf8_chunks_ascii)
qed (simp add: is_ascii_def utf8_chunks.simps)

lemma lower_chunks: "is_ascii s \<Longrightarrow> utf8_chunks (map byte_lower s) = map lower_chunk (utf8_chunks s)"
proof -
  assume s: "is_ascii s"
  then have "is_ascii (map byte_lower s)"
    by (auto simp: is_ascii_def list_all_iff byte_lower_ascii)
  then show ?thesis
    by (simp add: utf8_chunks_ascii s)
qed

lemma lower_chunk_space: "c \<in> set cs \<Longrightarrow> ascii_chunks cs \<Longrightarrow> chunk_space (lower_chunk c) = chunk_space c"
  by (auto simp: ascii_chunks_def is_white_space_def byte_lower_space)

lemma ascii_chunks_parts:
  "ascii_chunks cs \<Longrightarrow> ascii_chunks (dropWhile p cs)" "ascii_chunks cs \<Longrightarrow> ascii_chunks (takeWhile p cs)"
  "ascii_chunks (rev cs) \<longleftrightarrow> ascii_chunks cs"
  by (auto simp: ascii_chunks_def dest: set_dropWhileD set_takeWhileD)

lemma while_lower:
  assumes "ascii_chunks cs"
  shows "dropWhile chunk_space (map lower_chunk cs) = map lower_chunk (dropWhile chunk_space cs)"
    "dropWhile (\<lambda>c. \<not> chunk_space c) (map lower_chunk cs) = map lower_chunk (dropWhile (\<lambda>c. \<not> chunk_space c) cs)"
    "takeWhile (\<lambda>c. \<not> chunk_space c) (map lower_chunk cs) = map lower_chunk (takeWhile (\<lambda>c. \<not> chunk_space c) cs)"
  using lower_chunk_space [OF _ assms] unfolding dropWhile_map takeWhile_map comp_def
  by (simp_all cong: dropWhile_cong takeWhile_cong)

lemma chunk_text_lower: "chunk_text (map lower_chunk cs) = map byte_lower (chunk_text cs)"
  by (simp add: map_concat comp_def)

lemma chunk_words_lower:
  "ascii_chunks cs \<Longrightarrow> chunk_words (map lower_chunk cs) = map (map byte_lower) (chunk_words cs)"
proof (induction cs rule: chunk_words.induct)
  case (1 cs)
  let ?cs = "dropWhile chunk_space cs"
  show ?case
  proof (cases "?cs = []")
    case True
    then show ?thesis
      by (subst (1 2) chunk_words.simps) (simp add: Let_def while_lower [OF "1.prems"] del: dropWhile_eq_Nil_conv)
  next
    case False
    have ok: "ascii_chunks ?cs"
      by (rule ascii_chunks_parts(1) [OF "1.prems"])
    have IH: "chunk_words (map lower_chunk (dropWhile (\<lambda>c. \<not> chunk_space c) ?cs)) =
        map (map byte_lower) (chunk_words (dropWhile (\<lambda>c. \<not> chunk_space c) ?cs))"
      by (rule "1.IH" [OF refl False ascii_chunks_parts(1) [OF ok]])
    have "chunk_words cs = chunk_text (takeWhile (\<lambda>c. \<not> chunk_space c) ?cs)
        # chunk_words (dropWhile (\<lambda>c. \<not> chunk_space c) ?cs)"
      using False by (subst chunk_words.simps) (simp only: Let_def if_False)
    moreover have "chunk_words (map lower_chunk cs) = chunk_text (takeWhile (\<lambda>c. \<not> chunk_space c) (map lower_chunk ?cs))
        # chunk_words (dropWhile (\<lambda>c. \<not> chunk_space c) (map lower_chunk ?cs))"
      using False by (subst chunk_words.simps)
        (simp only: Let_def while_lower(1) [OF "1.prems"] map_is_Nil_conv if_False)
    ultimately show ?thesis
      using IH by (simp only: while_lower(2,3) [OF ok] chunk_text_lower list.map)
  qed
qed

lemma trim_lower:
  assumes "is_ascii s"
  shows "is_ascii (trim s)" "trim (map byte_lower s) = map byte_lower (trim s)"
proof -
  note s = ascii_chunks_of [OF assms]
  let ?t = "dropWhile chunk_space (utf8_chunks s)"
  have start: "trim_start s = chunk_text ?t" "ascii_chunks ?t"
    using s by (simp_all add: trim_start_def ascii_chunks_parts)
  have start': "trim_start (map byte_lower s) = map byte_lower (trim_start s)"
    by (simp only: trim_start_def lower_chunks [OF assms] while_lower [OF s] chunk_text_lower)
  have asc: "is_ascii (trim_start s)" and t: "utf8_chunks (trim_start s) = ?t"
    using ascii_chunks_text [OF start(2)] start(1) by simp_all
  have r: "ascii_chunks (rev ?t)"
    using start(2) by (simp add: ascii_chunks_parts)
  show "is_ascii (trim s)"
    using ascii_chunks_text [of "rev (dropWhile chunk_space (rev ?t))"] r
    by (simp add: trim_def trim_end_def t ascii_chunks_parts)
  have e: "rev (dropWhile chunk_space (rev (map lower_chunk ?t))) = map lower_chunk (rev (dropWhile chunk_space (rev ?t)))"
    by (simp only: rev_map while_lower(1) [OF r])
  show "trim (map byte_lower s) = map byte_lower (trim s)"
    by (simp only: trim_def start' trim_end_def lower_chunks [OF asc] t e chunk_text_lower)
qed

lemma join_lower: "map byte_lower (join_words [32] ws) = join_words [32] (map (map byte_lower) ws)"
  by (induction "[32] :: bytes" ws rule: join_words.induct) (simp_all add: byte_lower_def in_range_def)

lemma is_ascii_join: "list_all is_ascii ws \<Longrightarrow> is_ascii (join_words [32] ws)"
  by (induction "[32] :: bytes" ws rule: join_words.induct) (simp_all add: is_ascii_def)

lemma is_ascii_words: "ascii_chunks cs \<Longrightarrow> list_all is_ascii (chunk_words cs)"
proof (induction cs rule: chunk_words.induct)
  case (1 cs)
  let ?cs = "dropWhile chunk_space cs"
  have ok: "ascii_chunks ?cs"
    by (rule ascii_chunks_parts(1) [OF "1.prems"])
  show ?case
    using "1.IH" [OF refl _ ascii_chunks_parts(1) [OF ok]] ascii_chunks_text [OF ascii_chunks_parts(2) [OF ok]]
    by (subst chunk_words.simps) (simp add: Let_def)
qed

lemma normalize_ignores_case:
  assumes "is_ascii s" "is_ascii s'" "map byte_lower s = map byte_lower s'"
  shows "normalize_sql T s = normalize_sql T s'"
proof -
  have "normalize_sql T s = join_words [32] (split_whitespace (trim (map byte_lower s)))" if s: "is_ascii s" for s
  proof -
    note t = trim_lower(1) [OF s]
    have "is_ascii (join_words [32] (split_whitespace (trim s)))"
      unfolding split_whitespace_def by (rule is_ascii_join [OF is_ascii_words [OF ascii_chunks_of [OF t]]])
    then show ?thesis
      by (simp add: normalize_sql_def to_lowercase_def join_lower split_whitespace_def trim_lower(2) [OF s]
          lower_chunks [OF t] chunk_words_lower [OF ascii_chunks_of [OF t]])
  qed
  then show ?thesis
    using assms by simp
qed

text \<open>C37. A statement that differs from a cached one only in the case of letters, even inside a string literal,
  is answered with the cached result while the entry is fresh.\<close>

theorem cache_ignores_literal_case:
  assumes "is_ascii s" "is_ascii s'" "map byte_lower s = map byte_lower s'"
    and "elapsed_secs now' now < rc_ttl_secs c" "cache_ok c"
  shows "cache_get T now' (cache_insert T now c s q) s' = Some q"
proof (rule cache_get_insert)
  show "hash_sql T s' = hash_sql T s"
    using normalize_ignores_case [OF assms(1-3)] by (simp add: hash_sql_def)
qed (use assms in \<open>simp_all add: cache_ok_def\<close>)

text \<open>\<open>SELECT 'A'\<close> and \<open>SELECT 'a'\<close>.\<close>

definition select_upper :: bytes where
  "select_upper = [83, 69, 76, 69, 67, 84, 32, 39, 65, 39]"

definition select_lower :: bytes where
  "select_lower = [83, 69, 76, 69, 67, 84, 32, 39, 97, 39]"

definition ascii_env :: text_env where
  "ascii_env = \<lparr>env_unicode = ascii_only, env_lowercase = id, env_xxh3 = from_le_bytes\<rparr>"

theorem cache_ignores_literal_case_witness:
  "cache_get ascii_env 5 (cache_insert ascii_env 0 result_cache_default select_upper (1 :: nat)) select_lower = Some 1
     \<and> select_upper \<noteq> select_lower"
proof -
  have "cache_get ascii_env 5 (cache_insert ascii_env 0 result_cache_default select_upper (1 :: nat)) select_lower = Some 1"
    by (rule cache_ignores_literal_case)
      (simp_all add: select_upper_def select_lower_def is_ascii_def byte_lower_def in_range_def elapsed_secs_def
        result_cache_default_def cache_ok_def hm_new_def hm_ok_def)
  then show ?thesis
    by (simp add: select_upper_def select_lower_def)
qed

end
