(* ===== verification/Datetime.thy ===== *)
theory Datetime
  imports Prelude
begin

text \<open>
  Dates, times, timestamps and intervals of \<open>src/types/datetime.rs\<close>. A \<open>Date\<close> is a signed 32-bit number of days
  since 1970-01-01. The conversions that the \<open>time\<close> package computes (\<open>from_calendar_date\<close>, \<open>from_julian_day\<close>)
  are arguments of the model, the record \<open>calendar\<close>; \<open>calendar_ok\<close> states their documented behaviour, the
  proleptic Gregorian calendar between the years -9999 and 9999, and \<open>gregorian\<close> is an instance. The main lemma
  shows that the branch-free year computation agrees with the calendar on every day.
\<close>

section \<open>Calendar\<close>

record calendar =
  from_calendar_date :: "int \<Rightarrow> nat \<Rightarrow> nat \<Rightarrow> int option"
  from_julian_day :: "int \<Rightarrow> (int \<times> nat \<times> nat) option"

definition is_leap_year :: "int \<Rightarrow> bool" where
  "is_leap_year year \<longleftrightarrow> year mod 4 = 0 \<and> year mod 100 \<noteq> 0 \<or> year mod 400 = 0"

definition month_lengths :: "int \<Rightarrow> nat list" where
  "month_lengths year = [31, if is_leap_year year then 29 else 28, 31, 30, 31, 30, 31, 31, 30, 31, 30, 31]"

text \<open>The loop over the months before the given one; a month above 13 would index out of the table.\<close>

definition day_of_year :: "int \<Rightarrow> nat \<Rightarrow> nat \<Rightarrow> panic + nat" where
  "day_of_year year month day =
     fold_panic (\<lambda>m doy. bind_panic (slice_index (month_lengths year) (m - 1)) (\<lambda>n. Inr (doy + n))) [1..<month] day"

definition valid_date :: "int \<Rightarrow> nat \<Rightarrow> nat \<Rightarrow> bool" where
  "valid_date y m d \<longleftrightarrow> 1 \<le> m \<and> m \<le> 12 \<and> 1 \<le> d \<and> d \<le> month_lengths y ! (m - 1)"

text \<open>Days from 1970-01-01 to the first of January of a year, and to a date.\<close>

definition year_days :: "int \<Rightarrow> int" where
  "year_days y = 365 * (y - 1) + (y - 1) div 4 - (y - 1) div 100 + (y - 1) div 400 - 719162"

definition civil_days :: "int \<Rightarrow> nat \<Rightarrow> nat \<Rightarrow> int" where
  "civil_days y m d = year_days y + int (sum_list (take (m - 1) (month_lengths y)) + d - 1)"

definition calendar_ok :: "calendar \<Rightarrow> bool" where
  "calendar_ok K \<longleftrightarrow>
     (\<forall>y m d. from_calendar_date K y m d =
        (if \<bar>y\<bar> \<le> 9999 \<and> valid_date y m d then Some (civil_days y m d + 2440588) else None))
     \<and> (\<forall>y m d. \<bar>y\<bar> \<le> 9999 \<and> valid_date y m d \<longrightarrow> from_julian_day K (civil_days y m d + 2440588) = Some (y, m, d))"

section \<open>Dates\<close>

text \<open>\<open>days_since_epoch_to_year\<close> on the range of an \<open>i32\<close>, where no intermediate result overflows; \<open>quot\<close> is
  Rust's division, which rounds towards zero.\<close>

definition quot :: "int \<Rightarrow> int \<Rightarrow> int" where
  "quot a b = sgn a * sgn b * (\<bar>a\<bar> div \<bar>b\<bar>)"

definition days_since_epoch_to_year :: "int \<Rightarrow> i32" where
  "days_since_epoch_to_year d =
     (let z = d + 719468;
          era = quot (if z \<ge> 0 then z else z - 146096) 146097;
          doe = z - era * 146097;
          yoe = quot (doe - quot doe 1460 + quot doe 36524 - quot doe 146096) 365;
          y = yoe + era * 400;
          doy = doe - (365 * yoe + quot yoe 4 - quot yoe 100)
      in if doy \<ge> 306 then word_of_int (y + 1) else word_of_int y)"

type_synonym date = i32

definition date_from_ymd :: "calendar \<Rightarrow> i32 \<Rightarrow> u32 \<Rightarrow> u32 \<Rightarrow> date option" where
  "date_from_ymd K year month day =
     (let m = unat (ucast month :: u8)
      in if 1 \<le> m \<and> m \<le> 12
         then map_option (\<lambda>jd. word_of_int (jd - 2440588)) (from_calendar_date K (sint year) m (unat (ucast day :: u8)))
         else None)"

definition date_to_ymd :: "calendar \<Rightarrow> date \<Rightarrow> panic + (int \<times> nat \<times> nat)" where
  "date_to_ymd K dt =
     (case from_julian_day K (sint (dt + 2440588)) of None \<Rightarrow> Inl Unwrap_None | Some ymd \<Rightarrow> Inr ymd)"

definition date_year :: "date \<Rightarrow> i32" where
  "date_year dt = days_since_epoch_to_year (sint dt)"

definition date_to_u64 :: "date \<Rightarrow> u64" where
  "date_to_u64 dt = ucast dt"

definition date_from_u64 :: "u64 \<Rightarrow> date" where
  "date_from_u64 v = ucast v"

text \<open>Zero-padded decimal numbers; the width includes the sign.\<close>

definition show_padded :: "nat \<Rightarrow> int \<Rightarrow> string" where
  "show_padded w i =
     (let ds = show_nat (nat \<bar>i\<bar>); sign = (if i < 0 then ''-'' else [])
      in sign @ replicate (w - length sign - length ds) (CHR ''0'') @ ds)"

definition date_to_iso :: "calendar \<Rightarrow> date \<Rightarrow> panic + string" where
  "date_to_iso K dt =
     bind_panic (date_to_ymd K dt) (\<lambda>(y, m, d).
       Inr (show_padded 4 y @ ''-'' @ show_padded 2 (int m) @ ''-'' @ show_padded 2 (int d)))"

definition saturating_add :: "'a::len word \<Rightarrow> 'a word \<Rightarrow> 'a word" where
  "saturating_add a b =
     word_of_int (max (- (2 ^ (LENGTH('a) - 1))) (min (2 ^ (LENGTH('a) - 1) - 1) (sint a + sint b)))"

definition date_add_days :: "date \<Rightarrow> i32 \<Rightarrow> date" where
  "date_add_days dt days = saturating_add dt days"

definition days_since :: "date \<Rightarrow> date \<Rightarrow> i32" where
  "days_since dt other = dt - other"

definition dow :: "date \<Rightarrow> int" where
  "dow dt = sint (dt + 4) mod 7"

definition isodow :: "date \<Rightarrow> int" where
  "isodow dt = sint (dt + 3) mod 7 + 1"

definition doy :: "calendar \<Rightarrow> date \<Rightarrow> panic + nat" where
  "doy K dt = bind_panic (date_to_ymd K dt) (\<lambda>(y, m, d). day_of_year y m d)"

definition quarter :: "calendar \<Rightarrow> date \<Rightarrow> panic + nat" where
  "quarter K dt = bind_panic (date_to_ymd K dt) (\<lambda>(y, m, d). Inr ((m - 1) div 3 + 1))"

definition epoch_seconds :: "date \<Rightarrow> i64" where
  "epoch_seconds dt = scast dt * 86400"

text \<open>\<open>days_in_month\<close>: the day before the first of the next month. Where that first is outside the calendar, the
  default is the day before the first of the same month.\<close>

definition days_in_month :: "calendar \<Rightarrow> int \<Rightarrow> nat \<Rightarrow> nat" where
  "days_in_month K year month =
     (if 1 \<le> month \<and> month \<le> 12
      then case from_calendar_date K year month 1 of
          None \<Rightarrow> 28
        | Some first_jd \<Rightarrow>
            let next_first = (if month = 12 then case_option first_jd id (from_calendar_date K (year + 1) 1 1)
                              else case_option first_jd id (from_calendar_date K year (month + 1) 1))
            in (case from_julian_day K (next_first - 1) of
                  Some (_, _, d) \<Rightarrow> d
                | None \<Rightarrow> 1)
      else 28)"

section \<open>Intervals, times and timestamps\<close>

record interval =
  months :: i32
  micros :: i64

definition interval_zero :: interval where
  "interval_zero = \<lparr>months = 0, micros = 0\<rparr>"

definition from_months :: "i32 \<Rightarrow> interval" where
  "from_months m = \<lparr>months = m, micros = 0\<rparr>"

definition from_days :: "i32 \<Rightarrow> interval" where
  "from_days d = \<lparr>months = 0, micros = scast d * 86400000000\<rparr>"

definition from_micros :: "i64 \<Rightarrow> interval" where
  "from_micros m = \<lparr>months = 0, micros = m\<rparr>"

definition to_u64_pair :: "interval \<Rightarrow> u64 \<times> u64" where
  "to_u64_pair iv = (ucast (months iv), micros iv)"

definition from_u64_pair :: "u64 \<times> u64 \<Rightarrow> interval" where
  "from_u64_pair v = \<lparr>months = ucast (fst v), micros = snd v\<rparr>"

definition interval_add :: "interval \<Rightarrow> interval \<Rightarrow> interval" where
  "interval_add a b =
     \<lparr>months = saturating_add (months a) (months b), micros = saturating_add (micros a) (micros b)\<rparr>"

type_synonym timestamp = i64

type_synonym time = u64

definition date_add_interval :: "calendar \<Rightarrow> date \<Rightarrow> interval \<Rightarrow> panic + timestamp" where
  "date_add_interval K dt iv =
     bind_panic (date_to_ymd K dt) (\<lambda>(y, m, d).
       let total_months = word_of_int (y * 12 + (int m - 1)) + months iv;
           ny = sint total_months div 12;
           nm = nat (sint total_months mod 12) + 1;
           nd = min d (days_in_month K ny nm);
           base = (case date_from_ymd K (word_of_int ny) (of_nat nm) (of_nat nd) of Some b \<Rightarrow> b | None \<Rightarrow> dt)
       in Inr (scast base * 86400000000 + micros iv))"

text \<open>\<open>Time::from_hms_nano\<close>, where \<open>hms\<close> is the constructor of the \<open>time\<close> package, which returns the components
  it accepts.\<close>

definition from_hms_nano ::
    "(nat \<Rightarrow> nat \<Rightarrow> nat \<Rightarrow> nat \<Rightarrow> (nat \<times> nat \<times> nat \<times> nat) option) \<Rightarrow> u32 \<Rightarrow> u32 \<Rightarrow> u32 \<Rightarrow> u32 \<Rightarrow> time option" where
  "from_hms_nano hms hour minute second nano =
     map_option (\<lambda>(h, m, s, ns). of_nat h * 3600000000 + of_nat m * 60000000 + of_nat s * 1000000 + of_nat (ns div 1000))
       (hms (unat (ucast hour :: u8)) (unat (ucast minute :: u8)) (unat (ucast second :: u8)) (unat nano))"

definition to_hms_micro :: "time \<Rightarrow> u32 \<times> u32 \<times> u32 \<times> u32" where
  "to_hms_micro t =
     (ucast (t div 3600000000), ucast (t div 60000000 mod 60), ucast (t div 1000000 mod 60), ucast (t mod 1000000))"

definition time_to_iso :: "time \<Rightarrow> string" where
  "time_to_iso t =
     (case to_hms_micro t of (h, m, s, _) \<Rightarrow>
        show_padded 2 (uint h) @ '':'' @ show_padded 2 (uint m) @ '':'' @ show_padded 2 (uint s))"

definition from_date :: "date \<Rightarrow> timestamp" where
  "from_date d = scast d * 86400000000"

definition from_date_time :: "date \<Rightarrow> time \<Rightarrow> timestamp" where
  "from_date_time d t = scast d * 86400000000 + t"

definition to_date_time :: "timestamp \<Rightarrow> date \<times> time" where
  "to_date_time ts = (word_of_int (sint ts div 86400000000), word_of_int (sint ts mod 86400000000))"

definition timestamp_to_iso :: "calendar \<Rightarrow> timestamp \<Rightarrow> panic + string" where
  "timestamp_to_iso K ts =
     (case to_date_time ts of (d, t) \<Rightarrow> bind_panic (date_to_iso K d) (\<lambda>s. Inr (s @ ''T'' @ time_to_iso t)))"

definition timestamp_add_interval :: "calendar \<Rightarrow> timestamp \<Rightarrow> interval \<Rightarrow> panic + timestamp" where
  "timestamp_add_interval K ts iv =
     (case to_date_time ts of (d, t) \<Rightarrow> bind_panic (date_add_interval K d iv) (\<lambda>new_ts. Inr (new_ts + t)))"

section \<open>The year of a day\<close>

lemma quot_pos: "0 \<le> a \<Longrightarrow> 0 < b \<Longrightarrow> quot a b = a div b"
  by (cases "a = 0") (simp_all add: quot_def)

lemma era_floor: "quot (if z \<ge> 0 then z else z - 146096) 146097 = z div 146097"
proof (cases "z \<ge> 0")
  case False
  let ?q = "z div 146097" and ?r = "z mod 146097"
  have "146096 - z = 146097 * (- ?q) + (146096 - ?r)"
    using div_mult_mod_eq [of z 146097] by linarith
  then have "(146096 - z) div 146097 = - ?q"
    by (rule int_div_pos_eq) (use pos_mod_bound [of 146097 z] in simp_all)
  then show ?thesis
    using False by (simp add: quot_def)
qed (simp add: quot_pos)

lemma div_pred:
  fixes y k :: int
  assumes "0 < k"
  shows "(y - 1) div k = y div k - (if y mod k = 0 then 1 else 0)"
proof (cases "y mod k = 0")
  case True
  have "y - 1 = k * (y div k - 1) + (k - 1)"
    using True div_mult_mod_eq [of y k] by (simp add: algebra_simps)
  then have "(y - 1) div k = y div k - 1"
    by (rule int_div_pos_eq) (use assms in simp_all)
  then show ?thesis
    using True by simp
next
  case False
  then have "0 < y mod k" "y mod k < k"
    using pos_mod_sign [OF assms, of y] pos_mod_bound [OF assms, of y] by linarith+
  moreover have "y - 1 = k * (y div k) + (y mod k - 1)"
    using div_mult_mod_eq [of y k] by (simp add: algebra_simps)
  ultimately show ?thesis
    using False int_div_pos_eq [of "y - 1" k "y div k" "y mod k - 1"] by simp
qed

text \<open>A day of a 400-year era is day \<open>t\<close> of year \<open>s\<close> of the 4-year cycle \<open>q\<close> of century \<open>c\<close>, years starting in
  March.\<close>

definition era_day :: "int \<Rightarrow> int \<Rightarrow> int \<Rightarrow> int \<Rightarrow> int \<Rightarrow> bool" where
  "era_day doe c q s t \<longleftrightarrow> doe = 36524 * c + 1461 * q + 365 * s + t \<and> 0 \<le> c \<and> c \<le> 3 \<and> 0 \<le> q \<and> q \<le> 24
     \<and> 0 \<le> s \<and> s \<le> 3 \<and> 0 \<le> t \<and> t \<le> 365 \<and> (t = 365 \<longrightarrow> s = 3 \<and> (q = 24 \<longrightarrow> c = 3))"

lemma year_of_era:
  assumes "era_day doe c q s t"
  shows "0 \<le> doe - doe div 1460 + doe div 36524 - doe div 146096"
    "(doe - doe div 1460 + doe div 36524 - doe div 146096) div 365 = 100 * c + 4 * q + s"
proof -
  note a = assms [unfolded era_day_def]
  define e where "e = (24 * c + q + 365 * s + t) div 1460"
  have d1: "doe div 1460 = 25 * c + q + e"
  proof -
    have "doe = (25 * c + q) * 1460 + (24 * c + q + 365 * s + t)"
      using a by simp
    then show ?thesis
      unfolding e_def by simp
  qed
  have d2: "doe div 36524 - doe div 146096 = c"
  proof (cases "1461 * q + 365 * s + t = 36524")
    case True
    then have "c = 3"
      using a by auto
    then have "doe = 146096"
      using a True by linarith
    then show ?thesis
      using \<open>c = 3\<close> by simp
  next
    case False
    then have small: "1461 * q + 365 * s + t < 36524" "0 \<le> 1461 * q + 365 * s + t"
      using a by auto
    have "doe = c * 36524 + (1461 * q + 365 * s + t)"
      using a by simp
    then have "doe div 36524 = c"
      using small by simp
    moreover have "doe div 146096 = 0"
      using a small by simp
    ultimately show ?thesis
      by simp
  qed
  have "e = 0 \<and> t \<le> 364 \<or> e = 1 \<and> 1 \<le> t"
  proof (cases "24 * c + q + 365 * s + t < 1460")
    case True
    then have "e = 0"
      using a by (simp add: e_def)
    with True show ?thesis
      using a by auto
  next
    case False
    then have "24 * c + q + 365 * s + t = 1460 + (24 * c + q + 365 * s + t - 1460)" "24 * c + q + 365 * s + t - 1460 < 1460"
      using a by auto
    then have "e = 1"
      unfolding e_def using False by (intro int_div_pos_eq [of _ _ 1 "24 * c + q + 365 * s + t - 1460"]) simp_all
    with False show ?thesis
      using a by auto
  qed
  then have te: "0 \<le> t - e" "t - e < 365"
    using a by auto
  have sum: "doe - doe div 1460 + doe div 36524 - doe div 146096 = 365 * (100 * c + 4 * q + s) + (t - e)"
    using a d1 d2 by simp
  then show "(doe - doe div 1460 + doe div 36524 - doe div 146096) div 365 = 100 * c + 4 * q + s"
    using te by (rule int_div_pos_eq)
  show "0 \<le> doe - doe div 1460 + doe div 36524 - doe div 146096"
    using sum te a by simp
qed

text \<open>Days from 0000-03-01 to the first of March of a year.\<close>

definition march_days :: "int \<Rightarrow> int" where
  "march_days y = 365 * y + y div 4 - y div 100 + y div 400"

definition march_year :: "int \<Rightarrow> nat \<Rightarrow> int" where
  "march_year y m = (if m \<le> 2 then y - 1 else y)"

lemma leap_count:
  "y div 4 - y div 100 + y div 400 =
     (y - 1) div 4 - (y - 1) div 100 + (y - 1) div 400 + (if is_leap_year y then 1 else 0)"
proof -
  have "y mod 100 = 0 \<Longrightarrow> y mod 4 = 0"
    using dvd_trans [of 4 100 y] by (simp add: mod_eq_0_iff_dvd)
  moreover have "y mod 400 = 0 \<Longrightarrow> y mod 100 = 0"
    using dvd_trans [of 100 400 y] by (simp add: mod_eq_0_iff_dvd)
  ultimately show ?thesis
    unfolding div_pred [of 4 y, simplified] div_pred [of 100 y, simplified] div_pred [of 400 y, simplified] is_leap_year_def
    by (cases "y mod 4 = 0"; cases "y mod 100 = 0"; cases "y mod 400 = 0") simp_all
qed

lemma civil_days_march:
  assumes "valid_date y m d"
  obtains t where "civil_days y m d + 719468 = march_days (march_year y m) + t" "0 \<le> t" "t \<le> 365"
    "t = 365 \<longrightarrow> is_leap_year (march_year y m + 1)" "306 \<le> t \<longleftrightarrow> m \<le> 2"
proof -
  let ?off = "int (sum_list (take (m - 1) (month_lengths y)) + d - 1)"
  define L :: int where "L = (if is_leap_year y then 1 else 0)"
  define t where "t = (if m \<le> 2 then ?off + 306 else ?off - 59 - L)"
  have d: "1 \<le> m" "m \<le> 12" "1 \<le> d" "d \<le> month_lengths y ! (m - 1)"
    using assms by (simp_all add: valid_date_def)
  from d(1,2) have m: "m = 1 \<or> m = 2 \<or> m = 3 \<or> m = 4 \<or> m = 5 \<or> m = 6 \<or> m = 7 \<or> m = 8 \<or> m = 9 \<or> m = 10 \<or> m = 11 \<or> m = 12"
    by presburger
  have "march_days (y - 1) = year_days y + 719162"
    by (simp add: march_days_def year_days_def)
  moreover have "march_days y = year_days y + 719527 + L"
    using leap_count [of y] by (simp add: march_days_def year_days_def L_def)
  ultimately have "civil_days y m d + 719468 = march_days (march_year y m) + t"
    by (simp add: civil_days_def march_year_def t_def)
  moreover have "0 \<le> t \<and> t \<le> 365 \<and> (t = 365 \<longrightarrow> m \<le> 2 \<and> is_leap_year y) \<and> (306 \<le> t \<longleftrightarrow> m \<le> 2)"
    using m d(3,4) by (elim disjE; cases "is_leap_year y"; simp add: t_def L_def month_lengths_def)
  ultimately show thesis
    using that [of t] by (simp add: march_year_def)
qed

lemma march_year_era:
  assumes "0 \<le> t" "t \<le> 365" "t = 365 \<longrightarrow> is_leap_year (y + 1)"
  obtains c q s where "era_day (march_days y + t - (y div 400) * 146097) c q s t" "y mod 400 = 100 * c + 4 * q + s"
proof -
  define k n where "k = y div 400" and "n = y mod 400"
  define c q s where "c = n div 100" and "q = n mod 100 div 4" and "s = n mod 100 mod 4"
  have n: "0 \<le> n" "n < 400" "y = 400 * k + n"
    by (simp_all add: n_def k_def)
  have parts: "n = 100 * c + 4 * q + s" "0 \<le> c" "c \<le> 3" "0 \<le> q" "q \<le> 24" "0 \<le> s" "s \<le> 3"
    using n by (auto simp: c_def q_def s_def)
  have y: "y = 4 * (100 * k + 25 * c + q) + s" "y = 100 * (4 * k + c) + (4 * q + s)"
    using n(3) parts(1) by simp_all
  have div4: "y div 4 = 100 * k + 25 * c + q"
    using y(1) by (rule int_div_pos_eq) (use parts in simp_all)
  have div100: "y div 100 = 4 * k + c"
    using y(2) by (rule int_div_pos_eq) (use parts in simp_all)
  have "march_days y + t - k * 146097 = 36524 * c + 1461 * q + 365 * s + t"
    unfolding march_days_def div4 div100 k_def [symmetric] using n(3) parts(1) by simp
  moreover have "s = 3 \<and> (q = 24 \<longrightarrow> c = 3)" if "t = 365"
  proof -
    have "is_leap_year (y + 1)"
      using assms(3) that by simp
    moreover have "y + 1 = (s + 1) + 4 * (100 * k + 25 * c + q)"
      "y + 1 = (4 * q + s + 1) + 100 * (4 * k + c)" "y + 1 = (100 * c + 4 * q + s + 1) + 400 * k"
      using n(3) parts(1) by simp_all
    then have "(y + 1) mod 4 = (s + 1) mod 4" "(y + 1) mod 100 = (4 * q + s + 1) mod 100"
      "(y + 1) mod 400 = (100 * c + 4 * q + s + 1) mod 400"
      by (metis mod_mult_self2)+
    ultimately have "(s + 1) mod 4 = 0 \<and> (4 * q + s + 1) mod 100 \<noteq> 0 \<or>
        (100 * c + 4 * q + s + 1) mod 400 = 0"
      unfolding is_leap_year_def by simp
    then show ?thesis
    proof
      assume leap: "(s + 1) mod 4 = 0 \<and> (4 * q + s + 1) mod 100 \<noteq> 0"
      then have "s = 3"
        using parts(6,7) by presburger
      then show ?thesis
        using leap by auto
    next
      assume leap: "(100 * c + 4 * q + s + 1) mod 400 = 0"
      have "100 * c + 4 * q + s + 1 \<ge> 400"
        by (rule ccontr) (use leap parts in auto)
      then show ?thesis
        using parts by linarith
    qed
  qed
  ultimately have "era_day (march_days y + t - k * 146097) c q s t"
    using parts assms by (simp add: era_day_def)
  then show thesis
    using that parts(1) by (simp add: n_def k_def)
qed

lemma fast_year:
  assumes z: "d + 719468 = 146097 * k + doe" and era: "era_day doe c q s t"
  shows "days_since_epoch_to_year d = word_of_int ((if 306 \<le> t then 1 else 0) + (100 * c + 4 * q + s + k * 400))"
proof -
  note e = era [unfolded era_day_def]
  have doe: "doe = 36524 * c + 1461 * q + 365 * s + t" "0 \<le> doe" "doe < 146097"
    using e by auto
  have k: "quot (if 0 \<le> d + 719468 then d + 719468 else d + 719468 - 146096) 146097 = k"
    unfolding era_floor using z doe(2,3) by (rule int_div_pos_eq)
  have d: "d + 719468 - k * 146097 = doe"
    using z by simp
  define yoe where "yoe = 100 * c + 4 * q + s"
  have yoe: "quot (doe - quot doe 1460 + quot doe 36524 - quot doe 146096) 365 = yoe"
    using year_of_era [OF era] doe(2) by (simp add: quot_pos yoe_def)
  have "yoe div 4 = 25 * c + q"
    by (rule int_div_pos_eq [of _ _ _ s]) (use e in \<open>simp_all add: yoe_def\<close>)
  moreover have "yoe div 100 = c"
    by (rule int_div_pos_eq [of _ _ _ "4 * q + s"]) (use e in \<open>simp_all add: yoe_def\<close>)
  moreover have "0 \<le> yoe"
    using e by (simp add: yoe_def)
  ultimately have doy: "doe - (365 * yoe + quot yoe 4 - quot yoe 100) = t"
    using doe(1) by (simp add: quot_pos) (simp add: yoe_def)
  show ?thesis
    unfolding days_since_epoch_to_year_def Let_def k d yoe doy yoe_def [symmetric] by (simp only: if_True if_False add.commute split: if_split) simp
qed

lemma year_of_civil_days:
  assumes "valid_date y m d"
  shows "days_since_epoch_to_year (civil_days y m d) = word_of_int y"
proof -
  let ?Y = "march_year y m"
  obtain t where t: "civil_days y m d + 719468 = march_days ?Y + t" "0 \<le> t" "t \<le> 365"
    "t = 365 \<longrightarrow> is_leap_year (?Y + 1)" "306 \<le> t \<longleftrightarrow> m \<le> 2"
    using civil_days_march [OF assms] by blast
  obtain c q s where era: "era_day (march_days ?Y + t - (?Y div 400) * 146097) c q s t" and Y: "?Y mod 400 = 100 * c + 4 * q + s"
    using march_year_era [OF t(2-4)] by blast
  have "civil_days y m d + 719468 = 146097 * (?Y div 400) + (march_days ?Y + t - (?Y div 400) * 146097)"
    using t(1) by simp
  then have "days_since_epoch_to_year (civil_days y m d) =
      word_of_int ((if 306 \<le> t then 1 else 0) + (100 * c + 4 * q + s + ?Y div 400 * 400))"
    using era by (rule fast_year)
  moreover have "100 * c + 4 * q + s + ?Y div 400 * 400 = ?Y"
    unfolding Y [symmetric] by simp
  ultimately have "days_since_epoch_to_year (civil_days y m d) = word_of_int ((if 306 \<le> t then 1 else 0) + ?Y)"
    by (simp only:)
  then show ?thesis
    using t(5) by (simp add: march_year_def)
qed

section \<open>A calendar\<close>

text \<open>An instance of the calendar: the year by the formula above, the month by a scan of the month lengths.\<close>

fun month_of_day :: "nat list \<Rightarrow> nat \<Rightarrow> nat \<Rightarrow> nat \<times> nat" where
  "month_of_day [] m r = (m, r + 1)"
| "month_of_day (n # ns) m r = (if r < n then (m, r + 1) else month_of_day ns (m + 1) (r - n))"

definition gregorian :: calendar where
  "gregorian =
     \<lparr>from_calendar_date = (\<lambda>y m d. if \<bar>y\<bar> \<le> 9999 \<and> valid_date y m d then Some (civil_days y m d + 2440588) else None),
      from_julian_day = (\<lambda>jd.
        let n = jd - 2440588; y = sint (days_since_epoch_to_year n)
        in Some (y, month_of_day (month_lengths y) 1 (nat (n - year_days y))))\<rparr>"

lemma month_of_day_at:
  "k < length ns \<Longrightarrow> r < ns ! k \<Longrightarrow> month_of_day ns m (sum_list (take k ns) + r) = (m + k, r + 1)"
proof (induction ns arbitrary: k m)
  case (Cons n ns)
  then show ?case
    by (cases k) (auto simp: add.assoc)
qed simp

lemma sint_small: "- (2 ^ (LENGTH('a) - 1)) \<le> i \<Longrightarrow> i < 2 ^ (LENGTH('a) - 1) \<Longrightarrow> sint (word_of_int i :: 'a::len word) = i"
  by (simp add: sint_sbintrunc' signed_take_bit_int_eq_self)

lemma valid_date_bounds:
  assumes "valid_date y m d"
  shows "1 \<le> m" "m \<le> 12" "1 \<le> d" "d \<le> 31"
proof -
  have "\<forall>n\<in>set (month_lengths y). n \<le> 31"
    by (simp add: month_lengths_def)
  then show "1 \<le> m" "m \<le> 12" "1 \<le> d" "d \<le> 31"
    using assms by (auto simp: valid_date_def month_lengths_def nth_Cons' split: if_splits)
qed

lemma gregorian_ok: "calendar_ok gregorian"
proof -
  have "from_julian_day gregorian (civil_days y m d + 2440588) = Some (y, m, d)"
    if "\<bar>y\<bar> \<le> 9999" "valid_date y m d" for y m d
  proof -
    note b = valid_date_bounds [OF that(2)]
    have "sint (days_since_epoch_to_year (civil_days y m d)) = y"
      using that(1) by (simp add: year_of_civil_days [OF that(2)] sint_small)
    moreover have "nat (civil_days y m d - year_days y) = sum_list (take (m - 1) (month_lengths y)) + (d - 1)"
      using b(3) by (simp add: civil_days_def)
    moreover have "month_of_day (month_lengths y) 1 (sum_list (take (m - 1) (month_lengths y)) + (d - 1)) = (m, d)"
      using that(2) b month_of_day_at [of "m - 1" "month_lengths y" "d - 1" 1]
      by (auto simp: valid_date_def month_lengths_def)
    ultimately show ?thesis
      by (simp add: gregorian_def Let_def)
  qed
  then show ?thesis
    by (simp add: calendar_ok_def gregorian_def)
qed

lemmas gregorian_eval = date_from_ymd_def gregorian_def valid_date_def civil_days_def year_days_def month_lengths_def
  is_leap_year_def

section \<open>Dates in the calendar\<close>

lemma civil_days_bounds:
  assumes "\<bar>y\<bar> \<le> 9999" "valid_date y m d"
  shows "- 5000000 \<le> civil_days y m d" "civil_days y m d \<le> 5000000"
proof -
  have "sum_list (take (m - 1) (month_lengths y)) \<le> 366"
    using sum_list_append [of "take (m - 1) (month_lengths y)" "drop (m - 1) (month_lengths y)"]
    by (simp add: month_lengths_def split: if_splits)
  then have off: "0 \<le> civil_days y m d - year_days y" "civil_days y m d - year_days y \<le> 400"
    using valid_date_bounds [OF assms(2)] by (simp_all add: civil_days_def)
  have y: "- 10000 \<le> y - 1" "y - 1 \<le> 9998"
    using assms(1) by simp_all
  then have "- 10000 div 4 \<le> (y - 1) div 4" "(y - 1) div 4 \<le> 9998 div 4" "- 10000 div 100 \<le> (y - 1) div 100"
    "(y - 1) div 100 \<le> 9998 div 100" "- 10000 div 400 \<le> (y - 1) div 400" "(y - 1) div 400 \<le> 9998 div 400"
    by (intro zdiv_mono1; simp)+
  then have "- 4900000 \<le> year_days y" "year_days y \<le> 4900000"
    using y unfolding year_days_def by simp_all
  then show "- 5000000 \<le> civil_days y m d" "civil_days y m d \<le> 5000000"
    using off by linarith+
qed

lemma from_calendar_date_ok:
  "calendar_ok K \<Longrightarrow> from_calendar_date K y m d =
     (if \<bar>y\<bar> \<le> 9999 \<and> valid_date y m d then Some (civil_days y m d + 2440588) else None)"
  by (simp add: calendar_ok_def)

lemma from_julian_day_ok:
  "calendar_ok K \<Longrightarrow> \<bar>y\<bar> \<le> 9999 \<Longrightarrow> valid_date y m d \<Longrightarrow> from_julian_day K (civil_days y m d + 2440588) = Some (y, m, d)"
  by (simp add: calendar_ok_def)

lemma date_from_ymd_Some:
  assumes "calendar_ok K" "date_from_ymd K y m d = Some dt"
  defines "mm \<equiv> unat (ucast m :: u8)" and "dd \<equiv> unat (ucast d :: u8)"
  shows "\<bar>sint y\<bar> \<le> 9999" "valid_date (sint y) mm dd" "dt = word_of_int (civil_days (sint y) mm dd)"
    "sint dt = civil_days (sint y) mm dd"
proof -
  show v: "\<bar>sint y\<bar> \<le> 9999" "valid_date (sint y) mm dd" and dt: "dt = word_of_int (civil_days (sint y) mm dd)"
    using assms(2) by (auto simp: date_from_ymd_def from_calendar_date_ok [OF assms(1)] Let_def mm_def dd_def split: if_splits)
  show "sint dt = civil_days (sint y) mm dd"
    using civil_days_bounds [OF v] by (simp add: dt sint_small)
qed

lemma date_to_ymd_at:
  assumes "calendar_ok K" "\<bar>y\<bar> \<le> 9999" "valid_date y m d"
  shows "date_to_ymd K (word_of_int (civil_days y m d)) = Inr (y, m, d)"
proof -
  have "sint (word_of_int (civil_days y m d) + 2440588 :: date) = sint (word_of_int (civil_days y m d + 2440588) :: date)"
    by simp
  also have "\<dots> = civil_days y m d + 2440588"
    by (rule sint_small) (use civil_days_bounds [OF assms(2,3)] in simp_all)
  finally show ?thesis
    by (simp add: date_to_ymd_def from_julian_day_ok [OF assms])
qed

text \<open>C35. A date built from year, month and day reads back as the same year, month and day, and the constant-time
  year extraction gives the same year as the calendar of the \<open>time\<close> package, on the whole range of dates.\<close>

theorem date_year_correct:
  assumes "calendar_ok K" "date_from_ymd K y m d = Some dt"
  shows "date_to_ymd K dt = Inr (sint y, unat (ucast m :: u8), unat (ucast d :: u8)) \<and> date_year dt = y"
proof
  note v = date_from_ymd_Some [OF assms]
  show "date_to_ymd K dt = Inr (sint y, unat (ucast m :: u8), unat (ucast d :: u8))"
    using date_to_ymd_at [OF assms(1) v(1,2)] v(3) by simp
  show "date_year dt = y"
    using year_of_civil_days [OF v(2)] v(4) by (simp add: date_year_def)
qed

theorem date_year_correct_witness:
  "date_from_ymd gregorian 2000 2 29 = Some 11016 \<and> date_to_ymd gregorian 11016 = Inr (2000, 2, 29) \<and> date_year 11016 = 2000"
proof -
  have "date_from_ymd gregorian 2000 2 29 = Some 11016"
    by (simp add: gregorian_eval)
  then show ?thesis
    using date_year_correct [OF gregorian_ok] by fastforce
qed

section \<open>Adding an interval\<close>

lemma civil_days_next_month:
  assumes "1 \<le> m" "m < 12"
  shows "civil_days y (m + 1) 1 - 1 = civil_days y m (month_lengths y ! (m - 1))"
proof -
  have "1 \<le> month_lengths y ! (m - 1)"
    using assms by (auto simp: month_lengths_def nth_Cons')
  moreover have "sum_list (take m (month_lengths y)) = sum_list (take (m - 1) (month_lengths y)) + month_lengths y ! (m - 1)"
    using take_Suc_conv_app_nth [of "m - 1" "month_lengths y"] assms by (simp add: month_lengths_def)
  ultimately show ?thesis
    by (simp add: civil_days_def)
qed

lemma civil_days_next_year: "civil_days (y + 1) 1 1 - 1 = civil_days y 12 31"
  using leap_count [of y] by (cases "is_leap_year y") (simp_all add: civil_days_def year_days_def month_lengths_def algebra_simps)

lemma days_in_month_correct:
  assumes K: "calendar_ok K" and y: "\<bar>y\<bar> \<le> 9999" and m: "1 \<le> m" "m \<le> 12" and last: "\<not> (y = 9999 \<and> m = 12)"
  shows "days_in_month K y m = month_lengths y ! (m - 1)"
proof -
  have len: "1 \<le> month_lengths y ! (k - 1)" if "k \<le> 12" "1 \<le> k" for k
    using that by (auto simp: month_lengths_def nth_Cons')
  have first: "valid_date y k 1" and end_: "valid_date y k (month_lengths y ! (k - 1))" if "1 \<le> k" "k \<le> 12" for k
    using that len [of k] by (simp_all add: valid_date_def)
  show ?thesis
  proof (cases "m = 12")
    case True
    have "\<bar>y + 1\<bar> \<le> 9999" "valid_date (y + 1) 1 1"
      using y last True by (auto simp: valid_date_def month_lengths_def)
    moreover have "from_julian_day K (civil_days y 12 31 + 2440588) = Some (y, 12, 31)"
      using end_ [of 12] by (intro from_julian_day_ok [OF K y]) (simp add: month_lengths_def)
    moreover have "civil_days (y + 1) 1 1 = civil_days y 12 31 + 1"
      using civil_days_next_year [of y] by simp
    ultimately show ?thesis
      using True y first [of 12]
      by (simp add: days_in_month_def from_calendar_date_ok [OF K] month_lengths_def add.commute)
  next
    case False
    have "from_julian_day K (civil_days y m (month_lengths y ! (m - 1)) + 2440588) = Some (y, m, month_lengths y ! (m - 1))"
      using end_ [of m] m by (intro from_julian_day_ok [OF K y]) simp
    moreover have "civil_days y (m + 1) 1 = civil_days y m (month_lengths y ! (m - 1)) + 1"
      using civil_days_next_month [of m y] m False by simp
    moreover have "valid_date y (m + 1) 1"
      using first [of "m + 1"] m False by simp
    ultimately show ?thesis
      using False m y first [of m]
      by (simp add: days_in_month_def from_calendar_date_ok [OF K] add.commute)
  qed
qed

text \<open>C36. Adding an interval to a date moves it by whole months, carrying into the year in both directions, to the
  same day of the month or the last day of a shorter month, and then adds the microseconds. It holds whenever the
  result is in the calendar, except in December 9999, whose length \<open>days_in_month\<close> takes for 30.\<close>

theorem date_add_interval_months:
  fixes iv :: interval
  assumes "calendar_ok K" "date_from_ymd K y m d = Some dt"
    and "n = sint y * 12 + (int (unat (ucast m :: u8)) - 1) + sint (months iv)" "ny = n div 12" "nm = nat (n mod 12) + 1"
    and "\<bar>ny\<bar> \<le> 9999" "\<not> (ny = 9999 \<and> nm = 12)"
  shows "date_add_interval K dt iv =
    Inr (word_of_int (civil_days ny nm (min (unat (ucast d :: u8)) (month_lengths ny ! (nm - 1)))) * 86400000000 + micros iv)"
proof -
  define mm dd where "mm = unat (ucast m :: u8)" and "dd = unat (ucast d :: u8)"
  note v = date_from_ymd_Some [OF assms(1,2), folded mm_def dd_def]
  note K = assms(1)
  have ymd: "date_to_ymd K dt = Inr (sint y, mm, dd)"
    using date_to_ymd_at [OF K v(1,2)] v(3) by simp
  have nm: "1 \<le> nm" "nm \<le> 12"
    by (simp_all add: assms(5) nat_le_iff)
  have "n = 12 * ny + n mod 12"
    by (simp add: assms(4))
  then have "- 200000 < n" "n < 200000"
    using assms(6) pos_mod_bound [of 12 n] pos_mod_sign [of 12 n] by linarith+
  then have total: "sint (word_of_int (sint y * 12 + (int mm - 1)) + months iv) = n"
    using sint_small [of n, where 'a = 32] by (simp add: assms(3) mm_def)
  define nd where "nd = min dd (month_lengths ny ! (nm - 1))"
  have len: "1 \<le> month_lengths ny ! (nm - 1)" "month_lengths ny ! (nm - 1) \<le> 31"
    using nm by (auto simp: month_lengths_def nth_Cons')
  have valid: "valid_date ny nm nd"
    using nm len valid_date_bounds [OF v(2)] by (simp add: valid_date_def nd_def)
  have words: "unat (ucast (of_nat nm :: u32) :: u8) = nm" "unat (ucast (of_nat nd :: u32) :: u8) = nd"
    using nm valid_date_bounds [OF valid] by (simp_all add: unsigned_ucast_eq unsigned_of_nat take_bit_nat_eq_self)
  have "date_from_ymd K (word_of_int ny) (of_nat nm) (of_nat nd) = Some (word_of_int (civil_days ny nm nd))"
    using nm assms(6) valid sint_small [of ny, where 'a = 32]
    by (simp add: date_from_ymd_def words from_calendar_date_ok [OF K])
  moreover have "scast (word_of_int (civil_days ny nm nd) :: date) = (word_of_int (civil_days ny nm nd) :: i64)"
    using civil_days_bounds [OF assms(6) valid] by (simp add: scast_eq sint_small)
  moreover have "date_add_interval K dt iv =
      Inr (scast (case date_from_ymd K (word_of_int ny) (of_nat nm) (of_nat (min dd (days_in_month K ny nm))) of
        Some b \<Rightarrow> b | None \<Rightarrow> dt) * 86400000000 + micros iv)"
    unfolding date_add_interval_def ymd bind_panic_simps prod.case Let_def total assms(4) [symmetric] assms(5) [symmetric] ..
  ultimately show ?thesis
    by (simp only: days_in_month_correct [OF K assms(6) nm assms(7)] option.case flip: nd_def dd_def)
qed

theorem date_add_interval_months_witness:
  "date_add_interval gregorian 11016 (from_months 36) = Inr (12111 * 86400000000) \<and> civil_days 2003 2 28 = 12111"
proof -
  have d: "date_from_ymd gregorian 2000 2 29 = Some 11016" and c: "civil_days 2003 2 28 = 12111"
    and l: "month_lengths 2003 ! 1 = 28"
    by (simp_all add: gregorian_eval)
  have "date_add_interval gregorian 11016 (from_months 36) =
      Inr (word_of_int (civil_days 2003 2 (min (unat (ucast (29 :: u32) :: u8)) (month_lengths 2003 ! (2 - 1)))) * 86400000000
        + micros (from_months 36))"
    by (rule date_add_interval_months [OF gregorian_ok d, where n = 24037]) (simp_all add: from_months_def)
  moreover have "unat (ucast (29 :: u32) :: u8) = 29" "micros (from_months 36) = 0" "2 - 1 = (1 :: nat)"
    by (simp_all add: from_months_def)
  ultimately show ?thesis
    using c l [unfolded One_nat_def] by simp
qed

section \<open>Cell encodings\<close>

lemma ucast_32_64: "ucast (ucast (w :: u32) :: u64) = w"
  by (rule bit_word_eqI) (simp add: bit_ucast_iff)

lemma date_from_to_u64 [simp]: "date_from_u64 (date_to_u64 dt) = dt"
  by (simp add: date_from_u64_def date_to_u64_def ucast_32_64)

lemma interval_from_to_u64_pair [simp]: "from_u64_pair (to_u64_pair iv) = iv"
  by (simp add: from_u64_pair_def to_u64_pair_def ucast_32_64)

lemma timestamp_of_parts: "from_date_time (fst (to_date_time ts)) (snd (to_date_time ts)) = ts"
proof -
  let ?q = "sint ts div 86400000000" and ?r = "sint ts mod 86400000000"
  have "- (2 ^ 63) div 86400000000 \<le> ?q" "?q \<le> (2 ^ 63 - 1) div 86400000000"
    using sint_ge [of ts] sint_lt [of ts] by (intro zdiv_mono1; simp)+
  then have "scast (word_of_int ?q :: date) = (word_of_int ?q :: i64)"
    by (simp add: scast_eq sint_small)
  then have "from_date_time (fst (to_date_time ts)) (snd (to_date_time ts)) =
      word_of_int ?q * word_of_int 86400000000 + word_of_int ?r"
    by (simp add: from_date_time_def to_date_time_def)
  also have "\<dots> = word_of_int (?q * 86400000000 + ?r)"
    by (simp only: of_int_add of_int_mult)
  finally show ?thesis
    by (simp only: div_mult_mod_eq) simp
qed

lemma parts_of_timestamp:
  assumes "\<bar>sint d\<bar> \<le> 100000000" "uint t < 86400000000"
  shows "to_date_time (from_date_time d t) = (d, t)"
proof -
  have d: "- 100000000 \<le> sint d" "sint d \<le> 100000000"
    using assms(1) by simp_all
  have "- 9000000000000000000 \<le> sint d * 86400000000 + uint t" "sint d * 86400000000 + uint t \<le> 9000000000000000000"
    using d assms(2) uint_ge_0 [of t] by linarith+
  then have "sint (word_of_int (sint d * 86400000000 + uint t) :: i64) = sint d * 86400000000 + uint t"
    by (intro sint_small) simp_all
  moreover have "from_date_time d t = word_of_int (sint d * 86400000000 + uint t)"
    by (simp only: from_date_time_def scast_eq of_int_add of_int_mult of_int_numeral word_of_int_uint)
  ultimately have "sint (from_date_time d t) = 86400000000 * sint d + uint t"
    by (simp only: mult.commute)
  moreover have "(86400000000 * sint d + uint t) div 86400000000 = sint d" "(86400000000 * sint d + uint t) mod 86400000000 = uint t"
    using assms(2) uint_ge_0 [of t] by simp_all
  ultimately show ?thesis
    by (simp only: to_date_time_def of_int_sint scast_id word_of_int_uint)
qed

end
