(* ===== verification/Sql_Ast.thy ===== *)
theory Sql_Ast
  imports Lexer
begin

text \<open>
  The syntax tree of expressions, \<open>src/sql/ast.rs\<close>: literals, operators, expressions, the column references of
  an expression and its display form. A double is its bit pattern; its decimal form is an argument.
\<close>

section \<open>Literals and operators\<close>

datatype sql_value =
    V_Int i64
  | V_Float u64
  | V_String rstring
  | V_Date i32
  | V_Hex "u8 list"
  | V_Null

definition value_is_null :: "sql_value \<Rightarrow> bool" where
  "value_is_null v \<longleftrightarrow> v = V_Null"

fun to_cell :: "sql_value \<Rightarrow> u64" where
  "to_cell (V_Int n) = n"
| "to_cell (V_Float f) = f"
| "to_cell (V_Date d) = scast d"
| "to_cell (V_String _) = 0"
| "to_cell (V_Hex _) = 0"
| "to_cell V_Null = 0"

text \<open>Decimal form of a signed word, and two upper-case hexadecimal digits.\<close>

definition show_int :: "'a::len word \<Rightarrow> string" where
  "show_int n = (if sint n < 0 then CHR ''-'' # show_nat (nat (- sint n)) else show_nat (nat (sint n)))"

definition show_hex2 :: "u8 \<Rightarrow> rstring" where
  "show_hex2 b = map (\<lambda>d. if d < 10 then 48 + d else 55 + d) [unat b div 16, unat b mod 16]"

definition quote_string :: "rstring \<Rightarrow> rstring" where
  "quote_string s = us [CHR 0x27] @ concat (map (\<lambda>c. if c = 39 then [39, 39] else [c]) s) @ us [CHR 0x27]"

fun display_value :: "(u64 \<Rightarrow> rstring) \<Rightarrow> sql_value \<Rightarrow> rstring" where
  "display_value show_f64 (V_Int n) = us (show_int n)"
| "display_value show_f64 (V_Float fl) = show_f64 fl"
| "display_value show_f64 (V_String s) = quote_string s"
| "display_value show_f64 (V_Date d) = us ''DATE '' @ us [CHR 0x27] @ us (show_int d) @ us [CHR 0x27]"
| "display_value show_f64 (V_Hex bytes) = us [CHR ''x'', CHR 0x27] @ concat (map show_hex2 bytes) @ us [CHR 0x27]"
| "display_value show_f64 V_Null = us ''NULL''"

datatype binop =
    Eq_Op | NotEq_Op | Lt_Op | Gt_Op | LtEq_Op | GtEq_Op | And_Op | Or_Op
  | Add_Op | Sub_Op | Mul_Op | Div_Op | Mod_Op | Concat_Op

definition binop_from_str :: "unicode \<Rightarrow> rstring \<Rightarrow> binop option" where
  "binop_from_str U op =
     map_of [(us ''='', Eq_Op), (us ''=='', Eq_Op), (us ''!='', NotEq_Op), (us ''<>'', NotEq_Op), (us ''<'', Lt_Op),
       (us ''>'', Gt_Op), (us ''<='', LtEq_Op), (us ''>='', GtEq_Op), (us ''AND'', And_Op), (us ''OR'', Or_Op),
       (us ''+'', Add_Op), (us ''-'', Sub_Op), (us ''*'', Mul_Op), (us ''/'', Div_Op), (us ''%'', Mod_Op),
       (us ''||'', Concat_Op)] (to_uppercase U op)"

fun binop_as_str :: "binop \<Rightarrow> string" where
  "binop_as_str Eq_Op = ''=''"
| "binop_as_str NotEq_Op = ''!=''"
| "binop_as_str Lt_Op = ''<''"
| "binop_as_str Gt_Op = ''>''"
| "binop_as_str LtEq_Op = ''<=''"
| "binop_as_str GtEq_Op = ''>=''"
| "binop_as_str And_Op = ''AND''"
| "binop_as_str Or_Op = ''OR''"
| "binop_as_str Add_Op = ''+''"
| "binop_as_str Sub_Op = ''-''"
| "binop_as_str Mul_Op = ''*''"
| "binop_as_str Div_Op = ''/''"
| "binop_as_str Mod_Op = ''%''"
| "binop_as_str Concat_Op = ''||''"

definition is_comparison :: "binop \<Rightarrow> bool" where
  "is_comparison op \<longleftrightarrow> op \<in> {Eq_Op, NotEq_Op, Lt_Op, Gt_Op, LtEq_Op, GtEq_Op}"

definition is_logical :: "binop \<Rightarrow> bool" where
  "is_logical op \<longleftrightarrow> op \<in> {And_Op, Or_Op}"

definition is_arithmetic :: "binop \<Rightarrow> bool" where
  "is_arithmetic op \<longleftrightarrow> op \<in> {Add_Op, Sub_Op, Mul_Op, Div_Op, Mod_Op}"

datatype unary_op = Neg_Op | Pos_Op

fun unary_as_str :: "unary_op \<Rightarrow> string" where
  "unary_as_str Neg_Op = ''-''"
| "unary_as_str Pos_Op = ''+''"

section \<open>Expressions\<close>

datatype expr =
    E_Column rstring
  | E_Literal sql_value
  | E_Binary expr binop expr
  | E_Unary unary_op expr
  | E_Not expr
  | E_Case "(expr \<times> expr) list" "expr option"
  | E_Function rstring "expr list" bool
  | E_Like expr expr bool
  | E_Between expr expr expr bool
  | E_InList expr "expr list" bool
  | E_IsNull expr bool
  | E_InSubquery expr rstring bool
  | E_Exists rstring bool
  | E_Extract rstring expr
  | E_Cast expr rstring
  | E_Wildcard
  | E_Paren expr

definition is_literal :: "expr \<Rightarrow> bool" where
  "is_literal e = (case e of E_Literal _ \<Rightarrow> True | _ \<Rightarrow> False)"

definition is_aggregate :: "unicode \<Rightarrow> expr \<Rightarrow> bool" where
  "is_aggregate U e =
     (case e of
        E_Function name _ _ \<Rightarrow> to_uppercase U name \<in> set (map us [''COUNT'', ''SUM'', ''AVG'', ''MIN'', ''MAX''])
      | _ \<Rightarrow> False)"

primrec expr_columns :: "expr \<Rightarrow> rstring list" where
  "expr_columns (E_Column name) = [name]"
| "expr_columns (E_Literal _) = []"
| "expr_columns E_Wildcard = []"
| "expr_columns (E_Binary left _ right) = expr_columns left @ expr_columns right"
| "expr_columns (E_Unary _ e) = expr_columns e"
| "expr_columns (E_Not e) = expr_columns e"
| "expr_columns (E_Paren e) = expr_columns e"
| "expr_columns (E_Case when_clauses else_clause) =
     concat (map (\<lambda>(cond, val). cond @ val) (map (map_prod expr_columns expr_columns) when_clauses))
     @ (case map_option expr_columns else_clause of None \<Rightarrow> [] | Some cols \<Rightarrow> cols)"
| "expr_columns (E_Function _ args _) = concat (map expr_columns args)"
| "expr_columns (E_Like e pattern _) = expr_columns e @ expr_columns pattern"
| "expr_columns (E_Between e low high _) = expr_columns e @ expr_columns low @ expr_columns high"
| "expr_columns (E_InList e list _) = expr_columns e @ concat (map expr_columns list)"
| "expr_columns (E_IsNull e _) = expr_columns e"
| "expr_columns (E_InSubquery e _ _) = expr_columns e"
| "expr_columns (E_Exists _ _) = []"
| "expr_columns (E_Extract _ e) = expr_columns e"
| "expr_columns (E_Cast e _) = expr_columns e"

fun join_text :: "rstring \<Rightarrow> rstring list \<Rightarrow> rstring" where
  "join_text sep [] = []"
| "join_text sep [s] = s"
| "join_text sep (s # ss) = s @ sep @ join_text sep ss"

primrec display_expr :: "(u64 \<Rightarrow> rstring) \<Rightarrow> expr \<Rightarrow> rstring" where
  "display_expr show_f64 (E_Column name) = name"
| "display_expr show_f64 (E_Literal v) = display_value show_f64 v"
| "display_expr show_f64 (E_Binary left op right) =
     us ''('' @ display_expr show_f64 left @ us '' '' @ us (binop_as_str op) @ us '' '' @ display_expr show_f64 right @ us '')''"
| "display_expr show_f64 (E_Unary op e) = us ''('' @ us (unary_as_str op) @ display_expr show_f64 e @ us '')''"
| "display_expr show_f64 (E_Not e) = us ''NOT '' @ display_expr show_f64 e"
| "display_expr show_f64 (E_Case when_clauses else_clause) =
     us ''CASE''
     @ concat (map (\<lambda>(cond, val). us '' WHEN '' @ cond @ us '' THEN '' @ val)
         (map (map_prod (display_expr show_f64) (display_expr show_f64)) when_clauses))
     @ (case map_option (display_expr show_f64) else_clause of None \<Rightarrow> [] | Some s \<Rightarrow> us '' ELSE '' @ s)
     @ us '' END''"
| "display_expr show_f64 (E_Function name args dist) =
     name @ us ''('' @ (if dist then us ''DISTINCT '' else [])
     @ (if list_all (\<lambda>a. a = E_Wildcard) args then us ''*'' else join_text (us '', '') (map (display_expr show_f64) args))
     @ us '')''"
| "display_expr show_f64 (E_Like e pattern negated) =
     display_expr show_f64 e @ (if negated then us '' NOT'' else []) @ us '' LIKE '' @ display_expr show_f64 pattern"
| "display_expr show_f64 (E_Between e low high negated) =
     display_expr show_f64 e @ (if negated then us '' NOT'' else []) @ us '' BETWEEN '' @ display_expr show_f64 low
     @ us '' AND '' @ display_expr show_f64 high"
| "display_expr show_f64 (E_InList e list negated) =
     display_expr show_f64 e @ (if negated then us '' NOT'' else []) @ us '' IN (''
     @ join_text (us '', '') (map (display_expr show_f64) list) @ us '')''"
| "display_expr show_f64 (E_IsNull e negated) =
     display_expr show_f64 e @ us '' IS'' @ (if negated then us '' NOT'' else []) @ us '' NULL''"
| "display_expr show_f64 (E_InSubquery e _ negated) =
     display_expr show_f64 e @ (if negated then us '' NOT'' else []) @ us '' IN (SELECT ...)''"
| "display_expr show_f64 (E_Exists _ negated) = (if negated then us ''NOT '' else []) @ us ''EXISTS (SELECT ...)''"
| "display_expr show_f64 (E_Extract field e) = us ''EXTRACT('' @ field @ us '' FROM '' @ display_expr show_f64 e @ us '')''"
| "display_expr show_f64 (E_Cast e target_type) = us ''CAST('' @ display_expr show_f64 e @ us '' AS '' @ target_type @ us '')''"
| "display_expr show_f64 E_Wildcard = us ''*''"
| "display_expr show_f64 (E_Paren e) = us ''('' @ display_expr show_f64 e @ us '')''"

section \<open>Facts\<close>

lemma binop_from_as_str: "binop_from_str U (us (binop_as_str op)) = Some op"
  by (cases op) (simp_all add: binop_from_str_def to_uppercase_def is_ascii_lower_def)

lemma quote_string_double: "quote_string s = double_quote 39 s"
  by (simp add: quote_string_def double_quote_def)

end
