(* ===== verification/Token_Parser.thy ===== *)
theory Token_Parser
  imports Io_Monad Sql_Ast "HOL-Library.Sublist"
begin

text \<open>
  The cursor of the recursive-descent parsers (\<open>Parser\<close> in \<open>src/sql/parser.rs\<close> and its copies in the other files of
  \<open>src/sql\<close>). The state is the list of the tokens from the cursor on, so that saving and restoring the position is
  keeping a list. \<open>peek\<close> indexes the token vector and panics behind its end; \<open>next\<close> stays on EOF.

  A loop runs as long as its body asks for another round. A round that consumes no token would be repeated forever;
  the model then returns the value \<open>Diverges\<close>, and so does a recursive call that has not consumed a token. The
  relation \<open>parser_rel\<close> and its rules show of a parser, in one pass over its text, that on a token list closed by EOF
  it never panics and never diverges, how many tokens it consumes at least, and that it makes recursive calls only
  on shorter lists.
\<close>

section \<open>Cursor\<close>

datatype parse_error =
    Parse_Panic panic
  | Diverges
  | Parse_Error string "token option"

type_synonym 'a parser = "(parse_error, token list, 'a) fallible"

definition p_peek :: "token parser" where
  "p_peek ts = (case ts of [] \<Rightarrow> (Inl (Parse_Panic Index_Out_Of_Bounds), ts) | t # _ \<Rightarrow> (Inr t, ts))"

definition p_next :: "token parser" where
  "p_next ts = (case ts of [] \<Rightarrow> (Inr Tok_EOF, ts) | t # rest \<Rightarrow> if t = Tok_EOF then (Inr t, ts) else (Inr t, rest))"

text \<open>\<open>format!("... got {:?}", self.peek())\<close>\<close>

definition p_expected :: "string \<Rightarrow> 'a parser" where
  "p_expected msg = io_bind p_peek (\<lambda>t. io_fail (Parse_Error msg (Some t)))"

definition p_error :: "string \<Rightarrow> 'a parser" where
  "p_error msg = io_fail (Parse_Error msg None)"

definition p_match :: "(token \<Rightarrow> bool) \<Rightarrow> bool parser" where
  "p_match q = io_bind p_peek (\<lambda>t. if q t then io_bind p_next (\<lambda>_. io_return True) else io_return False)"

definition is_keyword :: "string \<Rightarrow> token \<Rightarrow> bool" where
  "is_keyword kw t \<longleftrightarrow> t = Tok_Keyword (us kw)"

definition match_keyword :: "string \<Rightarrow> bool parser" where
  "match_keyword kw = p_match (is_keyword kw)"

definition expect_keyword :: "string \<Rightarrow> unit parser" where
  "expect_keyword kw =
     io_bind (match_keyword kw) (\<lambda>b. if b then io_return () else p_expected (''expected keyword '' @ kw))"

definition match_op :: "string \<Rightarrow> bool parser" where
  "match_op op = p_match (\<lambda>t. t = Tok_Op op)"

definition ascii_lower_char :: "rchar \<Rightarrow> rchar" where
  "ascii_lower_char c = (if is_ascii_upper c then c + 32 else c)"

definition eq_ignore_ascii_case :: "rstring \<Rightarrow> rstring \<Rightarrow> bool" where
  "eq_ignore_ascii_case s t \<longleftrightarrow> map ascii_lower_char s = map ascii_lower_char t"

fun token_is_word :: "string \<Rightarrow> token \<Rightarrow> bool" where
  "token_is_word name (Tok_Ident s) = eq_ignore_ascii_case s (us name)"
| "token_is_word name (Tok_Keyword k) = eq_ignore_ascii_case k (us name)"
| "token_is_word name _ = False"

definition match_ident :: "string \<Rightarrow> bool parser" where
  "match_ident name = p_match (token_is_word name)"

abbreviation io_then :: "('e, 's, 'a) fallible \<Rightarrow> ('e, 's, 'b) fallible \<Rightarrow> ('e, 's, 'b) fallible" where
  "io_then m n \<equiv> io_bind m (\<lambda>_. n)"

text \<open>Two tokens in a row; if the second one does not match, the position is restored.\<close>

definition p_match2 :: "(token \<Rightarrow> bool) \<Rightarrow> (token \<Rightarrow> bool) \<Rightarrow> bool parser" where
  "p_match2 q1 q2 ts =
     (case io_bind (p_match q1) (\<lambda>b. if b then p_match q2 else io_return False) ts of
        (Inr False, _) \<Rightarrow> (Inr False, ts)
      | r \<Rightarrow> r)"

text \<open>Whether the next two tokens match; the position is restored in any case.\<close>

definition p_lookahead2 :: "(token \<Rightarrow> bool) \<Rightarrow> (token \<Rightarrow> bool) \<Rightarrow> bool parser" where
  "p_lookahead2 q1 q2 ts = (fst (p_match2 q1 q2 ts), ts)"

text \<open>Consume the given punctuation, else an error.\<close>

definition p_expect :: "token \<Rightarrow> string \<Rightarrow> unit parser" where
  "p_expect t msg = io_bind p_peek (\<lambda>t'. if t' = t then io_bind p_next (\<lambda>_. io_return ()) else p_expected msg)"

text \<open>\<open>if self.match_keyword(kw) { Some(...) } else { None }\<close>\<close>

definition p_optional :: "bool parser \<Rightarrow> 'a parser \<Rightarrow> 'a option parser" where
  "p_optional m p = io_bind m (\<lambda>b. if b then io_bind p (\<lambda>x. io_return (Some x)) else io_return None)"

text \<open>\<open>loop { ... }\<close>: the body gives the state of the next round or the value to leave with.\<close>

function p_loop :: "('a \<Rightarrow> ('a + 'b) parser) \<Rightarrow> 'a \<Rightarrow> 'b parser" where
  "p_loop body acc ts =
     (case body acc ts of
        (Inl e, rest) \<Rightarrow> (Inl e, rest)
      | (Inr (Inr b), rest) \<Rightarrow> (Inr b, rest)
      | (Inr (Inl acc'), rest) \<Rightarrow> if length rest < length ts then p_loop body acc' rest else (Inl Diverges, rest))"
  by pat_completeness auto
termination
  by (relation "measure (\<lambda>(body, acc, ts). length ts)") auto

declare p_loop.simps [simp del]

text \<open>A recursive call, which is followed on a shorter list only.\<close>

definition shorter :: "token list \<Rightarrow> 'a parser \<Rightarrow> 'a parser" where
  "shorter ts p = (\<lambda>ts'. if length ts' < length ts then p ts' else (Inl Diverges, ts'))"

lemma shorter_cong [fundef_cong]:
  "ts = ts' \<Longrightarrow> (\<And>x. length x < length ts' \<Longrightarrow> p x = q x) \<Longrightarrow> shorter ts p = shorter ts' q"
  by (auto simp: shorter_def)

section \<open>Progress and safety\<close>

definition eof_closed :: "token list \<Rightarrow> bool" where
  "eof_closed ts \<longleftrightarrow> (\<exists>us. ts = us @ [Tok_EOF])"

fun genuine :: "parse_error \<Rightarrow> bool" where
  "genuine (Parse_Error _ _) = True"
| "genuine _ = False"

text \<open>On lists of at most \<open>B\<close> tokens whose first token satisfies \<open>P\<close>, the two parsers agree, a failure is an error
  of the statement, and a success with value \<open>x\<close> consumes at least \<open>k x\<close> tokens.\<close>

fun ok_result :: "('a \<Rightarrow> nat) \<Rightarrow> token list \<Rightarrow> (parse_error + 'a) \<times> token list \<Rightarrow> bool" where
  "ok_result k ts (Inl e, _) = genuine e"
| "ok_result k ts (Inr x, rest) = (suffix rest ts \<and> eof_closed rest \<and> length rest + k x \<le> length ts)"

definition parser_rel :: "(token \<Rightarrow> bool) \<Rightarrow> nat \<Rightarrow> ('a \<Rightarrow> nat) \<Rightarrow> 'a parser \<Rightarrow> 'a parser \<Rightarrow> bool" where
  "parser_rel P B k p q \<longleftrightarrow>
     (\<forall>ts. eof_closed ts \<and> length ts \<le> B \<and> P (hd ts) \<longrightarrow> p ts = q ts \<and> ok_result k ts (p ts))"

abbreviation any_token :: "token \<Rightarrow> bool" where
  "any_token t \<equiv> True"

named_theorems parser_rules

lemma eof_closed_Cons: "eof_closed (t # ts) \<longleftrightarrow> ts = [] \<and> t = Tok_EOF \<or> eof_closed ts"
  by (cases ts rule: rev_cases) (auto simp: eof_closed_def)

lemma eof_closed_Nil [simp]: "\<not> eof_closed []"
  by (simp add: eof_closed_def)

lemma eof_closed_tl: "eof_closed (t # ts) \<Longrightarrow> t \<noteq> Tok_EOF \<Longrightarrow> eof_closed ts"
  by (simp add: eof_closed_Cons)

lemma parser_relD:
  "parser_rel P B k p q \<Longrightarrow> eof_closed ts \<Longrightarrow> length ts \<le> B \<Longrightarrow> P (hd ts) \<Longrightarrow> p ts = q ts \<and> ok_result k ts (p ts)"
  unfolding parser_rel_def by blast

lemma ok_result_weaken: "ok_result k ts r \<Longrightarrow> (\<And>x. k' x \<le> k x) \<Longrightarrow> ok_result k' ts r"
  by (cases "(k, ts, r)" rule: ok_result.cases) (auto intro: le_trans [OF add_left_mono])

lemma parser_rel_weaken:
  "parser_rel P B k p q \<Longrightarrow> (\<And>t. P' t \<Longrightarrow> P t) \<Longrightarrow> B' \<le> B \<Longrightarrow> (\<And>x. k' x \<le> k x) \<Longrightarrow> parser_rel P' B' k' p q"
  unfolding parser_rel_def by (meson le_trans ok_result_weaken)

lemma parser_rel_return [parser_rules]: "k x = 0 \<Longrightarrow> parser_rel P B k (io_return x) (io_return x)"
  by (simp add: parser_rel_def)

lemma parser_rel_fail [parser_rules]: "genuine e \<Longrightarrow> parser_rel P B k (io_fail e) (io_fail e)"
  by (simp add: parser_rel_def)

lemma parser_rel_error [parser_rules]: "parser_rel P B k (p_error msg) (p_error msg)"
  by (simp add: p_error_def parser_rel_fail)

lemma parser_rel_bind:
  assumes "parser_rel P B j p q" "\<And>x. parser_rel any_token (B - j x) (\<lambda>y. k y - j x) (f x) (g x)"
  shows "parser_rel P B k (io_bind p f) (io_bind q g)"
  unfolding parser_rel_def
proof (intro allI impI)
  fix ts
  assume ts: "eof_closed ts \<and> length ts \<le> B \<and> P (hd ts)"
  then have p: "p ts = q ts" "ok_result j ts (p ts)"
    using parser_relD [OF assms(1)] by blast+
  obtain r rest where r: "p ts = (r, rest)"
    by (cases "p ts")
  then have q: "q ts = (r, rest)" and ok: "ok_result j ts (r, rest)"
    using p by metis+
  show "io_bind p f ts = io_bind q g ts \<and> ok_result k ts (io_bind p f ts)"
  proof (cases r)
    case (Inl e)
    then show ?thesis
      using r q ok by simp
  next
    case (Inr x)
    then have rest: "suffix rest ts" "eof_closed rest" "length rest + j x \<le> length ts"
      using ok by simp_all
    then have "length rest \<le> B - j x"
      using ts by linarith
    then have fg: "f x rest = g x rest" "ok_result (\<lambda>y. k y - j x) rest (f x rest)"
      using parser_relD [OF assms(2) [of x] rest(2)] by blast+
    obtain r' rest' where r': "f x rest = (r', rest')"
      by (cases "f x rest")
    then have "ok_result (\<lambda>y. k y - j x) rest (r', rest')"
      using fg(2) by metis
    then have "ok_result k ts (r', rest')"
      using rest by (cases r') (auto intro: suffix_order.trans)
    then show ?thesis
      using r q Inr fg(1) r' by simp
  qed
qed

lemma parser_rel_bind_peek [parser_rules]:
  assumes "\<And>t. P t \<Longrightarrow> parser_rel ((=) t) B k (f t) (g t)"
  shows "parser_rel P B k (io_bind p_peek f) (io_bind p_peek g)"
  unfolding parser_rel_def
proof (intro allI impI)
  fix ts
  assume ts: "eof_closed ts \<and> length ts \<le> B \<and> P (hd ts)"
  then obtain t us where t: "ts = t # us"
    by (cases ts) auto
  then have "p_peek ts = (Inr t, ts)"
    by (simp add: p_peek_def)
  moreover have "P t" "t = hd ts"
    using ts t by simp_all
  then have "f t ts = g t ts \<and> ok_result k ts (f t ts)"
    using parser_relD [OF assms [OF \<open>P t\<close>]] ts by blast
  ultimately show "io_bind p_peek f ts = io_bind p_peek g ts \<and> ok_result k ts (io_bind p_peek f ts)"
    by (metis io_bind_run(1))
qed

lemma parser_rel_peek [parser_rules]: "(\<And>t. k t = 0) \<Longrightarrow> parser_rel P B k p_peek p_peek"
  by (auto simp: parser_rel_def p_peek_def split: list.split)

lemma p_next_result: "eof_closed ts \<Longrightarrow> ok_result (\<lambda>_. if hd ts = Tok_EOF then 0 else 1) ts (p_next ts)"
  by (cases ts) (auto simp: p_next_def suffix_Cons eof_closed_tl)

lemma parser_rel_next:
  assumes "\<And>t. P t \<Longrightarrow> t \<noteq> Tok_EOF"
  shows "parser_rel P B (\<lambda>_. 1) p_next p_next"
proof -
  have "ok_result (\<lambda>_. 1) ts (p_next ts)" if "eof_closed ts" "P (hd ts)" for ts
    using p_next_result [OF that(1)] assms [OF that(2)] by simp
  then show ?thesis
    by (simp add: parser_rel_def)
qed

lemma parser_rel_next_weak: "parser_rel P B (\<lambda>_. 0) p_next p_next"
  unfolding parser_rel_def by (blast intro: ok_result_weaken [OF p_next_result])

lemma parser_rel_expected [parser_rules]: "parser_rel P B k (p_expected msg) (p_expected msg)"
  unfolding p_expected_def by (intro parser_rules) simp

lemma parser_rel_if [parser_rules]:
  "(b \<Longrightarrow> parser_rel P B k p q) \<Longrightarrow> (\<not> b \<Longrightarrow> parser_rel P B k p' q') \<Longrightarrow>
    parser_rel P B k (if b then p else p') (if b then q else q')"
  by simp

lemma parser_rel_option [parser_rules]:
  "(x = None \<Longrightarrow> parser_rel P B k p q) \<Longrightarrow> (\<And>y. x = Some y \<Longrightarrow> parser_rel P B k (f y) (g y)) \<Longrightarrow>
    parser_rel P B k (case x of None \<Rightarrow> p | Some y \<Rightarrow> f y) (case x of None \<Rightarrow> q | Some y \<Rightarrow> g y)"
  by (simp split: option.split)

lemma parser_rel_token [parser_rules]:
  assumes "\<And>x. t = Tok_Keyword x \<Longrightarrow> parser_rel P B k (f1 x) (g1 x)" "\<And>x. t = Tok_Ident x \<Longrightarrow> parser_rel P B k (f2 x) (g2 x)"
    "\<And>x. t = Tok_Int x \<Longrightarrow> parser_rel P B k (f3 x) (g3 x)" "\<And>x. t = Tok_Float x \<Longrightarrow> parser_rel P B k (f4 x) (g4 x)"
    "\<And>x. t = Tok_String x \<Longrightarrow> parser_rel P B k (f5 x) (g5 x)" "\<And>x. t = Tok_Hex x \<Longrightarrow> parser_rel P B k (f6 x) (g6 x)"
    "\<And>x. t = Tok_Param x \<Longrightarrow> parser_rel P B k (f7 x) (g7 x)" "t = Tok_QuestionMark \<Longrightarrow> parser_rel P B k f8 g8"
    "\<And>x. t = Tok_Op x \<Longrightarrow> parser_rel P B k (f9 x) (g9 x)" "t = Tok_LParen \<Longrightarrow> parser_rel P B k f10 g10"
    "t = Tok_RParen \<Longrightarrow> parser_rel P B k f11 g11" "t = Tok_Comma \<Longrightarrow> parser_rel P B k f12 g12"
    "t = Tok_Semicolon \<Longrightarrow> parser_rel P B k f13 g13" "t = Tok_EOF \<Longrightarrow> parser_rel P B k f14 g14"
  shows "parser_rel P B k (case_token f1 f2 f3 f4 f5 f6 f7 f8 f9 f10 f11 f12 f13 f14 t)
    (case_token g1 g2 g3 g4 g5 g6 g7 g8 g9 g10 g11 g12 g13 g14 t)"
  using assms by (cases t) simp_all

text \<open>Rules for a bound step: a token that is not EOF, a test of the next token, a loop, a recursive call.\<close>

lemma parser_rel_bind_next [parser_rules]:
  assumes "\<And>t. P t \<Longrightarrow> t \<noteq> Tok_EOF" "\<And>t. parser_rel any_token (B - 1) (\<lambda>y. k y - 1) (f t) (g t)"
  shows "parser_rel P B k (io_bind p_next f) (io_bind p_next g)"
  by (rule parser_rel_bind [OF parser_rel_next]) (use assms in auto)

lemma p_match_rel: "\<not> q Tok_EOF \<Longrightarrow> parser_rel P B (\<lambda>b. if b then 1 else 0) (p_match q) (p_match q)"
  unfolding p_match_def by (rule parser_rules | simp; fail | clarsimp)+

lemma parser_rel_bind_match [parser_rules]:
  assumes "\<not> q Tok_EOF" "parser_rel any_token (B - 1) (\<lambda>y. k y - 1) (f True) (g True)" "parser_rel P B k (f False) (g False)"
  shows "parser_rel P B k (io_bind (p_match q) f) (io_bind (p_match q) g)"
  unfolding parser_rel_def
proof (intro allI impI)
  fix ts
  assume ts: "eof_closed ts \<and> length ts \<le> B \<and> P (hd ts)"
  then obtain t us where t: "ts = t # us"
    by (cases ts) auto
  show "io_bind (p_match q) f ts = io_bind (p_match q) g ts \<and> ok_result k ts (io_bind (p_match q) f ts)"
  proof (cases "q t")
    case True
    then have eof: "t \<noteq> Tok_EOF"
      using assms(1) by blast
    then have us: "eof_closed us" "length us \<le> B - 1"
      using ts t eof_closed_tl by auto
    have m: "p_match q ts = (Inr True, us)"
      using True t eof by (simp add: p_match_def p_peek_def p_next_def io_bind_def)
    have fg: "f True us = g True us" "ok_result (\<lambda>y. k y - 1) us (f True us)"
      using parser_relD [OF assms(2)] us by blast+
    obtain r rest where r: "f True us = (r, rest)"
      by (cases "f True us")
    then have "ok_result (\<lambda>y. k y - 1) us (r, rest)"
      using fg(2) by metis
    then have "ok_result k ts (r, rest)"
      using t by (cases r) (auto simp: suffix_Cons)
    then show ?thesis
      using fg(1) m r by (metis io_bind_run(1))
  next
    case False
    then have "p_match q ts = (Inr False, ts)"
      using t by (simp add: p_match_def p_peek_def io_bind_def)
    then show ?thesis
      using parser_relD [OF assms(3)] ts by (metis io_bind_run(1))
  qed
qed

lemma p_loop_rel:
  assumes "\<And>acc. parser_rel any_token B (case_sum (\<lambda>_. 1) (\<lambda>_. 0)) (body acc) (body' acc)"
  shows "parser_rel any_token B (\<lambda>_. 0) (p_loop body acc) (p_loop body' acc)"
proof -
  have "p_loop body acc ts = p_loop body' acc ts \<and> ok_result (\<lambda>_. 0) ts (p_loop body acc ts)"
    if "eof_closed ts" "length ts \<le> B" for ts
    using that
  proof (induction ts arbitrary: acc rule: length_induct)
    case (1 ts)
    have step: "body acc ts = body' acc ts" "ok_result (case_sum (\<lambda>_. 1) (\<lambda>_. 0)) ts (body acc ts)"
      using parser_relD [OF assms [of acc] "1.prems"] by blast+
    obtain r rest where r: "body acc ts = (r, rest)"
      by (cases "body acc ts")
    then have r': "body' acc ts = (r, rest)" and ok: "ok_result (case_sum (\<lambda>_. 1) (\<lambda>_. 0)) ts (r, rest)"
      using step by metis+
    note unfolded = p_loop.simps [of body acc ts] p_loop.simps [of body' acc ts]
    consider (error) e where "r = Inl e" | (leave) b where "r = Inr (Inr b)" | (again) acc' where "r = Inr (Inl acc')"
      by (metis sum.exhaust)
    then show ?case
    proof cases
      case again
      then have rest: "suffix rest ts" "eof_closed rest" "length rest < length ts"
        using ok by auto
      then have "p_loop body acc' rest = p_loop body' acc' rest \<and> ok_result (\<lambda>_. 0) rest (p_loop body acc' rest)"
        using "1.IH" "1.prems" by (meson less_imp_le_nat le_trans)
      moreover have "p_loop body acc ts = p_loop body acc' rest" "p_loop body' acc ts = p_loop body' acc' rest"
        using again r r' rest(3) by (simp_all add: unfolded)
      moreover have "ok_result (\<lambda>_. 0) ts x" if "ok_result (\<lambda>_. 0) rest x" for x :: "(parse_error + 'b) \<times> token list"
        using that rest by (cases "(\<lambda>_ :: 'b. 0 :: nat, rest, x)" rule: ok_result.cases) (auto intro: suffix_order.trans)
      ultimately show ?thesis
        by metis
    qed (use ok r r' in \<open>auto simp: unfolded\<close>)
  qed
  then show ?thesis
    unfolding parser_rel_def by blast
qed

lemmas p_loop_bind [parser_rules] = parser_rel_bind [OF parser_rel_weaken [OF p_loop_rel _ order_refl order_refl, OF _ TrueI]]

lemma p_loop_tail [parser_rules]:
  assumes "\<And>acc. parser_rel any_token B (case_sum (\<lambda>_. 1) (\<lambda>_. 0)) (body acc) (body' acc)" "\<And>x. k x = 0"
  shows "parser_rel P B k (p_loop body acc) (p_loop body' acc)"
  by (rule parser_rel_weaken [OF p_loop_rel]) (use assms in auto)

text \<open>A recursive parser: if one more level keeps the relation of the recursive calls, the guard never fires.\<close>

lemma shorter_rel: "parser_rel any_token B k p p \<Longrightarrow> B < length ts \<Longrightarrow> parser_rel any_token B k (shorter ts p) p"
  by (simp add: parser_rel_def shorter_def)

lemma recursive_parser:
  assumes rec: "\<And>ts. p ts = F (shorter ts p) ts"
    and step: "\<And>B r r'. parser_rel any_token B k r r' \<Longrightarrow> parser_rel any_token (Suc B) k (F r) (F r')"
  shows "parser_rel any_token B k p p \<and> parser_rel any_token B k p (F p)"
proof (induction B)
  case 0
  show ?case
    by (auto simp: parser_rel_def)
next
  case (Suc B)
  have "p ts = F p ts \<and> ok_result k ts (p ts)" if ts: "eof_closed ts" "length ts \<le> Suc B" for ts
  proof (cases "length ts \<le> B")
    case True
    then show ?thesis
      using Suc ts(1) unfolding parser_rel_def by blast
  next
    case False
    then have "parser_rel any_token (Suc B) k (F (shorter ts p)) (F p)"
      using Suc by (intro step shorter_rel) simp_all
    from parser_relD [OF this ts] show ?thesis
      by (metis rec)
  qed
  then show ?case
    unfolding parser_rel_def by blast
qed

lemma shorter_both:
  assumes "parser_rel any_token B k p q" "B < length ts"
  shows "parser_rel any_token B k (shorter ts p) (shorter ts q)"
  unfolding parser_rel_def
proof (intro allI impI)
  fix ts'
  assume ts': "eof_closed ts' \<and> length ts' \<le> B \<and> True"
  then have "shorter ts p ts' = p ts'" "shorter ts q ts' = q ts'"
    using assms(2) by (simp_all add: shorter_def)
  then show "shorter ts p ts' = shorter ts q ts' \<and> ok_result k ts' (shorter ts p ts')"
    using parser_relD [OF assms(1)] ts' by metis
qed

lemma recursive_parsers:
  assumes rec: "\<And>ts. p ts = F (shorter ts p) ts" "\<And>ts. q ts = G (shorter ts q) ts"
    and step: "\<And>B r r'. parser_rel any_token B k r r' \<Longrightarrow> Suc B \<le> N \<Longrightarrow> parser_rel any_token (Suc B) k (F r) (G r')"
  shows "parser_rel any_token N k p q"
proof -
  have "parser_rel any_token B k p q" if "B \<le> N" for B
    using that
  proof (induction B)
    case 0
    show ?case
      by (auto simp: parser_rel_def)
  next
    case (Suc B)
    have "p ts = q ts \<and> ok_result k ts (p ts)" if ts: "eof_closed ts" "length ts \<le> Suc B" for ts
    proof (cases "length ts \<le> B")
      case True
      then show ?thesis
        using Suc ts(1) unfolding parser_rel_def by (meson Suc_leD)
    next
      case False
      then have "parser_rel any_token B k (shorter ts p) (shorter ts q)"
        using Suc by (intro shorter_both) simp_all
      then have "parser_rel any_token (Suc B) k (F (shorter ts p)) (G (shorter ts q))"
        using Suc.prems by (rule step)
      from parser_relD [OF this ts] show ?thesis
        by (metis rec)
    qed
    then show ?case
      unfolding parser_rel_def by blast
  qed
  then show ?thesis
    by simp
qed

lemma is_keyword_EOF [simp]: "\<not> is_keyword kw Tok_EOF"
  by (simp add: is_keyword_def)

lemmas match_defs = match_keyword_def match_op_def match_ident_def

lemma expect_keyword_rel: "parser_rel P B (\<lambda>_. 1) (expect_keyword kw) (expect_keyword kw)"
  unfolding expect_keyword_def match_defs by (rule parser_rules | simp; fail)+

lemma p_expect_rel: "t \<noteq> Tok_EOF \<Longrightarrow> parser_rel P B (\<lambda>_. 1) (p_expect t msg) (p_expect t msg)"
  unfolding p_expect_def by (rule parser_rules | simp; fail)+

lemmas expect_binds [parser_rules] = parser_rel_bind [OF expect_keyword_rel] parser_rel_bind [OF p_expect_rel]

lemma p_match2_run:
  assumes "eof_closed (t # ts)" "\<not> q1 Tok_EOF" "\<not> q2 Tok_EOF"
  shows "p_match2 q1 q2 (t # ts) = (if q1 t \<and> q2 (hd ts) then (Inr True, tl ts) else (Inr False, t # ts))"
proof (cases "q1 t")
  case True
  then have "t \<noteq> Tok_EOF"
    using assms(2) by blast
  then obtain u us where "ts = u # us"
    using assms(1) eof_closed_tl [of t ts] by (cases ts) auto
  then show ?thesis
    using True assms(3) \<open>t \<noteq> Tok_EOF\<close>
    by (cases "q2 u") (auto simp: p_match2_def p_match_def p_peek_def p_next_def io_bind_def)
qed (simp add: p_match2_def p_match_def p_peek_def io_bind_def)

lemma parser_rel_bind_match2 [parser_rules]:
  assumes "\<not> q1 Tok_EOF" "\<not> q2 Tok_EOF" "parser_rel any_token (B - 2) (\<lambda>y. k y - 2) (f True) (g True)"
    "parser_rel P B k (f False) (g False)"
  shows "parser_rel P B k (io_bind (p_match2 q1 q2) f) (io_bind (p_match2 q1 q2) g)"
  unfolding parser_rel_def
proof (intro allI impI)
  fix ts
  assume ts: "eof_closed ts \<and> length ts \<le> B \<and> P (hd ts)"
  then obtain t us where t: "ts = t # us"
    by (cases ts) auto
  have m: "p_match2 q1 q2 ts = (if q1 t \<and> q2 (hd us) then (Inr True, tl us) else (Inr False, ts))"
    using p_match2_run [of t us q1 q2, OF _ assms(1,2)] ts t by simp
  show "io_bind (p_match2 q1 q2) f ts = io_bind (p_match2 q1 q2) g ts \<and> ok_result k ts (io_bind (p_match2 q1 q2) f ts)"
  proof (cases "q1 t \<and> q2 (hd us)")
    case True
    then have eof: "t \<noteq> Tok_EOF" "hd us \<noteq> Tok_EOF"
      using assms(1,2) by metis+
    then have "eof_closed us"
      using ts t eof_closed_tl by auto
    then obtain u vs where u: "us = u # vs"
      by (cases us) auto
    then have vs: "eof_closed vs" "length vs \<le> B - 2"
      using ts t eof eof_closed_tl \<open>eof_closed us\<close> by auto
    have fg: "f True vs = g True vs" "ok_result (\<lambda>y. k y - 2) vs (f True vs)"
      using parser_relD [OF assms(3)] vs by blast+
    obtain r rest where r: "f True vs = (r, rest)"
      by (cases "f True vs")
    then have "ok_result (\<lambda>y. k y - 2) vs (r, rest)"
      using fg(2) by metis
    then have "ok_result k ts (r, rest)"
      using t u by (cases r) (auto simp: suffix_Cons)
    moreover have "p_match2 q1 q2 ts = (Inr True, vs)"
      using m True u by simp
    ultimately show ?thesis
      using fg(1) r by (metis io_bind_run(1))
  next
    case False
    then have "p_match2 q1 q2 ts = (Inr False, ts)"
      using m by simp
    then show ?thesis
      using parser_relD [OF assms(4)] ts by (metis io_bind_run(1))
  qed
qed

lemma parser_rel_bind_lookahead2 [parser_rules]:
  assumes "\<not> q1 Tok_EOF" "\<not> q2 Tok_EOF" "parser_rel q1 B k (f True) (g True)" "parser_rel P B k (f False) (g False)"
  shows "parser_rel P B k (io_bind (p_lookahead2 q1 q2) f) (io_bind (p_lookahead2 q1 q2) g)"
  unfolding parser_rel_def
proof (intro allI impI)
  fix ts
  assume ts: "eof_closed ts \<and> length ts \<le> B \<and> P (hd ts)"
  then obtain t us where t: "ts = t # us"
    by (cases ts) auto
  have m: "p_lookahead2 q1 q2 ts = (Inr (q1 t \<and> q2 (hd us)), ts)"
    using p_match2_run [of t us q1 q2, OF _ assms(1,2)] ts t by (simp add: p_lookahead2_def)
  show "io_bind (p_lookahead2 q1 q2) f ts = io_bind (p_lookahead2 q1 q2) g ts \<and>
      ok_result k ts (io_bind (p_lookahead2 q1 q2) f ts)"
  proof (cases "q1 t \<and> q2 (hd us)")
    case True
    then have "q1 (hd ts)" and run: "p_lookahead2 q1 q2 ts = (Inr True, ts)"
      using t m by simp_all
    then have "f True ts = g True ts \<and> ok_result k ts (f True ts)"
      using parser_relD [OF assms(3)] ts by blast
    then show ?thesis
      unfolding io_bind_run(1) [where m = "p_lookahead2 q1 q2" and s = ts, OF run] .
  next
    case False
    then have run: "p_lookahead2 q1 q2 ts = (Inr False, ts)"
      using m by simp
    have "f False ts = g False ts \<and> ok_result k ts (f False ts)"
      using parser_relD [OF assms(4)] ts by blast
    then show ?thesis
      unfolding io_bind_run(1) [where m = "p_lookahead2 q1 q2" and s = ts, OF run] .
  qed
qed

text \<open>A bound sub-parser with one result per branch.\<close>

lemma parser_rel_let [parser_rules]: "parser_rel P B k (f x) (g x) \<Longrightarrow> parser_rel P B k (Let x f) (Let x g)"
  by simp

lemma parser_rel_prod [parser_rules]:
  "(\<And>a b. x = (a, b) \<Longrightarrow> parser_rel P B k (f a b) (g a b)) \<Longrightarrow> parser_rel P B k (case_prod f x) (case_prod g x)"
  by (cases x) simp

lemma token_is_word_EOF [simp]: "\<not> token_is_word w Tok_EOF"
  by simp

lemma bind_rel:
  "parser_rel any_token B' j p q \<Longrightarrow> B \<le> B' \<Longrightarrow> (\<And>x. parser_rel any_token (B - j x) (\<lambda>y. k y - j x) (f x) (g x)) \<Longrightarrow>
    parser_rel P B k (io_bind p f) (io_bind q g)"
  by (rule parser_rel_bind [where j = j, OF parser_rel_weaken]) auto

lemma tail_rel:
  "parser_rel any_token B' j p q \<Longrightarrow> B \<le> B' \<Longrightarrow> (\<And>x. k x \<le> j x) \<Longrightarrow> parser_rel P B k p q"
  by (rule parser_rel_weaken) auto

lemma bind_weak:
  "parser_rel P B (\<lambda>_. 0) p q \<Longrightarrow> (\<And>x. parser_rel any_token B k (f x) (g x)) \<Longrightarrow> parser_rel P B k (io_bind p f) (io_bind q g)"
  by (rule parser_rel_bind) auto

lemma p_match_weak [parser_rules]: "\<not> q Tok_EOF \<Longrightarrow> (\<And>b. k b = 0) \<Longrightarrow> parser_rel P B k (p_match q) (p_match q)"
  by (rule parser_rel_weaken [OF p_match_rel]) auto

end
