(* ===== verification/Sql_Parser.thy ===== *)
theory Sql_Parser
  imports Token_Parser
begin

text \<open>
  The SELECT parser, \<open>src/sql/parser.rs\<close>: expressions with their precedence levels, joins, the clauses of a SELECT
  and set operations. \<open>parse_or\<close> to \<open>parse_primary\<close> take the parser of nested expressions as an argument;
  \<open>parse_expr\<close> closes the recursion. Every parser is shown to end on each token list closed by EOF, without a panic.
  A second group of lemmas shows that the levels implement the precedences: the tokens of an expression whose
  operands respect the levels are read back as that expression.

  Texts that the standard library formats from doubles and from the debug form of tokens, and the date parser of the
  \<open>time\<close> package, are arguments, the record \<open>sql_env\<close>.
\<close>

record sql_env =
  se_unicode :: unicode
  se_show_f64 :: "u64 \<Rightarrow> rstring"
  se_debug :: "token \<Rightarrow> rstring"
  se_parse_date :: "rstring \<Rightarrow> i32 option"

abbreviation upper :: "sql_env \<Rightarrow> rstring \<Rightarrow> rstring" where
  "upper E s \<equiv> to_uppercase (se_unicode E) s"

section \<open>Subquery texts\<close>

text \<open>The text \<open>capture_subquery_sql\<close> keeps of a token; strings and byte strings are quoted, identifiers are not.\<close>

fun token_text :: "sql_env \<Rightarrow> token \<Rightarrow> rstring" where
  "token_text E (Tok_Keyword k) = k"
| "token_text E (Tok_Ident s) = s"
| "token_text E (Tok_Int i) = us (show_int i)"
| "token_text E (Tok_Float f) = se_show_f64 E f"
| "token_text E (Tok_String s) = quote_string s"
| "token_text E (Tok_Hex bytes) = us [CHR ''x'', CHR 0x27] @ concat (map show_hex2 bytes) @ us [CHR 0x27]"
| "token_text E (Tok_Param n) = us (CHR ''$'' # show_nat (unat n))"
| "token_text E Tok_QuestionMark = us ''?''"
| "token_text E (Tok_Op op) = us op"
| "token_text E Tok_LParen = us ''(''"
| "token_text E Tok_RParen = us '')''"
| "token_text E Tok_Comma = us '',''"
| "token_text E Tok_Semicolon = us '';''"
| "token_text E Tok_EOF = []"

definition capture_subquery_sql :: "sql_env \<Rightarrow> rstring parser" where
  "capture_subquery_sql E =
     p_loop (\<lambda>(depth :: nat, parts). io_bind p_peek (\<lambda>t.
       if t = Tok_EOF then p_error ''unterminated subquery''
       else if t = Tok_RParen \<and> depth = 0 then io_return (Inr (join_text (us '' '') parts))
       else io_then p_next (io_return (Inl
         (if t = Tok_LParen then depth + 1 else if t = Tok_RParen then depth - 1 else depth, parts @ [token_text E t])))))
     (0, [])"

section \<open>Expressions\<close>

definition parse_case :: "expr parser \<Rightarrow> expr parser" where
  "parse_case rec =
     io_then (expect_keyword ''CASE'') (io_bind
       (p_loop (\<lambda>when_clauses. io_bind (match_keyword ''WHEN'') (\<lambda>w.
          if w then io_bind rec (\<lambda>cond. io_then (expect_keyword ''THEN'') (io_bind rec (\<lambda>result.
            io_return (Inl (when_clauses @ [(cond, result)])))))
          else io_return (Inr when_clauses))) [])
       (\<lambda>when_clauses.
          if when_clauses = [] then p_error ''CASE expression must have at least one WHEN clause''
          else io_bind (p_optional (match_keyword ''ELSE'') rec) (\<lambda>else_clause.
            io_then (expect_keyword ''END'') (io_return (E_Case when_clauses else_clause)))))"

text \<open>A keyword or an identifier, in upper case.\<close>

definition parse_word :: "sql_env \<Rightarrow> string \<Rightarrow> rstring parser" where
  "parse_word E msg =
     io_bind p_peek (\<lambda>t. case t of
         Tok_Keyword k \<Rightarrow> io_then p_next (io_return (upper E k))
       | Tok_Ident s \<Rightarrow> io_then p_next (io_return (upper E s))
       | _ \<Rightarrow> p_expected msg)"

definition parse_extract :: "sql_env \<Rightarrow> expr parser \<Rightarrow> expr parser" where
  "parse_extract E rec =
     io_then (expect_keyword ''EXTRACT'') (io_then (p_expect Tok_LParen ''expected ( after EXTRACT'')
       (io_bind (parse_word E ''expected field name in EXTRACT'') (\<lambda>field.
         io_then (expect_keyword ''FROM'') (io_bind rec (\<lambda>e.
           io_then (p_expect Tok_RParen ''expected ) after EXTRACT expr'') (io_return (E_Extract field e)))))))"

text \<open>The length of a type, \<open>(n)\<close>, is skipped up to the next closing parenthesis.\<close>

definition skip_type_length :: "unit parser" where
  "skip_type_length =
     io_bind p_peek (\<lambda>t.
       if t = Tok_LParen
       then io_then p_next (io_then
         (p_loop (\<lambda>_. io_bind p_peek (\<lambda>t. if t = Tok_RParen \<or> t = Tok_EOF then io_return (Inr ())
            else io_then p_next (io_return (Inl ())))) ())
         (io_bind p_peek (\<lambda>t. if t = Tok_RParen then io_then p_next (io_return ()) else io_return ())))
       else io_return ())"

definition parse_cast :: "sql_env \<Rightarrow> expr parser \<Rightarrow> expr parser" where
  "parse_cast E rec =
     io_then (expect_keyword ''CAST'') (io_then (p_expect Tok_LParen ''expected ( after CAST'')
       (io_bind rec (\<lambda>e. io_then (expect_keyword ''AS'')
         (io_bind (parse_word E ''expected target type in CAST'') (\<lambda>target_type.
           io_then skip_type_length
             (io_then (p_expect Tok_RParen ''expected ) after CAST expr'') (io_return (E_Cast e target_type))))))))"

text \<open>The arguments of a call, after the opening parenthesis.\<close>

definition parse_function_args :: "expr parser \<Rightarrow> expr list parser" where
  "parse_function_args rec =
     io_bind (match_op ''*'') (\<lambda>star.
       if star then io_return [E_Wildcard]
       else io_bind p_peek (\<lambda>t.
         if t \<noteq> Tok_RParen
         then p_loop (\<lambda>args. io_bind rec (\<lambda>a. io_bind p_peek (\<lambda>t. case t of
                Tok_Comma \<Rightarrow> io_then p_next (io_return (Inl (args @ [a])))
              | Tok_RParen \<Rightarrow> io_return (Inr (args @ [a]))
              | _ \<Rightarrow> p_expected ''expected , or ) in function args''))) []
         else io_return []))"

definition dotted :: "rstring \<Rightarrow> rstring \<Rightarrow> rstring" where
  "dotted a b = a @ us ''.'' @ b"

definition parse_name_expr :: "sql_env \<Rightarrow> expr parser \<Rightarrow> rstring \<Rightarrow> expr parser" where
  "parse_name_expr E rec name =
     io_bind p_peek (\<lambda>t.
       if t = Tok_LParen
       then io_then p_next (io_bind (match_ident ''DISTINCT'') (\<lambda>dist. io_bind (parse_function_args rec) (\<lambda>args.
         io_then (p_expect Tok_RParen ''expected ) after function args'') (io_return (E_Function (upper E name) args dist)))))
       else if t = Tok_Op ''.''
       then io_then p_next (io_bind p_peek (\<lambda>t. case t of
           Tok_Ident s \<Rightarrow> io_then p_next (io_return (E_Column (dotted name s)))
         | Tok_Keyword k \<Rightarrow> io_then p_next (io_return (E_Column (dotted name k)))
         | Tok_Op op \<Rightarrow> if op = ''*'' then io_return (E_Column (dotted name (us ''*''))) else p_expected ''expected name after .''
         | _ \<Rightarrow> p_expected ''expected name after .''))
       else io_return (E_Column name))"

definition parse_date_literal :: "sql_env \<Rightarrow> rstring \<Rightarrow> expr parser" where
  "parse_date_literal E kw =
     io_bind p_peek (\<lambda>t. case t of
         Tok_String s \<Rightarrow> io_then p_next (io_return
           (case se_parse_date E s of Some d \<Rightarrow> E_Literal (V_Date d) | None \<Rightarrow> E_Literal (V_String s)))
       | _ \<Rightarrow> io_return (E_Column kw))"

definition parse_keyword_expr :: "sql_env \<Rightarrow> expr parser \<Rightarrow> rstring \<Rightarrow> expr parser" where
  "parse_keyword_expr E rec kw =
     (let kw_upper = upper E kw
      in if kw_upper = us ''DATE'' then io_then p_next (parse_date_literal E kw)
         else if kw_upper = us ''NULL'' then io_then p_next (io_return (E_Literal V_Null))
         else if kw_upper = us ''CASE'' then parse_case rec
         else if kw_upper = us ''EXTRACT'' then parse_extract E rec
         else if kw_upper = us ''CAST'' then parse_cast E rec
         else io_then p_next (io_return (E_Column kw)))"

definition parse_paren_expr :: "sql_env \<Rightarrow> expr parser \<Rightarrow> expr parser" where
  "parse_paren_expr E rec =
     io_bind p_peek (\<lambda>t.
       if is_keyword ''SELECT'' t
       then io_bind (capture_subquery_sql E) (\<lambda>subquery_sql.
         io_then (p_expect Tok_RParen ''expected ) after scalar subquery'')
           (io_return (E_Function (us ''__scalar_subquery__'') [E_Literal (V_String subquery_sql)] False)))
       else io_bind rec (\<lambda>e. io_then (p_expect Tok_RParen ''expected )'') (io_return (E_Paren e))))"

definition parse_primary :: "sql_env \<Rightarrow> expr parser \<Rightarrow> expr parser" where
  "parse_primary E rec =
     io_bind p_peek (\<lambda>t. case t of
         Tok_Int i \<Rightarrow> io_then p_next (io_return (E_Literal (V_Int i)))
       | Tok_Float f \<Rightarrow> io_then p_next (io_return (E_Literal (V_Float f)))
       | Tok_String s \<Rightarrow> io_then p_next (io_return (E_Literal (V_String s)))
       | Tok_Hex h \<Rightarrow> io_then p_next (io_return (E_Literal (V_Hex h)))
       | Tok_Keyword kw \<Rightarrow> parse_keyword_expr E rec kw
       | Tok_Ident name \<Rightarrow> io_then p_next (parse_name_expr E rec name)
       | Tok_LParen \<Rightarrow> io_then p_next (parse_paren_expr E rec)
       | _ \<Rightarrow> p_expected ''expected expression'')"

definition unary_op_of :: "token \<Rightarrow> unary_op option" where
  "unary_op_of t = (if t = Tok_Op ''-'' then Some Neg_Op else if t = Tok_Op ''+'' then Some Pos_Op else None)"

function parse_unary :: "sql_env \<Rightarrow> expr parser \<Rightarrow> expr parser" where
  "parse_unary E rec ts =
     io_bind p_peek (\<lambda>t. case unary_op_of t of
         Some op \<Rightarrow> io_then p_next (io_bind (shorter ts (parse_unary E rec)) (\<lambda>inner. io_return (E_Unary op inner)))
       | None \<Rightarrow> parse_primary E rec) ts"
  by pat_completeness auto
termination
  by (relation "measure (\<lambda>(E, rec, ts). length ts)") auto

declare parse_unary.simps [simp del]

text \<open>A left-associative chain: operands joined by the operators \<open>op_of\<close> accepts.\<close>

definition parse_chain :: "(token \<Rightarrow> binop option) \<Rightarrow> expr parser \<Rightarrow> expr parser" where
  "parse_chain op_of operand =
     io_bind operand (p_loop (\<lambda>left. io_bind p_peek (\<lambda>t. case op_of t of
         Some op \<Rightarrow> io_then p_next (io_bind operand (\<lambda>right. io_return (Inl (E_Binary left op right))))
       | None \<Rightarrow> io_return (Inr left))))"

fun operator_of :: "sql_env \<Rightarrow> token \<Rightarrow> binop option" where
  "operator_of E (Tok_Op op) = binop_from_str (se_unicode E) (us op)"
| "operator_of E _ = None"

definition select_op :: "(binop \<Rightarrow> bool) \<Rightarrow> binop option \<Rightarrow> binop option" where
  "select_op P x = (case x of Some op \<Rightarrow> if P op then x else None | None \<Rightarrow> None)"

definition multiplicative_op :: "sql_env \<Rightarrow> token \<Rightarrow> binop option" where
  "multiplicative_op E t = select_op (\<lambda>op. op \<in> {Mul_Op, Div_Op, Mod_Op}) (operator_of E t)"

definition additive_op :: "sql_env \<Rightarrow> token \<Rightarrow> binop option" where
  "additive_op E t =
     (case select_op (\<lambda>op. op \<in> {Add_Op, Sub_Op}) (operator_of E t) of
        Some op \<Rightarrow> Some op
      | None \<Rightarrow> if t = Tok_Op ''||'' then Some Concat_Op else None)"

definition comparison_op :: "sql_env \<Rightarrow> token \<Rightarrow> binop option" where
  "comparison_op E t = select_op is_comparison (operator_of E t)"

definition parse_multiplicative :: "sql_env \<Rightarrow> expr parser \<Rightarrow> expr parser" where
  "parse_multiplicative E rec = parse_chain (multiplicative_op E) (parse_unary E rec)"

definition parse_additive :: "sql_env \<Rightarrow> expr parser \<Rightarrow> expr parser" where
  "parse_additive E rec = parse_chain (additive_op E) (parse_multiplicative E rec)"

text \<open>The tests after the left operand of a comparison: \<open>[NOT] LIKE\<close>, \<open>[NOT] BETWEEN\<close>, \<open>[NOT] IN\<close>.\<close>

definition parse_like :: "expr parser \<Rightarrow> expr \<Rightarrow> bool \<Rightarrow> expr parser" where
  "parse_like operand left negated = io_bind operand (\<lambda>right. io_return (E_Like left right negated))"

definition parse_between :: "expr parser \<Rightarrow> expr \<Rightarrow> bool \<Rightarrow> expr parser" where
  "parse_between operand left negated =
     io_bind operand (\<lambda>low. io_bind (match_keyword ''AND'') (\<lambda>b.
       if b then io_bind operand (\<lambda>high. io_return (E_Between left low high negated))
       else p_error (''expected AND after '' @ (if negated then ''NOT BETWEEN low'' else ''BETWEEN low''))))"

definition parse_in :: "sql_env \<Rightarrow> expr parser \<Rightarrow> expr \<Rightarrow> bool \<Rightarrow> expr parser" where
  "parse_in E operand left negated =
     (let test = (if negated then ''NOT IN'' else ''IN'')
      in io_then (p_expect Tok_LParen (''expected ( after '' @ test)) (io_bind p_peek (\<lambda>t.
       if is_keyword ''SELECT'' t
       then io_bind (capture_subquery_sql E) (\<lambda>subquery_sql.
         io_then (p_expect Tok_RParen (''expected ) after '' @ test @ '' subquery'')) (io_return (E_InSubquery left subquery_sql negated)))
       else io_bind
         (p_loop (\<lambda>list. io_bind operand (\<lambda>e. io_bind p_peek (\<lambda>t. case t of
              Tok_Comma \<Rightarrow> io_then p_next (io_return (Inl (list @ [e])))
            | Tok_RParen \<Rightarrow> io_then p_next (io_return (Inr (list @ [e])))
            | _ \<Rightarrow> p_expected (''expected , or ) in '' @ test @ '' list'')))) [])
         (\<lambda>list. io_return (E_InList left list negated)))))"

abbreviation not_keyword :: "token \<Rightarrow> bool" where
  "not_keyword \<equiv> is_keyword ''NOT''"

definition parse_predicate :: "sql_env \<Rightarrow> expr parser \<Rightarrow> expr \<Rightarrow> expr parser" where
  "parse_predicate E operand left =
     io_bind (match_ident ''LIKE'') (\<lambda>b. if b then parse_like operand left False else
     io_bind (p_match2 not_keyword (token_is_word ''LIKE'')) (\<lambda>b. if b then parse_like operand left True else
     io_bind (match_keyword ''BETWEEN'') (\<lambda>b. if b then parse_between operand left False else
     io_bind (p_match2 not_keyword (is_keyword ''BETWEEN'')) (\<lambda>b. if b then parse_between operand left True else
     io_bind (match_keyword ''IN'') (\<lambda>b. if b then parse_in E operand left False else
     io_bind (p_match2 not_keyword (is_keyword ''IN'')) (\<lambda>b. if b then parse_in E operand left True else
     io_return left))))))"

definition parse_comparison :: "sql_env \<Rightarrow> expr parser \<Rightarrow> expr parser" where
  "parse_comparison E rec =
     io_bind (parse_additive E rec) (\<lambda>left.
     io_bind (match_keyword ''IS'') (\<lambda>b.
       if b
       then io_bind (match_keyword ''NOT'') (\<lambda>negated. io_bind (match_keyword ''NULL'') (\<lambda>b.
         if b then io_return (E_IsNull left negated) else p_error ''expected NULL after IS [NOT]''))
       else io_bind p_peek (\<lambda>t. case comparison_op E t of
           Some binop \<Rightarrow> io_then p_next (io_bind (parse_additive E rec) (\<lambda>right. io_return (E_Binary left binop right)))
         | None \<Rightarrow> parse_predicate E (parse_additive E rec) left)))"

definition parse_exists :: "sql_env \<Rightarrow> bool \<Rightarrow> expr parser" where
  "parse_exists E negated =
     io_then (p_expect Tok_LParen ''expected ( after EXISTS'') (io_bind p_peek (\<lambda>t.
       if is_keyword ''SELECT'' t
       then io_bind (capture_subquery_sql E) (\<lambda>subquery_sql.
         io_then (p_expect Tok_RParen ''expected ) after EXISTS subquery'') (io_return (E_Exists subquery_sql negated)))
       else p_error ''expected SELECT after EXISTS (''))"

function parse_not :: "sql_env \<Rightarrow> expr parser \<Rightarrow> expr parser" where
  "parse_not E rec ts =
     io_bind (match_keyword ''NOT'') (\<lambda>b.
       if b
       then io_bind (match_keyword ''EXISTS'') (\<lambda>b.
         if b then parse_exists E True
         else io_bind (shorter ts (parse_not E rec)) (\<lambda>inner. io_return (E_Not inner)))
       else io_bind (match_keyword ''EXISTS'') (\<lambda>b.
         if b then parse_exists E False else parse_comparison E rec)) ts"
  by pat_completeness auto
termination
  by (relation "measure (\<lambda>(E, rec, ts). length ts)") auto

declare parse_not.simps [simp del]

definition keyword_op :: "string \<Rightarrow> binop \<Rightarrow> token \<Rightarrow> binop option" where
  "keyword_op kw op t = (if is_keyword kw t then Some op else None)"

definition parse_and :: "sql_env \<Rightarrow> expr parser \<Rightarrow> expr parser" where
  "parse_and E rec = parse_chain (keyword_op ''AND'' And_Op) (parse_not E rec)"

definition parse_or :: "sql_env \<Rightarrow> expr parser \<Rightarrow> expr parser" where
  "parse_or E rec = parse_chain (keyword_op ''OR'' Or_Op) (parse_and E rec)"

function parse_expr :: "sql_env \<Rightarrow> expr parser" where
  "parse_expr E ts = parse_or E (shorter ts (parse_expr E)) ts"
  by pat_completeness auto
termination
  by (relation "measure (\<lambda>(E, ts). length ts)") auto

declare parse_expr.simps [simp del]

section \<open>The expression parser ends without a panic\<close>

lemma capture_subquery_rel: "parser_rel any_token B (\<lambda>_. 0) (capture_subquery_sql E) (capture_subquery_sql E)"
  unfolding capture_subquery_sql_def by (rule parser_rules | simp; fail)+

lemmas capture_bind [parser_rules] = bind_rel [OF capture_subquery_rel order_refl]

lemma parse_case_rel:
  assumes "parser_rel any_token B (\<lambda>_. 1) rec rec'"
  shows "parser_rel P (Suc B) (\<lambda>_. 1) (parse_case rec) (parse_case rec')"
  unfolding parse_case_def p_optional_def match_defs
  by (rule parser_rules bind_rel [OF assms] | simp; fail | rule bind_weak)+

lemma parse_word_rel: "parser_rel P B (\<lambda>_. 1) (parse_word E msg) (parse_word E msg)"
  unfolding parse_word_def by (rule parser_rules | simp; fail)+

lemmas parse_word_bind [parser_rules] = parser_rel_bind [OF parse_word_rel]

lemma skip_type_length_rel: "parser_rel any_token B (\<lambda>_. 0) skip_type_length skip_type_length"
  unfolding skip_type_length_def by (rule parser_rules | simp; fail)+

lemmas skip_type_length_bind [parser_rules] = bind_rel [OF skip_type_length_rel order_refl]

lemma parse_extract_rel:
  assumes "parser_rel any_token B (\<lambda>_. 1) rec rec'"
  shows "parser_rel P (Suc B) (\<lambda>_. 1) (parse_extract E rec) (parse_extract E rec')"
  unfolding parse_extract_def by (rule parser_rules bind_rel [OF assms] | simp; fail)+

lemma parse_cast_rel:
  assumes "parser_rel any_token B (\<lambda>_. 1) rec rec'"
  shows "parser_rel P (Suc B) (\<lambda>_. 1) (parse_cast E rec) (parse_cast E rec')"
  unfolding parse_cast_def by (rule parser_rules bind_rel [OF assms] | simp; fail)+

lemma parse_function_args_rel:
  assumes "parser_rel any_token B (\<lambda>_. 1) rec rec'"
  shows "parser_rel any_token B (\<lambda>_. 0) (parse_function_args rec) (parse_function_args rec')"
  unfolding parse_function_args_def match_defs by (rule parser_rules bind_rel [OF assms] | simp; fail)+

lemma parse_name_expr_rel:
  assumes "parser_rel any_token B (\<lambda>_. 1) rec rec'"
  shows "parser_rel any_token B (\<lambda>_. 0) (parse_name_expr E rec name) (parse_name_expr E rec' name)"
  unfolding parse_name_expr_def match_defs
  by (rule parser_rules bind_rel [OF assms] bind_rel [OF parse_function_args_rel [OF assms]] | simp; fail)+

lemma parse_keyword_expr_rel:
  assumes "parser_rel any_token B (\<lambda>_. 1) rec rec'" "\<And>t. P t \<Longrightarrow> t \<noteq> Tok_EOF"
  shows "parser_rel P (Suc B) (\<lambda>_. 1) (parse_keyword_expr E rec kw) (parse_keyword_expr E rec' kw)"
  unfolding parse_keyword_expr_def parse_date_literal_def
  by (rule parser_rules parse_case_rel [OF assms(1)] parse_extract_rel [OF assms(1)] parse_cast_rel [OF assms(1)]
      | simp add: assms(2); fail)+

lemma parse_paren_expr_rel:
  assumes "parser_rel any_token B (\<lambda>_. 1) rec rec'"
  shows "parser_rel any_token B (\<lambda>_. 0) (parse_paren_expr E rec) (parse_paren_expr E rec')"
  unfolding parse_paren_expr_def by (rule parser_rules bind_rel [OF assms] | simp; fail)+

lemma parse_primary_rel:
  assumes "parser_rel any_token B (\<lambda>_. 1) rec rec'"
  shows "parser_rel P (Suc B) (\<lambda>_. 1) (parse_primary E rec) (parse_primary E rec')"
  unfolding parse_primary_def
  by (rule parser_rules parse_keyword_expr_rel [OF assms] tail_rel [OF parse_name_expr_rel [OF assms]]
      tail_rel [OF parse_paren_expr_rel [OF assms]] | simp; fail | force)+

lemma unary_op_of_EOF [simp]: "unary_op_of Tok_EOF = None"
  by (simp add: unary_op_of_def)

lemma unary_op_not_EOF [dest]: "unary_op_of t = Some op \<Longrightarrow> t \<noteq> Tok_EOF"
  by (auto simp: unary_op_of_def)

lemma parse_unary_rel:
  assumes "parser_rel any_token B (\<lambda>_. 1) rec rec'"
  shows "parser_rel any_token (Suc B) (\<lambda>_. 1) (parse_unary E rec) (parse_unary E rec')"
proof -
  define level :: "expr parser \<Rightarrow> expr parser \<Rightarrow> expr parser" where
    "level rec r = io_bind p_peek (\<lambda>t. case unary_op_of t of
         Some op \<Rightarrow> io_then p_next (io_bind r (\<lambda>inner. io_return (E_Unary op inner)))
       | None \<Rightarrow> parse_primary E rec)" for rec r
  have unfold: "parse_unary E rec ts = level rec (shorter ts (parse_unary E rec)) ts" for rec ts
    unfolding level_def by (rule parse_unary.simps)
  show ?thesis
  proof (rule recursive_parsers [where F = "level rec" and G = "level rec'", OF unfold unfold])
    fix B' and r r' :: "expr parser"
    assume r: "parser_rel any_token B' (\<lambda>_. 1) r r'" and le: "Suc B' \<le> Suc B"
    show "parser_rel any_token (Suc B') (\<lambda>_. 1) (level rec r) (level rec' r')"
      unfolding level_def
      by (rule parser_rules bind_rel [OF r] tail_rel [OF parse_primary_rel [OF assms]]
          | simp add: le; fail | (use le in force))+
  qed
qed

lemma parse_chain_rel:
  assumes "parser_rel any_token B (\<lambda>_. 1) p q" "op_of Tok_EOF = None"
  shows "parser_rel any_token B (\<lambda>_. 1) (parse_chain op_of p) (parse_chain op_of q)"
  unfolding parse_chain_def
  by (rule parser_rules bind_rel [OF assms(1)] | simp; fail | (use assms(2) in force))+

lemma ops_EOF [simp]: "multiplicative_op E Tok_EOF = None" "additive_op E Tok_EOF = None" "comparison_op E Tok_EOF = None"
  "keyword_op kw op Tok_EOF = None"
  by (simp_all add: multiplicative_op_def additive_op_def comparison_op_def select_op_def keyword_op_def)

lemma parse_additive_rel:
  assumes "parser_rel any_token B (\<lambda>_. 1) rec rec'"
  shows "parser_rel any_token (Suc B) (\<lambda>_. 1) (parse_additive E rec) (parse_additive E rec')"
  unfolding parse_additive_def parse_multiplicative_def by (intro parse_chain_rel parse_unary_rel assms) simp_all

lemma parse_in_rel:
  assumes "parser_rel any_token B (\<lambda>_. 1) p q"
  shows "parser_rel any_token B (\<lambda>_. 0) (parse_in E p left negated) (parse_in E q left negated)"
  unfolding parse_in_def Let_def by (rule parser_rules bind_rel [OF assms] | simp; fail)+

lemma parse_predicate_rel:
  assumes "parser_rel any_token B (\<lambda>_. 1) p q"
  shows "parser_rel any_token B (\<lambda>_. 0) (parse_predicate E p left) (parse_predicate E q left)"
  unfolding parse_predicate_def parse_like_def parse_between_def match_defs
  by (rule parser_rules bind_rel [OF assms] tail_rel [OF parse_in_rel [OF assms]] | simp; fail)+

lemma parse_comparison_rel:
  assumes "parser_rel any_token B (\<lambda>_. 1) rec rec'"
  shows "parser_rel any_token (Suc B) (\<lambda>_. 1) (parse_comparison E rec) (parse_comparison E rec')"
  unfolding parse_comparison_def match_defs
  by (rule parser_rules bind_rel [OF parse_additive_rel [OF assms]]
      tail_rel [OF parse_predicate_rel [OF parse_additive_rel [OF assms]]] | simp; fail | force)+

lemma parse_exists_rel: "parser_rel any_token B (\<lambda>_. 0) (parse_exists E negated) (parse_exists E negated)"
  unfolding parse_exists_def by (rule parser_rules | simp; fail)+

lemma parse_not_rel:
  assumes "parser_rel any_token B (\<lambda>_. 1) rec rec'"
  shows "parser_rel any_token (Suc B) (\<lambda>_. 1) (parse_not E rec) (parse_not E rec')"
proof -
  define level :: "expr parser \<Rightarrow> expr parser \<Rightarrow> expr parser" where
    "level rec r = io_bind (match_keyword ''NOT'') (\<lambda>b.
       if b
       then io_bind (match_keyword ''EXISTS'') (\<lambda>b.
         if b then parse_exists E True else io_bind r (\<lambda>inner. io_return (E_Not inner)))
       else io_bind (match_keyword ''EXISTS'') (\<lambda>b. if b then parse_exists E False else parse_comparison E rec))" for rec r
  have unfold: "parse_not E rec ts = level rec (shorter ts (parse_not E rec)) ts" for rec ts
    unfolding level_def by (rule parse_not.simps)
  show ?thesis
  proof (rule recursive_parsers [where F = "level rec" and G = "level rec'", OF unfold unfold])
    fix B' and r r' :: "expr parser"
    assume r: "parser_rel any_token B' (\<lambda>_. 1) r r'" and le: "Suc B' \<le> Suc B"
    show "parser_rel any_token (Suc B') (\<lambda>_. 1) (level rec r) (level rec' r')"
      unfolding level_def match_defs
      by (rule parser_rules bind_rel [OF r] tail_rel [OF parse_exists_rel order_refl] tail_rel [OF parse_comparison_rel [OF assms]]
          | simp add: le; fail | (use le in force))+
  qed
qed

lemma parse_or_rel:
  assumes "parser_rel any_token B (\<lambda>_. 1) rec rec'"
  shows "parser_rel any_token (Suc B) (\<lambda>_. 1) (parse_or E rec) (parse_or E rec')"
  unfolding parse_or_def parse_and_def by (intro parse_chain_rel parse_not_rel assms) simp_all

lemma parse_expr_rel: "parser_rel any_token B (\<lambda>_. 1) (parse_expr E) (parse_expr E)"
  and parse_expr_unfold_rel: "parser_rel any_token B (\<lambda>_. 1) (parse_expr E) (parse_or E (parse_expr E))"
  using recursive_parser [of "parse_expr E" "parse_or E" "\<lambda>_. 1" B] parse_expr.simps parse_or_rel by blast+

lemma parse_expr_unfold: "eof_closed ts \<Longrightarrow> parse_expr E ts = parse_or E (parse_expr E) ts"
  using parser_relD [OF parse_expr_unfold_rel [where B = "length ts"]] by blast

lemmas parse_expr_bind [parser_rules] = bind_rel [OF parse_expr_rel order_refl]

section \<open>SELECT\<close>

datatype nulls_order = Nulls_First | Nulls_Last | Nulls_Default

record join_clause =
  jc_table :: rstring
  jc_on :: expr
  jc_join_type :: string

datatype select_item =
    Item_Column rstring
  | Item_Aggregate rstring rstring "rstring option"
  | Item_Star
  | Item_Literal u64
  | Item_Window rstring rstring rstring "rstring option"
  | Item_Expression expr "rstring option"

record select_query =
  sq_select :: "select_item list"
  sq_from :: rstring
  sq_joins :: "join_clause list"
  sq_where_clause :: "expr option"
  sq_group_by :: "rstring list"
  sq_having :: "expr option"
  sq_order_by :: "(rstring \<times> bool \<times> nulls_order) list"
  sq_limit :: "u64 option"
  sq_offset :: "u64 option"
  sq_fetch :: "u64 option"
  sq_distinct :: bool
  sq_distinct_on :: "rstring list option"

datatype set_query =
    Set_Select select_query
  | Set_Union set_query set_query
  | Set_UnionAll set_query set_query
  | Set_Intersect set_query set_query
  | Set_Except set_query set_query

definition as_select :: "set_query \<Rightarrow> select_query option" where
  "as_select s = (case s of Set_Select q \<Rightarrow> Some q | _ \<Rightarrow> None)"

definition parse_optional_alias :: "rstring option parser" where
  "parse_optional_alias =
     p_optional (match_keyword ''AS'') (io_bind p_peek (\<lambda>t. case t of
         Tok_Ident name \<Rightarrow> io_then p_next (io_return name)
       | _ \<Rightarrow> p_expected ''expected alias after AS''))"

definition RESERVED :: "string list" where
  "RESERVED = [''WHERE'', ''GROUP'', ''ORDER'', ''HAVING'', ''LIMIT'', ''JOIN'', ''ON'', ''LEFT'', ''RIGHT'', ''INNER'',
     ''OUTER'', ''UNION'', ''EXCEPT'', ''INTERSECT'']"

definition parse_table_name :: "rstring parser" where
  "parse_table_name =
     io_bind p_peek (\<lambda>t.
       let schema_table = (\<lambda>first. io_then p_next (io_bind p_peek (\<lambda>t.
             if t = Tok_Op ''.''
             then io_then p_next (io_bind p_peek (\<lambda>t. case t of
                 Tok_Ident name \<Rightarrow> io_then p_next (io_return (dotted first name))
               | Tok_Keyword k \<Rightarrow> io_then p_next (io_return (dotted first k))
               | _ \<Rightarrow> p_expected ''expected name after .''))
             else io_return first)))
       in (case t of
             Tok_Ident name \<Rightarrow> schema_table name
           | Tok_Keyword k \<Rightarrow> if k \<in> set (map us RESERVED) then p_expected ''expected table name, got keyword'' else schema_table k
           | _ \<Rightarrow> p_expected ''expected table name''))"

text \<open>\<open>parse_joins\<close>: the keywords before JOIN decide the type; every type but CROSS has an ON condition.\<close>

definition parse_join_on :: "sql_env \<Rightarrow> join_clause list \<Rightarrow> string \<Rightarrow> (join_clause list + join_clause list) parser" where
  "parse_join_on E joins join_type =
     io_bind parse_table_name (\<lambda>table. io_then (expect_keyword ''ON'') (io_bind (parse_expr E) (\<lambda>on.
       io_return (Inl (joins @ [\<lparr>jc_table = table, jc_on = on, jc_join_type = join_type\<rparr>])))))"

definition parse_outer_join :: "sql_env \<Rightarrow> join_clause list \<Rightarrow> string \<Rightarrow> (join_clause list + join_clause list) parser" where
  "parse_outer_join E joins join_type =
     io_then (match_keyword ''OUTER'') (io_then (expect_keyword ''JOIN'') (parse_join_on E joins join_type))"

definition parse_join :: "sql_env \<Rightarrow> join_clause list \<Rightarrow> (join_clause list + join_clause list) parser" where
  "parse_join E joins =
     io_bind (match_keyword ''JOIN'') (\<lambda>b. if b then parse_join_on E joins ''INNER'' else
     io_bind (match_keyword ''INNER'') (\<lambda>b. if b then io_then (expect_keyword ''JOIN'') (parse_join_on E joins ''INNER'') else
     io_bind (match_keyword ''LEFT'') (\<lambda>b. if b then parse_outer_join E joins ''LEFT'' else
     io_bind (match_keyword ''RIGHT'') (\<lambda>b. if b then parse_outer_join E joins ''RIGHT'' else
     io_bind (match_keyword ''FULL'') (\<lambda>b. if b then parse_outer_join E joins ''FULL'' else
     io_bind (match_keyword ''CROSS'') (\<lambda>b.
       if b then io_then (expect_keyword ''JOIN'') (io_bind parse_table_name (\<lambda>table.
         io_return (Inl (joins @ [\<lparr>jc_table = table, jc_on = E_Literal (V_Int 1), jc_join_type = ''CROSS''\<rparr>]))))
       else io_return (Inr joins)))))))"

definition parse_joins :: "sql_env \<Rightarrow> join_clause list parser" where
  "parse_joins E = p_loop (parse_join E) []"

text \<open>The argument of an aggregate as the text of its tokens.\<close>

fun agg_part :: "sql_env \<Rightarrow> nat \<Rightarrow> token \<Rightarrow> rstring option" where
  "agg_part E depth Tok_RParen = (if depth = 0 then None else Some (us '')''))"
| "agg_part E depth Tok_LParen = Some (us ''('')"
| "agg_part E depth (Tok_Keyword k) =
     (if k \<in> set (map us [''FROM'', ''WHERE'', ''GROUP'', ''ORDER'', ''HAVING'', ''LIMIT'']) then None else Some k)"
| "agg_part E depth (Tok_Ident name) = Some name"
| "agg_part E depth (Tok_Int i) = Some (us (show_int i))"
| "agg_part E depth (Tok_Float f) = Some (se_show_f64 E f)"
| "agg_part E depth (Tok_Op op) = Some (us op)"
| "agg_part E depth _ = None"

definition parse_agg_arg :: "sql_env \<Rightarrow> rstring parser" where
  "parse_agg_arg E =
     io_bind (match_op ''*'') (\<lambda>b.
       if b then io_return (us ''*'')
       else p_loop (\<lambda>(depth :: nat, parts). io_bind p_peek (\<lambda>t. case agg_part E depth t of
           None \<Rightarrow> io_return (Inr (join_text (us '' '') parts))
         | Some s \<Rightarrow> io_then p_next (io_return (Inl
             (if t = Tok_RParen then depth - 1 else if t = Tok_LParen then depth + 1 else depth, parts @ [s])))))
         (0, []))"

definition trim_matches :: "rchar \<Rightarrow> rstring \<Rightarrow> rstring" where
  "trim_matches c s = rev (dropWhile ((=) c) (rev (dropWhile ((=) c) s)))"

text \<open>The window specification: the debug form of the tokens up to the matching parenthesis.\<close>

definition parse_over_spec :: "sql_env \<Rightarrow> rstring parser" where
  "parse_over_spec E =
     p_loop (\<lambda>(depth :: nat, parts).
       if depth = 0 then io_return (Inr (join_text (us '' '') parts))
       else io_bind p_peek (\<lambda>t. case t of
           Tok_LParen \<Rightarrow> io_then p_next (io_return (Inl (depth + 1, parts @ [us ''(''])))
         | Tok_RParen \<Rightarrow> io_then p_next (io_return (Inl (depth - 1, if depth > 1 then parts @ [us '')''] else parts)))
         | Tok_EOF \<Rightarrow> p_error ''unterminated OVER (...)''
         | other \<Rightarrow> io_then p_next (io_return (Inl (depth, parts @ [trim_matches 39 (trim_matches 34 (se_debug E other))])))))
     (1, [])"

text \<open>An item that starts with an identifier: a call with its optional window, or a column. An alias after a column is
  dropped, and it is read before the dot of a qualified name.\<close>

definition parse_call_item :: "sql_env \<Rightarrow> rstring \<Rightarrow> select_item parser" where
  "parse_call_item E name =
     io_bind (match_ident ''DISTINCT'') (\<lambda>dist.
     io_bind
       (if dist
        then io_bind p_peek (\<lambda>t. case t of
            Tok_Ident s \<Rightarrow> io_then p_next (io_return (upper E name @ us ''_DISTINCT'', s))
          | _ \<Rightarrow> p_expected ''expected column name after DISTINCT'')
        else io_bind (parse_agg_arg E) (\<lambda>arg. io_return (upper E name, arg)))
       (\<lambda>(func, arg).
         io_then (p_expect Tok_RParen ''expected ) after aggregate arg'') (io_bind (match_keyword ''OVER'') (\<lambda>over.
           if over
           then io_then (p_expect Tok_LParen ''expected ( after OVER'') (io_bind (parse_over_spec E) (\<lambda>over_spec.
             io_bind parse_optional_alias (\<lambda>alias. io_return (Item_Window func arg over_spec alias))))
           else io_bind parse_optional_alias (\<lambda>alias. io_return (Item_Aggregate func arg alias))))))"

definition parse_column_item :: "rstring \<Rightarrow> select_item parser" where
  "parse_column_item name =
     io_then parse_optional_alias (io_bind p_peek (\<lambda>t.
       if t = Tok_Op ''.''
       then io_then p_next (io_bind p_peek (\<lambda>t. case t of
           Tok_Ident s \<Rightarrow> io_then p_next (io_return (Item_Column (dotted name s)))
         | Tok_Keyword k \<Rightarrow> io_then p_next (io_return (Item_Column (dotted name k)))
         | Tok_Op op \<Rightarrow> if op = ''*'' then io_then p_next (io_return (Item_Column (dotted name (us ''*''))))
             else p_expected ''expected name after .''
         | _ \<Rightarrow> p_expected ''expected name after .''))
       else io_return (Item_Column name)))"

definition parse_expr_item :: "sql_env \<Rightarrow> select_item parser" where
  "parse_expr_item E =
     io_bind (parse_expr E) (\<lambda>e. io_bind parse_optional_alias (\<lambda>alias. io_return (Item_Expression e alias)))"

definition starts_expr_item :: "token \<Rightarrow> bool" where
  "starts_expr_item t =
     (case t of
        Tok_Keyword kw \<Rightarrow> kw \<in> set (map us [''CASE'', ''EXTRACT'', ''CAST''])
      | Tok_LParen \<Rightarrow> True
      | Tok_Op op \<Rightarrow> op = ''-'' \<or> op = ''+''
      | Tok_String _ \<Rightarrow> True
      | Tok_Float _ \<Rightarrow> True
      | Tok_Hex _ \<Rightarrow> True
      | _ \<Rightarrow> False)"

definition parse_select_item :: "sql_env \<Rightarrow> select_item parser" where
  "parse_select_item E =
     io_bind (match_op ''*'') (\<lambda>b.
       if b then io_return Item_Star
       else io_bind p_peek (\<lambda>t.
         if starts_expr_item t then parse_expr_item E
         else case t of
             Tok_Int i \<Rightarrow> if sint i < 0 then p_expected ''negative integer literal in SELECT list''
               else io_then p_next (io_then parse_optional_alias (io_return (Item_Literal i)))
           | Tok_Ident name \<Rightarrow> io_then p_next (io_bind p_peek (\<lambda>t.
               if t = Tok_LParen then io_then p_next (parse_call_item E name) else parse_column_item name))
           | _ \<Rightarrow> p_expected ''expected select item''))"

text \<open>A list with commas between its elements.\<close>

definition comma_separated :: "'a parser \<Rightarrow> 'a list parser" where
  "comma_separated p =
     p_loop (\<lambda>items. io_bind p (\<lambda>x. io_bind p_peek (\<lambda>t.
       if t = Tok_Comma then io_then p_next (io_return (Inl (items @ [x]))) else io_return (Inr (items @ [x]))))) []"

definition parse_select_list :: "sql_env \<Rightarrow> select_item list parser" where
  "parse_select_list E = comma_separated (parse_select_item E)"

text \<open>A positional reference in GROUP BY is skipped.\<close>

definition parse_column_list :: "rstring list parser" where
  "parse_column_list =
     io_bind (comma_separated (io_bind p_peek (\<lambda>t. case t of
         Tok_Ident name \<Rightarrow> io_then p_next (io_return [name])
       | Tok_Int _ \<Rightarrow> io_then p_next (io_return [])
       | _ \<Rightarrow> p_expected ''expected column name in GROUP BY''))) (\<lambda>cols. io_return (concat cols))"

definition parse_order_item :: "(rstring \<times> bool \<times> nulls_order) parser" where
  "parse_order_item =
     io_bind p_peek (\<lambda>t. case t of
         Tok_Ident name \<Rightarrow> io_then p_next (io_bind (match_ident ''DESC'') (\<lambda>desc.
           io_then (if desc then io_return True else match_ident ''ASC'') (io_bind (match_keyword ''NULLS'') (\<lambda>nulls.
             if nulls
             then io_bind (match_keyword ''FIRST'') (\<lambda>b. if b then io_return (name, \<not> desc, Nulls_First) else
               io_bind (match_keyword ''LAST'') (\<lambda>b. if b then io_return (name, \<not> desc, Nulls_Last) else
                 p_error ''expected FIRST or LAST after NULLS''))
             else io_return (name, \<not> desc, Nulls_Default)))))
       | _ \<Rightarrow> p_expected ''expected column name in ORDER BY'')"

definition parse_order_list :: "(rstring \<times> bool \<times> nulls_order) list parser" where
  "parse_order_list = comma_separated parse_order_item"

definition parse_usize :: "u64 parser" where
  "parse_usize =
     io_bind p_peek (\<lambda>t. case t of
         Tok_Int i \<Rightarrow> if sint i < 0 then p_expected ''expected non-negative integer'' else io_then p_next (io_return i)
       | _ \<Rightarrow> p_expected ''expected integer'')"

definition parse_distinct :: "(bool \<times> rstring list option) parser" where
  "parse_distinct =
     io_bind (match_keyword ''DISTINCT'') (\<lambda>b.
       if b
       then io_bind (match_keyword ''ON'') (\<lambda>b.
         if b
         then io_then (p_expect Tok_LParen ''expected ( after DISTINCT ON'') (io_bind
           (p_loop (\<lambda>cols. io_bind p_peek (\<lambda>t. case t of
                Tok_Ident s \<Rightarrow> io_then p_next (io_bind p_peek (\<lambda>t. case t of
                    Tok_Comma \<Rightarrow> io_then p_next (io_return (Inl (cols @ [s])))
                  | Tok_RParen \<Rightarrow> io_then p_next (io_return (Inr (cols @ [s])))
                  | _ \<Rightarrow> p_expected ''expected , or ) in DISTINCT ON''))
              | _ \<Rightarrow> p_expected ''expected column in DISTINCT ON'')) [])
           (\<lambda>cols. io_return (True, Some cols)))
         else io_return (True, None))
       else io_return (False, None))"

definition parse_limits :: "(u64 option \<times> u64 option \<times> u64 option) parser" where
  "parse_limits =
     io_bind (p_optional (match_ident ''LIMIT'') parse_usize) (\<lambda>limit.
     io_bind (p_optional (match_keyword ''OFFSET'') (io_bind parse_usize (\<lambda>n. io_then (match_keyword ''ROWS'') (io_return n)))) (\<lambda>offset.
     io_bind (p_optional (match_keyword ''FETCH'') (io_then (match_keyword ''FIRST'') (io_then (match_keyword ''NEXT'')
       (io_bind parse_usize (\<lambda>n. io_then (match_keyword ''ROWS'') (io_then (match_keyword ''ONLY'') (io_return n)))))))
       (\<lambda>fetch. io_return (limit, offset, fetch))))"

text \<open>The clauses after FROM.\<close>

definition parse_clauses ::
    "sql_env \<Rightarrow> bool \<times> rstring list option \<Rightarrow> select_item list \<Rightarrow> rstring option \<Rightarrow> select_query parser" where
  "parse_clauses E dist sel from_table =
     io_bind (parse_joins E) (\<lambda>joins.
     io_bind (p_optional (match_keyword ''WHERE'') (parse_expr E)) (\<lambda>where_clause.
     io_bind (p_optional (match_keyword ''GROUP'') (io_then (expect_keyword ''BY'') parse_column_list)) (\<lambda>group_by.
     io_bind (p_optional (match_keyword ''HAVING'') (parse_expr E)) (\<lambda>having.
     io_bind (p_optional (match_keyword ''ORDER'') (io_then (expect_keyword ''BY'') parse_order_list)) (\<lambda>order_by.
     io_bind parse_limits (\<lambda>(limit, offset, fetch).
       io_return \<lparr>sq_select = sel, sq_from = (case from_table of Some t \<Rightarrow> t | None \<Rightarrow> us ''__dummy__''), sq_joins = joins,
         sq_where_clause = where_clause, sq_group_by = (case group_by of Some cs \<Rightarrow> cs | None \<Rightarrow> []), sq_having = having,
         sq_order_by = (case order_by of Some os \<Rightarrow> os | None \<Rightarrow> []), sq_limit = limit, sq_offset = offset,
         sq_fetch = fetch, sq_distinct = fst dist, sq_distinct_on = snd dist\<rparr>))))))"

definition parse_select :: "sql_env \<Rightarrow> select_query parser" where
  "parse_select E =
     io_then (expect_keyword ''SELECT'') (
     io_bind parse_distinct (\<lambda>dist.
     io_bind (parse_select_list E) (\<lambda>sel.
     io_bind (p_optional (match_keyword ''FROM'') parse_table_name) (\<lambda>from_table.
       parse_clauses E dist sel from_table))))"

section \<open>Set operations\<close>

text \<open>A parenthesis opens a set expression if SELECT follows.\<close>

definition parse_set_primary :: "sql_env \<Rightarrow> set_query parser \<Rightarrow> set_query parser" where
  "parse_set_primary E rec =
     io_bind (p_lookahead2 (\<lambda>t. t = Tok_LParen) (is_keyword ''SELECT'')) (\<lambda>b.
       if b then io_then p_next (io_bind rec (\<lambda>inner.
         io_then (p_expect Tok_RParen ''expected ) after set expression'') (io_return inner)))
       else io_bind (parse_select E) (\<lambda>q. io_return (Set_Select q)))"

definition parse_intersect :: "sql_env \<Rightarrow> set_query parser \<Rightarrow> set_query parser" where
  "parse_intersect E rec =
     io_bind (parse_set_primary E rec) (p_loop (\<lambda>left. io_bind (match_keyword ''INTERSECT'') (\<lambda>b.
       if b then io_then (match_keyword ''ALL'') (io_bind (parse_set_primary E rec) (\<lambda>right.
         io_return (Inl (Set_Intersect left right))))
       else io_return (Inr left))))"

definition parse_set_chain :: "sql_env \<Rightarrow> set_query parser \<Rightarrow> set_query parser" where
  "parse_set_chain E rec =
     io_bind (parse_intersect E rec) (p_loop (\<lambda>left. io_bind (match_keyword ''UNION'') (\<lambda>b.
       if b then io_bind (match_keyword ''ALL'') (\<lambda>all. io_bind (parse_intersect E rec) (\<lambda>right.
         io_return (Inl (if all then Set_UnionAll left right else Set_Union left right))))
       else io_bind (match_keyword ''EXCEPT'') (\<lambda>b.
         if b then io_then (match_keyword ''ALL'') (io_bind (parse_intersect E rec) (\<lambda>right.
           io_return (Inl (Set_Except left right))))
         else io_return (Inr left)))))"

function parse_set_expr :: "sql_env \<Rightarrow> set_query parser" where
  "parse_set_expr E ts = parse_set_chain E (shorter ts (parse_set_expr E)) ts"
  by pat_completeness auto
termination
  by (relation "measure (\<lambda>(E, ts). length ts)") auto

declare parse_set_expr.simps [simp del]

text \<open>The entry points: nothing but a semicolon may follow.\<close>

definition at_end :: "string \<Rightarrow> 'a \<Rightarrow> 'a parser" where
  "at_end msg x = io_bind p_peek (\<lambda>t. case t of
      Tok_Semicolon \<Rightarrow> io_return x
    | Tok_EOF \<Rightarrow> io_return x
    | _ \<Rightarrow> p_expected msg)"

definition parse_set :: "sql_env \<Rightarrow> token list \<Rightarrow> parse_error + set_query" where
  "parse_set E tokens = fst (io_bind (parse_set_expr E) (at_end ''unexpected trailing token'') tokens)"

definition into_select :: "set_query \<Rightarrow> parse_error + select_query" where
  "into_select s = (case s of Set_Select q \<Rightarrow> Inr q | _ \<Rightarrow> Inl (Parse_Error ''expected single SELECT, got set operation'' None))"

definition parse :: "sql_env \<Rightarrow> token list \<Rightarrow> parse_error + select_query" where
  "parse E tokens = (case parse_set E tokens of Inl e \<Rightarrow> Inl e | Inr s \<Rightarrow> into_select s)"

definition parse_expression :: "sql_env \<Rightarrow> token list \<Rightarrow> parse_error + expr" where
  "parse_expression E tokens = fst (io_bind (parse_expr E) (at_end ''unexpected trailing token in expression'') tokens)"

section \<open>The statement parser ends without a panic\<close>

lemma p_optional_rel:
  assumes "\<not> q Tok_EOF" "parser_rel any_token (B - 1) j p p'"
  shows "parser_rel any_token B (\<lambda>_. 0) (p_optional (p_match q) p) (p_optional (p_match q) p')"
  unfolding p_optional_def by (rule parser_rules bind_rel [OF assms(2)] | simp add: assms(1); fail)+

lemma parse_optional_alias_rel: "parser_rel any_token B (\<lambda>_. 0) parse_optional_alias parse_optional_alias"
  unfolding parse_optional_alias_def p_optional_def match_defs by (rule parser_rules | simp; fail | rule bind_weak)+

lemma parse_table_name_rel: "parser_rel any_token B (\<lambda>_. 1) parse_table_name parse_table_name"
  unfolding parse_table_name_def Let_def by (rule parser_rules | simp; fail)+

lemmas clause_binds [parser_rules] =
  bind_rel [OF parse_optional_alias_rel order_refl] bind_rel [OF parse_table_name_rel order_refl]

lemma parse_join_rel: "parser_rel any_token B (case_sum (\<lambda>_. 1) (\<lambda>_. 0)) (parse_join E joins) (parse_join E joins)"
  unfolding parse_join_def parse_outer_join_def parse_join_on_def match_defs
  by (rule parser_rules | simp; fail)+

lemma parse_joins_rel: "parser_rel any_token B (\<lambda>_. 0) (parse_joins E) (parse_joins E)"
  unfolding parse_joins_def by (rule p_loop_rel parse_join_rel)+

lemma agg_part_EOF [simp]: "agg_part E depth Tok_EOF = None"
  by simp

lemma parse_agg_arg_rel: "parser_rel any_token B (\<lambda>_. 0) (parse_agg_arg E) (parse_agg_arg E)"
  unfolding parse_agg_arg_def match_defs by (rule parser_rules | simp; fail | force)+

lemma parse_over_spec_rel: "parser_rel any_token B (\<lambda>_. 0) (parse_over_spec E) (parse_over_spec E)"
  unfolding parse_over_spec_def by (rule parser_rules | simp; fail)+

lemmas item_binds [parser_rules] =
  bind_rel [OF parse_joins_rel order_refl] bind_rel [OF parse_agg_arg_rel order_refl] bind_rel [OF parse_over_spec_rel order_refl]

lemma parse_call_item_rel: "parser_rel any_token B (\<lambda>_. 0) (parse_call_item E name) (parse_call_item E name)"
  unfolding parse_call_item_def match_defs by (rule parser_rules | simp; fail | rule bind_weak)+

lemma parse_column_item_rel: "parser_rel any_token B (\<lambda>_. 0) (parse_column_item name) (parse_column_item name)"
  unfolding parse_column_item_def by (rule parser_rules | simp; fail)+

lemma parse_expr_item_rel: "parser_rel any_token B (\<lambda>_. 1) (parse_expr_item E) (parse_expr_item E)"
  unfolding parse_expr_item_def by (rule parser_rules | simp; fail)+

lemma parse_select_item_rel: "parser_rel any_token B (\<lambda>_. 1) (parse_select_item E) (parse_select_item E)"
  unfolding parse_select_item_def match_defs
  by (rule parser_rules tail_rel [OF parse_expr_item_rel order_refl] tail_rel [OF parse_call_item_rel order_refl]
      tail_rel [OF parse_column_item_rel order_refl] | simp; fail)+

lemma comma_separated_rel:
  assumes "parser_rel any_token B (\<lambda>_. 1) p q"
  shows "parser_rel any_token B (\<lambda>_. 0) (comma_separated p) (comma_separated q)"
  unfolding comma_separated_def by (rule parser_rules bind_rel [OF assms] | simp; fail)+

lemma parse_select_list_rel: "parser_rel any_token B (\<lambda>_. 0) (parse_select_list E) (parse_select_list E)"
  unfolding parse_select_list_def by (rule comma_separated_rel parse_select_item_rel)+

lemma parse_column_list_rel: "parser_rel any_token B (\<lambda>_. 0) parse_column_list parse_column_list"
proof -
  let ?item = "io_bind p_peek (\<lambda>t. case t of
         Tok_Ident name \<Rightarrow> io_then p_next (io_return [name])
       | Tok_Int _ \<Rightarrow> io_then p_next (io_return [])
       | _ \<Rightarrow> p_expected ''expected column name in GROUP BY'')"
  have "parser_rel any_token B (\<lambda>_. 1) ?item ?item" for B
    by (rule parser_rules | simp; fail)+
  then show ?thesis
    unfolding parse_column_list_def
    by (intro bind_rel [OF comma_separated_rel order_refl]) (simp_all add: parser_rel_return)
qed

lemma parse_order_item_rel: "parser_rel any_token B (\<lambda>_. 1) parse_order_item parse_order_item"
  unfolding parse_order_item_def match_defs by (rule parser_rules | simp; fail | rule bind_weak)+

lemma parse_order_list_rel: "parser_rel any_token B (\<lambda>_. 0) parse_order_list parse_order_list"
  unfolding parse_order_list_def by (rule comma_separated_rel parse_order_item_rel)+

lemma parse_usize_rel: "parser_rel any_token B (\<lambda>_. 1) parse_usize parse_usize"
  unfolding parse_usize_def by (rule parser_rules | simp; fail)+

lemma parse_distinct_rel: "parser_rel any_token B (\<lambda>_. 0) parse_distinct parse_distinct"
  unfolding parse_distinct_def match_defs by (rule parser_rules | simp; fail)+

lemmas list_binds [parser_rules] =
  bind_rel [OF parse_select_list_rel order_refl] bind_rel [OF parse_column_list_rel order_refl]
  bind_rel [OF parse_order_list_rel order_refl] bind_rel [OF parse_usize_rel order_refl]
  bind_rel [OF parse_distinct_rel order_refl]

lemma parse_limits_rel: "parser_rel any_token B (\<lambda>_. 0) parse_limits parse_limits"
  unfolding parse_limits_def p_optional_def match_defs by (rule parser_rules | simp; fail | rule bind_weak)+

lemmas parse_limits_bind [parser_rules] = bind_rel [OF parse_limits_rel order_refl]

lemma parse_select_rel: "parser_rel any_token B (\<lambda>_. 1) (parse_select E) (parse_select E)"
  unfolding parse_select_def parse_clauses_def p_optional_def match_defs
  by (rule parser_rules tail_rel [OF parse_column_list_rel order_refl] tail_rel [OF parse_order_list_rel order_refl]
      | simp; fail | rule bind_weak)+

lemma parse_set_primary_rel:
  assumes "parser_rel any_token B (\<lambda>_. 1) rec rec'"
  shows "parser_rel any_token (Suc B) (\<lambda>_. 1) (parse_set_primary E rec) (parse_set_primary E rec')"
  unfolding parse_set_primary_def
  by (rule parser_rules bind_rel [OF assms] bind_rel [OF parse_select_rel order_refl] | simp; fail | force)+

lemma parse_intersect_rel:
  assumes "parser_rel any_token B (\<lambda>_. 1) rec rec'"
  shows "parser_rel any_token (Suc B) (\<lambda>_. 1) (parse_intersect E rec) (parse_intersect E rec')"
  unfolding parse_intersect_def match_defs
  by (rule parser_rules bind_rel [OF parse_set_primary_rel [OF assms]] | simp; fail)+

lemma parse_set_chain_rel:
  assumes "parser_rel any_token B (\<lambda>_. 1) rec rec'"
  shows "parser_rel any_token (Suc B) (\<lambda>_. 1) (parse_set_chain E rec) (parse_set_chain E rec')"
  unfolding parse_set_chain_def match_defs
  by (rule parser_rules bind_rel [OF parse_intersect_rel [OF assms]] | simp; fail)+

lemma parse_set_expr_rel: "parser_rel any_token B (\<lambda>_. 1) (parse_set_expr E) (parse_set_expr E)"
  and parse_set_expr_unfold_rel: "parser_rel any_token B (\<lambda>_. 1) (parse_set_expr E) (parse_set_chain E (parse_set_expr E))"
  using recursive_parser [of "parse_set_expr E" "parse_set_chain E" "\<lambda>_. 1" B] parse_set_expr.simps parse_set_chain_rel
  by blast+

lemma at_end_rel: "parser_rel any_token B (\<lambda>_. 0) (at_end msg x) (at_end msg x)"
  unfolding at_end_def by (rule parser_rules | simp; fail)+

lemma run_genuine:
  assumes "parser_rel any_token (length ts) k p p" "eof_closed ts" "fst (p ts) = Inl e"
  shows "genuine e"
proof -
  have "ok_result k ts (p ts)"
    using parser_relD [OF assms(1,2)] by blast
  then show ?thesis
    using assms(3) by (cases "p ts") auto
qed

lemma parse_set_genuine: "eof_closed ts \<Longrightarrow> parse_set E ts = Inl e \<Longrightarrow> genuine e"
  unfolding parse_set_def
  by (rule run_genuine [where k = "\<lambda>_. 0", rotated], assumption+)
    (rule bind_rel [OF parse_set_expr_rel order_refl] tail_rel [OF at_end_rel order_refl] | simp)+

lemma parse_expression_genuine: "eof_closed ts \<Longrightarrow> parse_expression E ts = Inl e \<Longrightarrow> genuine e"
  unfolding parse_expression_def
  by (rule run_genuine [where k = "\<lambda>_. 0", rotated], assumption+)
    (rule bind_rel [OF parse_expr_rel order_refl] tail_rel [OF at_end_rel order_refl] | simp)+

section \<open>Join types\<close>

definition lexed :: "token list \<Rightarrow> bool" where
  "lexed ts \<longleftrightarrow> eof_closed ts \<and> (\<forall>k. Tok_Keyword k \<in> set ts \<longrightarrow> k \<in> set (map us KEYWORDS))"

lemma tokenize_lexed: "tokenize U input = Inr ts \<Longrightarrow> lexed ts"
  using lex_loop_ok [of U "[]" input ts] by (fastforce simp: tokenize_def lexed_def eof_closed_def list_all_iff)

lemma lexed_suffix: "lexed ts \<Longrightarrow> suffix rest ts \<Longrightarrow> eof_closed rest \<Longrightarrow> lexed rest"
  by (auto simp: lexed_def dest: set_mono_suffix)

lemma run_rest:
  assumes "\<And>B. parser_rel any_token B k p p" "lexed ts" "p ts = (Inr x, rest)"
  shows "lexed rest" "length rest + k x \<le> length ts"
  using parser_relD [OF assms(1) [of "length ts"], of ts] assms(2,3) lexed_suffix [of ts rest] by (auto simp: lexed_def)

lemma match_unknown:
  assumes "lexed ts" "us s \<notin> set (map us KEYWORDS)"
  shows "io_bind (match_keyword s) f ts = f False ts"
proof (cases ts)
  case (Cons t us)
  then have "t \<noteq> Tok_Keyword (map of_char s)"
    using assms by (auto simp: lexed_def)
  then show ?thesis
    using Cons by (simp add: match_keyword_def p_match_def is_keyword_def p_peek_def io_bind_def)
qed (use assms in \<open>simp add: lexed_def\<close>)

lemma unknown_joins: "us ''RIGHT'' \<notin> set (map us KEYWORDS)" "us ''FULL'' \<notin> set (map us KEYWORDS)" "us ''CROSS'' \<notin> set (map us KEYWORDS)"
  by (simp_all add: KEYWORDS_def)

abbreviation supported_joins :: "join_clause list \<Rightarrow> bool" where
  "supported_joins js \<equiv> \<forall>j\<in>set js. jc_join_type j = ''INNER'' \<or> jc_join_type j = ''LEFT''"

lemma parse_join_on_type:
  "parse_join_on E joins ty ts = (Inr r, rest) \<Longrightarrow> \<exists>j. r = Inl (joins @ [j]) \<and> jc_join_type j = ty"
  unfolding parse_join_on_def by (fastforce elim!: io_bind_cases)

lemma parse_outer_join_type:
  "parse_outer_join E joins ty ts = (Inr r, rest) \<Longrightarrow> \<exists>j. r = Inl (joins @ [j]) \<and> jc_join_type j = ty"
  unfolding parse_outer_join_def by (fastforce elim!: io_bind_cases dest: parse_join_on_type)

lemma match_keyword_True_False:
  assumes "io_bind (match_keyword s) f ts = (Inr r, rest)"
  shows "(\<exists>us. f True us = (Inr r, rest)) \<or> f False ts = (Inr r, rest)"
  using assms by (cases ts) (auto simp: match_keyword_def p_match_def p_peek_def p_next_def io_bind_def split: if_splits)

lemma parse_join_supported:
  assumes "parse_join E joins ts = (Inr r, rest)" "lexed ts"
  shows "r = Inr joins \<or> (\<exists>j. r = Inl (joins @ [j]) \<and> (jc_join_type j = ''INNER'' \<or> jc_join_type j = ''LEFT''))"
proof -
  let ?ok = "\<lambda>r. r = Inr joins \<or> (\<exists>j. r = Inl (joins @ [j]) \<and> (jc_join_type j = ''INNER'' \<or> jc_join_type j = ''LEFT''))"
  define unsupported where "unsupported = (io_bind (match_keyword ''RIGHT'') (\<lambda>b. if b then parse_outer_join E joins ''RIGHT'' else
     io_bind (match_keyword ''FULL'') (\<lambda>b. if b then parse_outer_join E joins ''FULL'' else
     io_bind (match_keyword ''CROSS'') (\<lambda>b.
       if b then io_then (expect_keyword ''JOIN'') (io_bind parse_table_name (\<lambda>table.
         io_return (Inl (joins @ [\<lparr>jc_table = table, jc_on = E_Literal (V_Int 1), jc_join_type = ''CROSS''\<rparr>]))))
       else io_return (Inr joins)))))"
  have "unsupported ts = (Inr (Inr joins), ts)"
    unfolding unsupported_def
    by (simp only: match_unknown [OF assms(2) unknown_joins(1)] match_unknown [OF assms(2) unknown_joins(2)]
        match_unknown [OF assms(2) unknown_joins(3)] if_False io_return_run)
  then show ?thesis
    using assms(1) unfolding parse_join_def unsupported_def [symmetric]
    by (auto dest!: match_keyword_True_False parse_join_on_type parse_outer_join_type elim!: io_bind_cases)
qed

lemma parse_joins_supported:
  assumes "parse_joins E ts = (Inr js, rest)" "lexed ts"
  shows "supported_joins js"
proof -
  have "p_loop (parse_join E) acc ts = (Inr js, rest) \<Longrightarrow> lexed ts \<Longrightarrow> supported_joins acc \<Longrightarrow> supported_joins js" for acc ts
  proof (induction ts arbitrary: acc rule: length_induct)
    case (1 ts)
    obtain r rest' where run: "parse_join E acc ts = (r, rest')"
      by (cases "parse_join E acc ts")
    note loop = "1.prems"(1) [unfolded p_loop.simps [of "parse_join E" acc ts] run]
    then obtain r' where r': "r = Inr r'"
      by (cases r) simp_all
    show ?case
      using parse_join_supported [OF run [unfolded r'] "1.prems"(2)]
    proof
      assume "r' = Inr acc"
      then show ?thesis
        using loop r' "1.prems"(3) by simp
    next
      assume "\<exists>j. r' = Inl (acc @ [j]) \<and> (jc_join_type j = ''INNER'' \<or> jc_join_type j = ''LEFT'')"
      then obtain j where j: "r' = Inl (acc @ [j])" "jc_join_type j = ''INNER'' \<or> jc_join_type j = ''LEFT''"
        by blast
      have rest': "lexed rest'" "length rest' < length ts"
        using run_rest [OF parse_join_rel "1.prems"(2) run [unfolded r']] j(1) by simp_all
      then have "p_loop (parse_join E) (acc @ [j]) rest' = (Inr js, rest)"
        using loop r' j(1) by simp
      moreover have "supported_joins (acc @ [j])"
        using "1.prems"(3) j(2) by simp
      ultimately show ?thesis
        using "1.IH" rest' by blast
    qed
  qed
  then show ?thesis
    using assms by (simp add: parse_joins_def)
qed

lemma io_bind_InrE:
  assumes "io_bind m f s = (Inr y, s')"
  obtains x s1 where "m s = (Inr x, s1)" "f x s1 = (Inr y, s')"
  using assms by (elim io_bind_cases) auto

lemma from_rel: "parser_rel any_token B (\<lambda>_. 0) (p_optional (match_keyword s) parse_table_name)
    (p_optional (match_keyword s) parse_table_name)"
  unfolding match_defs by (rule p_optional_rel [OF _ parse_table_name_rel]) simp

lemma parse_select_supported:
  assumes run: "parse_select E ts = (Inr q, rest)" and ts: "lexed ts"
  shows "supported_joins (sq_joins q)"
proof -
  obtain u d1 dist d2 sel d3 from_table d4 where steps: "expect_keyword ''SELECT'' ts = (Inr u, d1)"
    "parse_distinct d1 = (Inr dist, d2)" "parse_select_list E d2 = (Inr sel, d3)"
    "p_optional (match_keyword ''FROM'') parse_table_name d3 = (Inr from_table, d4)"
    "parse_clauses E dist sel from_table d4 = (Inr q, rest)"
    using run unfolding parse_select_def by (elim io_bind_InrE)
  have "lexed d1"
    by (rule run_rest(1) [OF expect_keyword_rel ts steps(1)])
  then have "lexed d2"
    by (rule run_rest(1) [OF parse_distinct_rel _ steps(2)])
  then have "lexed d3"
    by (rule run_rest(1) [OF parse_select_list_rel _ steps(3)])
  then have "lexed d4"
    by (rule run_rest(1) [OF from_rel _ steps(4)])
  moreover obtain d5 where "parse_joins E d4 = (Inr (sq_joins q), d5)"
    using steps(5) unfolding parse_clauses_def by (elim io_bind_InrE) (auto split: prod.splits)
  ultimately show ?thesis
    using parse_joins_supported by blast
qed

definition plain_env :: sql_env where
  "plain_env = \<lparr>se_unicode = ascii_only, se_show_f64 = (\<lambda>_. []), se_debug = (\<lambda>_. []), se_parse_date = (\<lambda>_. None)\<rparr>"

text \<open>C39. The parser ends on every statement text that tokenizes, with a query or with an error about the statement: no
  loop of it runs forever, no recursive call is made without consuming a token, and the token vector is never indexed
  behind its end.\<close>

theorem parse_text_total:
  assumes "tokenize U input = Inr ts"
  shows "(\<exists>q. parse_set E ts = Inr q) \<or> (\<exists>msg t. parse_set E ts = Inl (Parse_Error msg t))"
proof (cases "parse_set E ts")
  case (Inl e)
  then have "genuine e"
    using parse_set_genuine tokenize_lexed [OF assms] by (auto simp: lexed_def)
  then show ?thesis
    using Inl by (cases e) auto
qed simp

theorem parse_text_total_witness:
  "tokenize ascii_only (us ''SELECT'') = Inr [Tok_Keyword (us ''SELECT''), Tok_EOF] \<and>
   ((\<exists>q. parse_set plain_env [Tok_Keyword (us ''SELECT''), Tok_EOF] = Inr q) \<or>
    (\<exists>msg t. parse_set plain_env [Tok_Keyword (us ''SELECT''), Tok_EOF] = Inl (Parse_Error msg t)))"
proof -
  have "tokenize ascii_only (us ''SELECT'') = Inr [Tok_Keyword (us ''SELECT''), Tok_EOF]"
    by code_simp
  then show ?thesis
    using parse_text_total by blast
qed

text \<open>C40. The documented RIGHT, FULL and CROSS joins cannot be parsed: the tokenizer yields these words as identifiers, so
  every join of a SELECT that is parsed from a text is INNER or LEFT.\<close>

theorem parsed_joins_inner_or_left:
  assumes "tokenize U input = Inr ts" "parse_select E ts = (Inr q, rest)" "j \<in> set (sq_joins q)"
  shows "jc_join_type j = ''INNER'' \<or> jc_join_type j = ''LEFT''"
  using parse_select_supported [OF assms(2) tokenize_lexed [OF assms(1)]] assms(3) by blast

text \<open>\<open>SELECT a FROM t LEFT JOIN u ON a\<close>\<close>

definition left_join_text :: rstring where
  "left_join_text = us ''SELECT a FROM t LEFT JOIN u ON a''"

definition left_join_tokens :: "token list" where
  "left_join_tokens = [Tok_Keyword (us ''SELECT''), Tok_Ident (us ''a''), Tok_Keyword (us ''FROM''), Tok_Ident (us ''t''),
     Tok_Keyword (us ''LEFT''), Tok_Keyword (us ''JOIN''), Tok_Ident (us ''u''), Tok_Keyword (us ''ON''), Tok_Ident (us ''a''), Tok_EOF]"

definition left_join_query :: select_query where
  "left_join_query = \<lparr>sq_select = [Item_Column (us ''a'')], sq_from = us ''t'',
     sq_joins = [\<lparr>jc_table = us ''u'', jc_on = E_Column (us ''a''), jc_join_type = ''LEFT''\<rparr>], sq_where_clause = None, sq_group_by = [],
     sq_having = None, sq_order_by = [], sq_limit = None, sq_offset = None, sq_fetch = None, sq_distinct = False, sq_distinct_on = None\<rparr>"

lemma left_join_lexes: "tokenize ascii_only left_join_text = Inr left_join_tokens"
  by code_simp

lemma left_join_parses: "parse_select plain_env left_join_tokens = (Inr left_join_query, [Tok_EOF])"
  by code_simp

theorem parsed_joins_inner_or_left_witness:
  "tokenize ascii_only left_join_text = Inr left_join_tokens \<and>
   parse_select plain_env left_join_tokens = (Inr left_join_query, [Tok_EOF]) \<and>
   (jc_join_type (hd (sq_joins left_join_query)) = ''INNER'' \<or> jc_join_type (hd (sq_joins left_join_query)) = ''LEFT'')"
proof -
  have "hd (sq_joins left_join_query) \<in> set (sq_joins left_join_query)"
    by (simp add: left_join_query_def)
  then show ?thesis
    using parsed_joins_inner_or_left [OF left_join_lexes left_join_parses] left_join_lexes left_join_parses by blast
qed

end
