(* ===== verification/Sql_Roundtrip.thy ===== *)
theory Sql_Roundtrip
  imports Sql_Parser
begin

text \<open>
  The precedence levels of the expression parser (\<open>src/sql/parser.rs\<close>). \<open>precedence\<close> and \<open>well_levelled\<close> state the
  grammar that the head of the file documents: OR, AND, NOT, comparison, additive, multiplicative, unary, primary,
  with chains that associate to the left. \<open>expr_tokens\<close> writes an expression as tokens without adding parentheses.
  The main lemma shows that the parser reads the tokens of every well-levelled expression back as that expression.
\<close>

section \<open>Levels\<close>

definition binop_level :: "binop \<Rightarrow> nat" where
  "binop_level op =
     (if op = Or_Op then 1 else if op = And_Op then 2 else if is_comparison op then 4
      else if op \<in> {Add_Op, Sub_Op, Concat_Op} then 5 else 6)"

fun precedence :: "expr \<Rightarrow> nat" where
  "precedence (E_Binary _ op _) = binop_level op"
| "precedence (E_Not _) = 3"
| "precedence (E_IsNull _ _) = 4"
| "precedence (E_Like _ _ _) = 4"
| "precedence (E_Between _ _ _ _) = 4"
| "precedence (E_InList _ _ _) = 4"
| "precedence (E_Unary _ _) = 7"
| "precedence _ = 8"

abbreviation kw :: "string \<Rightarrow> token" where
  "kw s \<equiv> Tok_Keyword (us s)"

fun binop_token :: "binop \<Rightarrow> token" where
  "binop_token And_Op = kw ''AND''"
| "binop_token Or_Op = kw ''OR''"
| "binop_token op = Tok_Op (binop_as_str op)"

fun value_tokens :: "sql_value \<Rightarrow> token list" where
  "value_tokens (V_Int i) = [Tok_Int i]"
| "value_tokens (V_Float f) = [Tok_Float f]"
| "value_tokens (V_String s) = [Tok_String s]"
| "value_tokens (V_Hex h) = [Tok_Hex h]"
| "value_tokens V_Null = [kw ''NULL'']"
| "value_tokens (V_Date _) = []"

definition negation :: "bool \<Rightarrow> token list" where
  "negation negated = (if negated then [kw ''NOT''] else [])"

fun comma_tokens :: "token list list \<Rightarrow> token list" where
  "comma_tokens [] = []"
| "comma_tokens [ts] = ts"
| "comma_tokens (ts # tss) = ts @ Tok_Comma # comma_tokens tss"

primrec expr_tokens :: "expr \<Rightarrow> token list" where
  "expr_tokens (E_Column name) = [Tok_Ident name]"
| "expr_tokens (E_Literal v) = value_tokens v"
| "expr_tokens (E_Binary l op r) = expr_tokens l @ binop_token op # expr_tokens r"
| "expr_tokens (E_Unary op e) = Tok_Op (unary_as_str op) # expr_tokens e"
| "expr_tokens (E_Not e) = kw ''NOT'' # expr_tokens e"
| "expr_tokens (E_Case ws el) =
     kw ''CASE'' # concat (map (\<lambda>(c, v). kw ''WHEN'' # c @ kw ''THEN'' # v) (map (map_prod expr_tokens expr_tokens) ws))
     @ (case map_option expr_tokens el of None \<Rightarrow> [] | Some ts \<Rightarrow> kw ''ELSE'' # ts) @ [kw ''END'']"
| "expr_tokens (E_Function name args dist) =
     Tok_Ident name # Tok_LParen # (if dist then [kw ''DISTINCT''] else []) @ comma_tokens (map expr_tokens args) @ [Tok_RParen]"
| "expr_tokens (E_Like e p negated) = expr_tokens e @ negation negated @ kw ''LIKE'' # expr_tokens p"
| "expr_tokens (E_Between e low high negated) =
     expr_tokens e @ negation negated @ kw ''BETWEEN'' # expr_tokens low @ kw ''AND'' # expr_tokens high"
| "expr_tokens (E_InList e list negated) =
     expr_tokens e @ negation negated @ kw ''IN'' # Tok_LParen # comma_tokens (map expr_tokens list) @ [Tok_RParen]"
| "expr_tokens (E_IsNull e negated) = expr_tokens e @ kw ''IS'' # negation negated @ [kw ''NULL'']"
| "expr_tokens (E_InSubquery e s negated) = []"
| "expr_tokens (E_Exists s negated) = []"
| "expr_tokens (E_Extract field e) =
     kw ''EXTRACT'' # Tok_LParen # Tok_Ident field # kw ''FROM'' # expr_tokens e @ [Tok_RParen]"
| "expr_tokens (E_Cast e target) = kw ''CAST'' # Tok_LParen # expr_tokens e @ [kw ''AS'', Tok_Ident target, Tok_RParen]"
| "expr_tokens E_Wildcard = [Tok_Op ''*'']"
| "expr_tokens (E_Paren e) = Tok_LParen # expr_tokens e @ [Tok_RParen]"

text \<open>Operands bind at least as tightly as their position asks for; names of calls, fields and types are in upper case,
  as the parser stores them; a call without DISTINCT does not start with a column of that name. Left out are the
  expressions that \<open>expr_tokens\<close> does not write: literals that are dates (no literal is parsed as one), EXISTS and IN
  with a subquery (whose text is captured), and a bare star outside a call.\<close>

definition operand_levels :: "binop \<Rightarrow> nat \<times> nat" where
  "operand_levels op = (let n = binop_level op in if n = 4 then (5, 5) else (n, n + 1))"

primrec well_levelled :: "sql_env \<Rightarrow> expr \<Rightarrow> bool" where
  "well_levelled E (E_Column _) = True"
| "well_levelled E (E_Literal v) = (case v of V_Date _ \<Rightarrow> False | _ \<Rightarrow> True)"
| "well_levelled E (E_Binary l op r) =
     (well_levelled E l \<and> well_levelled E r \<and> fst (operand_levels op) \<le> precedence l \<and> snd (operand_levels op) \<le> precedence r)"
| "well_levelled E (E_Unary _ e) = (well_levelled E e \<and> 7 \<le> precedence e)"
| "well_levelled E (E_Not e) = (well_levelled E e \<and> 3 \<le> precedence e)"
| "well_levelled E (E_Case ws el) =
     (ws \<noteq> [] \<and> list_all (\<lambda>(c, v). c \<and> v) (map (map_prod (well_levelled E) (well_levelled E)) ws)
      \<and> (case map_option (well_levelled E) el of None \<Rightarrow> True | Some b \<Rightarrow> b))"
| "well_levelled E (E_Function name args dist) =
     (upper E name = name \<and>
      (args = [E_Wildcard] \<or>
       list_all (\<lambda>b. b) (map (well_levelled E) args) \<and>
       (\<not> dist \<and> args \<noteq> [] \<longrightarrow> \<not> token_is_word ''DISTINCT'' (hd (expr_tokens (hd args))))))"
| "well_levelled E (E_Like e p _) = (well_levelled E e \<and> well_levelled E p \<and> 5 \<le> precedence e \<and> 5 \<le> precedence p)"
| "well_levelled E (E_Between e low high _) =
     (well_levelled E e \<and> well_levelled E low \<and> well_levelled E high \<and>
      5 \<le> precedence e \<and> 5 \<le> precedence low \<and> 5 \<le> precedence high)"
| "well_levelled E (E_InList e list _) =
     (well_levelled E e \<and> 5 \<le> precedence e \<and> list \<noteq> [] \<and> list_all (\<lambda>b. b) (map (well_levelled E) list)
      \<and> list_all (\<lambda>x. 5 \<le> precedence x) list)"
| "well_levelled E (E_IsNull e _) = (well_levelled E e \<and> 5 \<le> precedence e)"
| "well_levelled E (E_InSubquery _ _ _) = False"
| "well_levelled E (E_Exists _ _) = False"
| "well_levelled E (E_Extract field e) = (upper E field = field \<and> well_levelled E e)"
| "well_levelled E (E_Cast e target) = (upper E target = target \<and> well_levelled E e)"
| "well_levelled E E_Wildcard = False"
| "well_levelled E (E_Paren e) = well_levelled E e"

text \<open>The tokens that end an expression of level \<open>n\<close>.\<close>

definition stops :: "sql_env \<Rightarrow> nat \<Rightarrow> token \<Rightarrow> bool" where
  "stops E n t \<longleftrightarrow> t \<noteq> Tok_LParen \<and> t \<noteq> Tok_Op ''.''
     \<and> (n \<le> 6 \<longrightarrow> multiplicative_op E t = None) \<and> (n \<le> 5 \<longrightarrow> additive_op E t = None)
     \<and> (n \<le> 4 \<longrightarrow> comparison_op E t = None \<and> \<not> token_is_word ''LIKE'' t
         \<and> \<not> is_keyword ''IS'' t \<and> \<not> is_keyword ''NOT'' t \<and> \<not> is_keyword ''BETWEEN'' t \<and> \<not> is_keyword ''IN'' t)
     \<and> (n \<le> 2 \<longrightarrow> \<not> is_keyword ''AND'' t) \<and> (n \<le> 1 \<longrightarrow> \<not> is_keyword ''OR'' t)"

definition level_parser :: "sql_env \<Rightarrow> nat \<Rightarrow> expr parser" where
  "level_parser E n =
     (let rec = parse_expr E
      in if n \<le> 1 then parse_or E rec else if n = 2 then parse_and E rec else if n = 3 then parse_not E rec
         else if n = 4 then parse_comparison E rec else if n = 5 then parse_additive E rec
         else if n = 6 then parse_multiplicative E rec else if n = 7 then parse_unary E rec else parse_primary E rec)"

text \<open>The parser of level \<open>n\<close> reads the tokens of an expression as that expression.\<close>

definition reads :: "sql_env \<Rightarrow> nat \<Rightarrow> expr \<Rightarrow> bool" where
  "reads E n e \<longleftrightarrow> (\<forall>rest. eof_closed rest \<and> stops E n (hd rest) \<longrightarrow> level_parser E n (expr_tokens e @ rest) = (Inr e, rest))"

section \<open>Chains\<close>

definition chain_loop :: "(token \<Rightarrow> binop option) \<Rightarrow> expr parser \<Rightarrow> expr \<Rightarrow> expr parser" where
  "chain_loop op_of operand = p_loop (\<lambda>left. io_bind p_peek (\<lambda>t. case op_of t of
         Some op \<Rightarrow> io_then p_next (io_bind operand (\<lambda>right. io_return (Inl (E_Binary left op right))))
       | None \<Rightarrow> io_return (Inr left)))"

lemma parse_chain_loop: "parse_chain op_of operand = io_bind operand (chain_loop op_of operand)"
  by (simp add: parse_chain_def chain_loop_def)

lemma p_peek_Cons [simp]: "p_peek (t # ts) = (Inr t, t # ts)"
  by (simp add: p_peek_def)

lemma p_next_Cons [simp]: "t \<noteq> Tok_EOF \<Longrightarrow> p_next (t # ts) = (Inr t, ts)"
  by (simp add: p_next_def)

lemma chain_stop: "op_of t = None \<Longrightarrow> chain_loop op_of operand left (t # ts) = (Inr left, t # ts)"
  unfolding chain_loop_def by (subst p_loop.simps) simp

lemma chain_step:
  assumes "op_of t = Some op" "t \<noteq> Tok_EOF" "operand ts = (Inr right, rest)" "length rest \<le> length ts"
  shows "chain_loop op_of operand left (t # ts) = chain_loop op_of operand (E_Binary left op right) rest"
  unfolding chain_loop_def using assms by (subst p_loop.simps) (simp add: io_bind_def)

section \<open>First tokens\<close>

lemma is_keyword_Keyword [simp]: "is_keyword s (Tok_Keyword k) \<longleftrightarrow> k = us s"
  by (simp add: is_keyword_def)

lemma is_keyword_other [simp]:
  "\<not> is_keyword s (Tok_Ident n)" "\<not> is_keyword s (Tok_Int i)" "\<not> is_keyword s (Tok_Float f)" "\<not> is_keyword s (Tok_String x)"
  "\<not> is_keyword s (Tok_Hex h)" "\<not> is_keyword s (Tok_Op op)" "\<not> is_keyword s Tok_LParen" "\<not> is_keyword s Tok_RParen"
  "\<not> is_keyword s Tok_Comma" "\<not> is_keyword s Tok_Semicolon"
  by (simp_all add: is_keyword_def)

definition starts_at :: "nat \<Rightarrow> token \<Rightarrow> bool" where
  "starts_at n t \<longleftrightarrow> \<not> is_keyword ''SELECT'' t \<and> \<not> is_keyword ''EXISTS'' t \<and> t \<noteq> Tok_RParen \<and> t \<noteq> Tok_Op ''*'' \<and> t \<noteq> Tok_EOF
     \<and> (4 \<le> n \<longrightarrow> \<not> is_keyword ''NOT'' t) \<and> (8 \<le> n \<longrightarrow> unary_op_of t = None)"

lemma starts_at_mono: "starts_at n t \<Longrightarrow> m \<le> n \<Longrightarrow> starts_at m t"
  by (auto simp: starts_at_def)

lemma binop_level_le: "binop_level op \<le> 6" "1 \<le> binop_level op"
  by (simp_all add: binop_level_def)

lemma operand_levels_le: "binop_level op \<le> fst (operand_levels op)"
  by (simp add: operand_levels_def Let_def)

lemma first_token: "well_levelled E e \<Longrightarrow> expr_tokens e \<noteq> [] \<and> starts_at (precedence e) (hd (expr_tokens e))"
proof (induction e)
  case (E_Literal v)
  then show ?case
    by (cases v) (simp_all add: starts_at_def unary_op_of_def)
next
  case (E_Binary l op r)
  then show ?case
    using operand_levels_le [of op] by (auto intro: starts_at_mono)
next
  case (E_Unary op e)
  then show ?case
    by (cases op) (simp_all add: starts_at_def)
qed (auto simp: starts_at_def unary_op_of_def)

section \<open>From level to level\<close>

lemma level_simps [simp]:
  "level_parser E (Suc 0) = parse_or E (parse_expr E)" "level_parser E 1 = parse_or E (parse_expr E)"
  "level_parser E 2 = parse_and E (parse_expr E)" "level_parser E 3 = parse_not E (parse_expr E)"
  "level_parser E 4 = parse_comparison E (parse_expr E)" "level_parser E 5 = parse_additive E (parse_expr E)"
  "level_parser E 6 = parse_multiplicative E (parse_expr E)" "level_parser E 7 = parse_unary E (parse_expr E)"
  "level_parser E 8 = parse_primary E (parse_expr E)"
  by (simp_all add: level_parser_def)

definition chain_ops :: "sql_env \<Rightarrow> nat \<Rightarrow> token \<Rightarrow> binop option" where
  "chain_ops E n = (if n = 1 then keyword_op ''OR'' Or_Op else if n = 2 then keyword_op ''AND'' And_Op
     else if n = 5 then additive_op E else multiplicative_op E)"

abbreviation chain_levels :: "nat set" where
  "chain_levels \<equiv> {1, 2, 5, 6}"

lemma level_chain: "n \<in> chain_levels \<Longrightarrow> level_parser E n = parse_chain (chain_ops E n) (level_parser E (n + 1))"
  by (auto simp: chain_ops_def level_parser_def parse_or_def parse_and_def parse_additive_def parse_multiplicative_def)

lemma stops_mono: "stops E n t \<Longrightarrow> n \<le> m \<Longrightarrow> stops E m t"
  by (auto simp: stops_def)

lemma stops_chain: "stops E n t \<Longrightarrow> n \<in> chain_levels \<Longrightarrow> chain_ops E n t = None"
  by (auto simp: stops_def chain_ops_def keyword_op_def)

lemma eof_closed_append [simp]: "eof_closed ts \<Longrightarrow> eof_closed (xs @ ts)"
  by (auto simp: eof_closed_def)

lemma eof_closed_cons [simp]: "eof_closed ts \<Longrightarrow> eof_closed (t # ts)"
  by (simp add: eof_closed_Cons)

lemma eof_closed_ConsE: "eof_closed ts \<Longrightarrow> (\<And>t xs. ts = t # xs \<Longrightarrow> Q) \<Longrightarrow> Q"
  by (cases ts) auto

lemma readsD: "reads E n e \<Longrightarrow> eof_closed rest \<Longrightarrow> stops E n (hd rest) \<Longrightarrow> level_parser E n (expr_tokens e @ rest) = (Inr e, rest)"
  by (simp add: reads_def)

definition joins :: "sql_env \<Rightarrow> nat \<Rightarrow> expr \<Rightarrow> bool" where
  "joins E n e \<longleftrightarrow> (\<forall>rest. eof_closed rest \<and> stops E (n + 1) (hd rest) \<longrightarrow>
     level_parser E n (expr_tokens e @ rest) = chain_loop (chain_ops E n) (level_parser E (n + 1)) e rest)"

lemma reads_joins: "n \<in> chain_levels \<Longrightarrow> reads E (n + 1) e \<Longrightarrow> joins E n e"
  unfolding joins_def by (simp only: level_chain parse_chain_loop) (auto dest: readsD)

lemma joins_reads: "n \<in> chain_levels \<Longrightarrow> joins E n e \<Longrightarrow> reads E n e"
  unfolding joins_def reads_def
  by (metis chain_stop eof_closed_ConsE le_add1 list.sel(1) stops_chain stops_mono)

lemma joins_binary:
  assumes "n \<in> chain_levels" "joins E n l" "reads E (n + 1) r"
    and "chain_ops E n (binop_token op) = Some op" "stops E (n + 1) (binop_token op)" "binop_token op \<noteq> Tok_EOF"
  shows "joins E n (E_Binary l op r)"
  unfolding joins_def
proof (intro allI impI)
  fix rest
  assume rest: "eof_closed rest \<and> stops E (n + 1) (hd rest)"
  let ?loop = "chain_loop (chain_ops E n) (level_parser E (n + 1))"
  have "level_parser E n (expr_tokens (E_Binary l op r) @ rest) = ?loop l (binop_token op # expr_tokens r @ rest)"
    using assms(2,5) rest by (simp add: joins_def)
  also have "\<dots> = ?loop (E_Binary l op r) rest"
    using assms(4,6) readsD [OF assms(3)] rest by (intro chain_step) simp_all
  finally show "level_parser E n (expr_tokens (E_Binary l op r) @ rest) = ?loop (E_Binary l op r) rest" .
qed

lemma binop_chain:
  assumes "\<not> is_comparison op"
  shows "binop_level op \<in> chain_levels" "chain_ops E (binop_level op) (binop_token op) = Some op"
    "stops E (binop_level op + 1) (binop_token op)" "binop_token op \<noteq> Tok_EOF"
proof -
  note binop = binop_from_as_str [of "se_unicode E"]
  show "binop_level op \<in> chain_levels" "binop_token op \<noteq> Tok_EOF"
    using assms by (cases op; simp add: binop_level_def is_comparison_def)+
  show "chain_ops E (binop_level op) (binop_token op) = Some op" "stops E (binop_level op + 1) (binop_token op)"
    using assms binop [of op]
    by (cases op; simp add: binop_level_def is_comparison_def chain_ops_def keyword_op_def additive_op_def multiplicative_op_def
        comparison_op_def select_op_def stops_def eq_ignore_ascii_case_def ascii_lower_char_def is_ascii_upper_def)+
qed

lemma run_peek [simp]: "ts \<noteq> [] \<Longrightarrow> io_bind p_peek f ts = f (hd ts) ts"
  by (cases ts) (simp_all add: io_bind_def)

lemma run_next [simp]: "t \<noteq> Tok_EOF \<Longrightarrow> io_bind p_next f (t # ts) = f t ts"
  by (simp add: io_bind_def)

lemma run_match [simp]:
  "q t \<Longrightarrow> t \<noteq> Tok_EOF \<Longrightarrow> io_bind (p_match q) f (t # ts) = f True ts"
  "ts \<noteq> [] \<Longrightarrow> \<not> q (hd ts) \<Longrightarrow> io_bind (p_match q) f ts = f False ts"
  by (cases ts; simp add: p_match_def io_bind_def p_peek_def)+

lemma run_match2 [simp]:
  "q1 t \<Longrightarrow> t \<noteq> Tok_EOF \<Longrightarrow> q2 u \<Longrightarrow> u \<noteq> Tok_EOF \<Longrightarrow> io_bind (p_match2 q1 q2) f (t # u # ts) = f True ts"
  "ts \<noteq> [] \<Longrightarrow> \<not> q1 (hd ts) \<Longrightarrow> io_bind (p_match2 q1 q2) f ts = f False ts"
  "q1 t \<Longrightarrow> t \<noteq> Tok_EOF \<Longrightarrow> \<not> q2 u \<Longrightarrow> io_bind (p_match2 q1 q2) f (t # u # ts) = f False (t # u # ts)"
  by (cases ts; simp add: p_match2_def p_match_def io_bind_def p_peek_def)+

lemma run_expect [simp]:
  "t \<noteq> Tok_EOF \<Longrightarrow> io_bind (p_expect t msg) f (t # ts) = f () ts"
  "k = us s \<Longrightarrow> io_bind (expect_keyword s) g (Tok_Keyword k # ts) = g () ts"
  by (simp_all add: p_expect_def expect_keyword_def match_keyword_def p_match_def io_bind_def)

lemma unary_level:
  assumes "reads E 8 e" "expr_tokens e \<noteq> []" "unary_op_of (hd (expr_tokens e)) = None"
  shows "reads E 7 e"
  using assms stops_mono [of E 7 _ 8] unfolding reads_def
  by (auto simp: parse_unary.simps [of E _ "_ @ _"] hd_append)

lemma comparison_level:
  assumes "reads E 5 e"
  shows "reads E 4 e"
  unfolding reads_def
proof (intro allI impI)
  fix rest
  assume rest: "eof_closed rest \<and> stops E 4 (hd rest)"
  then have "rest \<noteq> []" "parse_additive E (parse_expr E) (expr_tokens e @ rest) = (Inr e, rest)"
    using readsD [OF assms, of rest] stops_mono [of E 4 _ 5] by auto
  then show "level_parser E 4 (expr_tokens e @ rest) = (Inr e, rest)"
    using rest by (simp add: parse_comparison_def parse_predicate_def match_defs stops_def)
qed

lemma not_level:
  assumes "reads E 4 e" "expr_tokens e \<noteq> []" "\<not> is_keyword ''NOT'' (hd (expr_tokens e))" "\<not> is_keyword ''EXISTS'' (hd (expr_tokens e))"
  shows "reads E 3 e"
  using assms stops_mono [of E 3 _ 4] unfolding reads_def
  by (auto simp: parse_not.simps [of E _ "_ @ _"] match_defs hd_append)

definition good :: "sql_env \<Rightarrow> expr \<Rightarrow> bool" where
  "good E e \<longleftrightarrow> (\<forall>n. 1 \<le> n \<and> n \<le> precedence e \<longrightarrow> reads E n e \<and> (n \<in> chain_levels \<longrightarrow> joins E n e))"

lemma descend:
  assumes "well_levelled E e" "reads E (precedence e) e" "precedence e \<in> chain_levels \<Longrightarrow> joins E (precedence e) e"
  shows "good E e"
  unfolding good_def
proof (intro allI impI)
  fix n :: nat
  assume n: "1 \<le> n \<and> n \<le> precedence e"
  note first = first_token [OF assms(1)]
  have "n \<le> precedence e"
    using n by simp
  then show "reads E n e \<and> (n \<in> chain_levels \<longrightarrow> joins E n e)"
  proof (induction rule: inc_induct)
    case (step k)
    have le: "precedence e \<le> 8"
      by (cases e) (simp_all add: order_trans [OF binop_level_le(1)])
    then consider "k \<in> chain_levels" | "k = 3" | "k = 4" | "k = 7"
      using step n by fastforce
    then show ?case
    proof cases
      case 1
      then show ?thesis
        using step.IH reads_joins [of k E e] joins_reads [of k E e] by simp
    next
      case 2
      then show ?thesis
        using step first not_level [of E e] by (simp add: starts_at_def)
    next
      case 3
      then show ?thesis
        using step comparison_level [of E e] by simp
    next
      case 4
      then show ?thesis
        using step first le unary_level [of E e] by (simp add: starts_at_def)
    qed
  qed (use assms in auto)
qed

section \<open>Operators\<close>

lemmas word_simps = eq_ignore_ascii_case_def ascii_lower_char_def is_ascii_upper_def

lemma ops_keyword [simp]: "multiplicative_op E (Tok_Keyword k) = None" "additive_op E (Tok_Keyword k) = None"
  "comparison_op E (Tok_Keyword k) = None"
  by (simp_all add: multiplicative_op_def additive_op_def comparison_op_def select_op_def)

lemma stops_punctuation [simp]: "stops E n Tok_RParen" "stops E n Tok_Comma" "stops E n Tok_EOF" "stops E n Tok_Semicolon"
  by (simp_all add: stops_def multiplicative_op_def additive_op_def comparison_op_def select_op_def is_keyword_def)

lemma stops_keyword [simp]: "stops E n (Tok_Keyword k) \<longleftrightarrow>
    (n \<le> 4 \<longrightarrow> \<not> eq_ignore_ascii_case k (us ''LIKE'') \<and> k \<noteq> us ''IS'' \<and> k \<noteq> us ''NOT'' \<and> k \<noteq> us ''BETWEEN'' \<and> k \<noteq> us ''IN'')
    \<and> (n \<le> 2 \<longrightarrow> k \<noteq> us ''AND'') \<and> (n \<le> 1 \<longrightarrow> k \<noteq> us ''OR'')"
  by (auto simp: stops_def)

lemma stops_comparison: "is_comparison op \<Longrightarrow> stops E 5 (binop_token op) \<and> comparison_op E (binop_token op) = Some op
    \<and> \<not> is_keyword s (binop_token op) \<and> binop_token op \<noteq> Tok_EOF"
  using binop_from_as_str [of "se_unicode E" op]
  by (cases op; simp add: is_comparison_def stops_def multiplicative_op_def additive_op_def comparison_op_def select_op_def)

lemma goodD: "good E e \<Longrightarrow> 1 \<le> n \<Longrightarrow> n \<le> precedence e \<Longrightarrow> reads E n e"
  by (simp add: good_def)

lemma precedence_pos: "1 \<le> precedence e"
  by (cases e) (simp_all add: binop_level_def)

lemma nested:
  assumes "good E e" "eof_closed rest" "stops E 1 (hd rest)"
  shows "parse_expr E (expr_tokens e @ rest) = (Inr e, rest)"
  using readsD [OF goodD [OF assms(1) order_refl precedence_pos] assms(2,3)] assms(2)
  by (simp add: parse_expr_unfold)

lemma additive_reads:
  assumes "good E e" "5 \<le> precedence e" "eof_closed rest" "stops E 5 (hd rest)"
  shows "parse_additive E (parse_expr E) (expr_tokens e @ rest) = (Inr e, rest)"
  using readsD [OF goodD [OF assms(1) _ assms(2)] assms(3,4)] by simp

lemma stops_45: "stops E 4 t \<Longrightarrow> stops E 5 t"
  by (erule stops_mono) simp

lemma binary_comparison:
  assumes "is_comparison op" "good E l" "good E r" "5 \<le> precedence l" "5 \<le> precedence r"
  shows "reads E 4 (E_Binary l op r)"
  unfolding reads_def
  using assms stops_comparison [OF assms(1), of E]
  by (auto simp: parse_comparison_def match_defs additive_reads stops_45)

lemma reads_isnull: "good E e \<Longrightarrow> 5 \<le> precedence e \<Longrightarrow> reads E 4 (E_IsNull e negated)"
  unfolding reads_def
  by (cases negated) (auto simp: parse_comparison_def match_defs additive_reads negation_def)

lemma reads_like:
  assumes "good E e" "5 \<le> precedence e" "good E p" "5 \<le> precedence p"
  shows "reads E 4 (E_Like e p negated)"
  unfolding reads_def
  using assms by (cases negated)
    (auto simp: parse_comparison_def parse_predicate_def parse_like_def match_defs additive_reads negation_def word_simps stops_45)

lemma reads_between:
  assumes "good E e" "good E low" "good E high" "5 \<le> precedence e" "5 \<le> precedence low" "5 \<le> precedence high"
  shows "reads E 4 (E_Between e low high negated)"
  unfolding reads_def
  using assms by (cases negated)
    (auto simp: parse_comparison_def parse_predicate_def parse_between_def match_defs additive_reads negation_def word_simps stops_45)

lemma in_list_loop:
  assumes "\<forall>x\<in>set (x # xs). good E x \<and> 5 \<le> precedence x" "eof_closed rest"
  shows "p_loop (\<lambda>list. io_bind (parse_additive E (parse_expr E)) (\<lambda>e. io_bind p_peek (\<lambda>t. case t of
              Tok_Comma \<Rightarrow> io_then p_next (io_return (Inl (list @ [e])))
            | Tok_RParen \<Rightarrow> io_then p_next (io_return (Inr (list @ [e])))
            | _ \<Rightarrow> p_expected msg))) acc
      (comma_tokens (map expr_tokens (x # xs)) @ Tok_RParen # rest) = (Inr (acc @ x # xs), rest)"
  using assms
proof (induction xs arbitrary: x acc)
  case Nil
  then show ?case
    by (subst p_loop.simps) (simp add: additive_reads)
next
  case (Cons y ys)
  then show ?case
    by (subst p_loop.simps) (simp add: additive_reads del: p_loop.simps)
qed

lemma reads_in_list:
  assumes "good E e" "5 \<le> precedence e" "list \<noteq> []" "\<forall>x\<in>set list. well_levelled E x \<and> good E x \<and> 5 \<le> precedence x"
  shows "reads E 4 (E_InList e list negated)"
proof -
  obtain x xs where list: "list = x # xs"
    using assms(3) by (cases list) auto
  have hd: "comma_tokens (map expr_tokens list) \<noteq> []" "hd (comma_tokens (map expr_tokens list)) = hd (expr_tokens x)"
    using first_token [of E x] assms(4) list by (cases xs; simp)+
  then have "\<not> is_keyword ''SELECT'' (hd (comma_tokens (map expr_tokens list)))"
    using first_token [of E x] assms(4) list by (simp add: starts_at_def)
  then show ?thesis
    unfolding reads_def using assms hd(1) in_list_loop [of x xs E]
    by (cases negated)
      (auto simp: parse_comparison_def parse_predicate_def parse_in_def Let_def match_defs additive_reads negation_def word_simps stops_45
        list hd_append)
qed

lemma reads_unary:
  assumes "good E e" "7 \<le> precedence e"
  shows "reads E 7 (E_Unary op e)"
proof -
  have "reads E 7 e"
    using goodD [OF assms(1) _ assms(2)] by simp
  moreover have "unary_op_of (Tok_Op (unary_as_str op)) = Some op"
    by (cases op) (simp_all add: unary_op_of_def)
  ultimately show ?thesis
    unfolding reads_def by (simp add: parse_unary.simps [of E _ "_ # _"] shorter_def io_bind_def)
qed

lemma reads_not:
  assumes "well_levelled E e" "good E e" "3 \<le> precedence e"
  shows "reads E 3 (E_Not e)"
proof -
  have "reads E 3 e"
    using goodD [OF assms(2) _ assms(3)] by simp
  then show ?thesis
    unfolding reads_def using first_token [OF assms(1)]
    by (auto simp: parse_not.simps [of E _ "_ # _"] match_defs shorter_def starts_at_def hd_append)
qed

section \<open>Primary expressions\<close>

lemma run_peek_eof [simp]: "eof_closed ts \<Longrightarrow> io_bind p_peek f ts = f (hd ts) ts"
  by (rule run_peek) auto

lemma upper_kw [simp]: "list_all is_ascii_upper k \<Longrightarrow> to_uppercase U k = k"
  by (rule uppercase_id)

lemma run_word [simp]: "io_bind (parse_word E msg) f (Tok_Ident s # ts) = f (upper E s) ts"
  by (simp add: parse_word_def io_bind_def)

lemma run_no_length [simp]: "io_bind skip_type_length f (Tok_RParen # ts) = f () (Tok_RParen # ts)"
  by (simp add: skip_type_length_def io_bind_def)

lemma reads_column: "reads E 8 (E_Column name)"
  unfolding reads_def by (auto simp: parse_primary_def parse_name_expr_def stops_def)

lemma reads_literal: "well_levelled E (E_Literal v) \<Longrightarrow> reads E 8 (E_Literal v)"
  unfolding reads_def by (cases v) (auto simp: parse_primary_def parse_keyword_expr_def is_ascii_upper_def)

lemma reads_paren: "well_levelled E e \<Longrightarrow> good E e \<Longrightarrow> reads E 8 (E_Paren e)"
  unfolding reads_def using first_token [of E e]
  by (auto simp: parse_primary_def parse_paren_expr_def nested starts_at_def hd_append)

lemma reads_extract: "good E e \<Longrightarrow> upper E field = field \<Longrightarrow> reads E 8 (E_Extract field e)"
  unfolding reads_def
  by (auto simp: parse_primary_def parse_keyword_expr_def parse_extract_def is_ascii_upper_def nested)

lemma reads_cast: "good E e \<Longrightarrow> upper E target = target \<Longrightarrow> reads E 8 (E_Cast e target)"
  unfolding reads_def
  by (auto simp: parse_primary_def parse_keyword_expr_def parse_cast_def nested word_simps)

lemma args_loop:
  assumes "\<forall>x\<in>set (x # xs). good E x" "eof_closed rest"
  shows "p_loop (\<lambda>args. io_bind (parse_expr E) (\<lambda>a. io_bind p_peek (\<lambda>t. case t of
                Tok_Comma \<Rightarrow> io_then p_next (io_return (Inl (args @ [a])))
              | Tok_RParen \<Rightarrow> io_return (Inr (args @ [a]))
              | _ \<Rightarrow> p_expected ''expected , or ) in function args''))) acc
      (comma_tokens (map expr_tokens (x # xs)) @ Tok_RParen # rest) = (Inr (acc @ x # xs), Tok_RParen # rest)"
  using assms
proof (induction xs arbitrary: x acc)
  case Nil
  then show ?case
    by (subst p_loop.simps) (simp add: nested)
next
  case (Cons y ys)
  then show ?case
    by (subst p_loop.simps) (simp add: nested)
qed

lemma args_read:
  assumes "args = [E_Wildcard] \<or> (\<forall>x\<in>set args. well_levelled E x \<and> good E x)" "eof_closed rest"
  shows "parse_function_args (parse_expr E) (comma_tokens (map expr_tokens args) @ Tok_RParen # rest) = (Inr args, Tok_RParen # rest)"
proof (cases "args = [E_Wildcard] \<or> args = []")
  case True
  then show ?thesis
    by (auto simp: parse_function_args_def match_defs)
next
  case False
  then obtain x xs where args: "args = x # xs"
    by (cases args) auto
  then have "well_levelled E x"
    using assms(1) False by auto
  then have "comma_tokens (map expr_tokens args) \<noteq> []" "starts_at 0 (hd (comma_tokens (map expr_tokens args)))"
    using first_token [of E x] starts_at_mono [of "precedence x" _ 0] by (cases xs; simp add: args)+
  moreover have "\<forall>y\<in>set (x # xs). good E y"
    using assms(1) False args by auto
  ultimately show ?thesis
    using args_loop [of x xs E rest "[]"] assms(2) args
    by (simp add: parse_function_args_def match_defs starts_at_def hd_append)
qed

lemma reads_function:
  assumes "well_levelled E (E_Function name args dist)" "args = [E_Wildcard] \<or> (\<forall>x\<in>set args. well_levelled E x \<and> good E x)"
  shows "reads E 8 (E_Function name args dist)"
  unfolding reads_def
proof (intro allI impI)
  fix rest
  assume rest: "eof_closed rest \<and> stops E 8 (hd rest)"
  let ?args = "comma_tokens (map expr_tokens args) @ Tok_RParen # rest"
  have "\<not> token_is_word ''DISTINCT'' (hd ?args)" if "\<not> dist"
  proof (cases "args = [E_Wildcard] \<or> args = []")
    case False
    then obtain x xs where "args = x # xs" "well_levelled E x"
      using assms(2) by (cases args) auto
    then show ?thesis
      using assms(1) False that first_token [of E x] by (cases xs) (auto simp: hd_append)
  qed auto
  then have dist: "io_bind (match_ident ''DISTINCT'') f ((if dist then [kw ''DISTINCT''] else []) @ ?args) = f dist ?args" for f :: "bool \<Rightarrow> expr parser"
    by (simp add: match_defs word_simps)
  show "level_parser E 8 (expr_tokens (E_Function name args dist) @ rest) = (Inr (E_Function name args dist), rest)"
    using dist assms args_read [OF assms(2), of rest] rest
    by (simp add: parse_primary_def parse_name_expr_def)
qed

lemma when_loop:
  assumes "\<forall>(c, v)\<in>set ws. good E c \<and> good E v" "eof_closed rest" "stops E 1 (hd rest)" "\<not> is_keyword ''WHEN'' (hd rest)"
  shows "p_loop (\<lambda>when_clauses. io_bind (match_keyword ''WHEN'') (\<lambda>w.
          if w then io_bind (parse_expr E) (\<lambda>cond. io_then (expect_keyword ''THEN'') (io_bind (parse_expr E) (\<lambda>result.
            io_return (Inl (when_clauses @ [(cond, result)])))))
          else io_return (Inr when_clauses))) acc
      (concat (map (\<lambda>(c, v). kw ''WHEN'' # expr_tokens c @ kw ''THEN'' # expr_tokens v) ws) @ rest) = (Inr (acc @ ws), rest)"
  using assms
proof (induction ws arbitrary: acc)
  case Nil
  then have "rest \<noteq> []"
    by auto
  with Nil show ?case
    by (subst p_loop.simps) (simp add: match_defs)
next
  case (Cons w ws)
  obtain c v where w: "w = (c, v)"
    by (cases w)
  let ?rest = "concat (map (\<lambda>(c, v). kw ''WHEN'' # expr_tokens c @ kw ''THEN'' # expr_tokens v) ws) @ rest"
  have "stops E 1 (hd ?rest)" "eof_closed ?rest"
    using Cons.prems by (cases ws; auto simp: word_simps)+
  then show ?case
    using Cons w by (subst p_loop.simps) (simp add: match_defs nested word_simps)
qed

lemma reads_case:
  assumes "ws \<noteq> []" "\<forall>(c, v)\<in>set ws. good E c \<and> good E v" "\<forall>e. el = Some e \<longrightarrow> good E e"
  shows "reads E 8 (E_Case ws el)"
  unfolding reads_def
proof (intro allI impI)
  fix rest
  assume rest: "eof_closed rest \<and> stops E 8 (hd rest)"
  let ?else = "(case map_option expr_tokens el of None \<Rightarrow> [] | Some ts \<Rightarrow> kw ''ELSE'' # ts) @ kw ''END'' # rest"
  have "eof_closed ?else" "stops E 1 (hd ?else)" "\<not> is_keyword ''WHEN'' (hd ?else)"
    using rest by (cases el; simp add: word_simps)+
  note loop = when_loop [OF assms(2) this, of "[]"]
  have tokens: "expr_tokens (E_Case ws el) @ rest =
      kw ''CASE'' # concat (map (\<lambda>(c, v). kw ''WHEN'' # expr_tokens c @ kw ''THEN'' # expr_tokens v) ws) @ ?else"
    by (simp add: comp_def split_def)
  have "p_optional (match_keyword ''ELSE'') (parse_expr E) ?else = (Inr el, kw ''END'' # rest)"
    using assms(3) rest by (cases el) (simp_all add: p_optional_def match_defs nested word_simps)
  then show "level_parser E 8 (expr_tokens (E_Case ws el) @ rest) = (Inr (E_Case ws el), rest)"
    unfolding tokens using loop assms(1)
    by (simp add: parse_primary_def parse_keyword_expr_def parse_case_def is_ascii_upper_def)
qed

section \<open>The round trip\<close>

lemma well_levelled_good: "well_levelled E e \<Longrightarrow> good E e"
proof (induction e)
  case (E_Binary l op r)
  then have levels: "good E l" "good E r" "fst (operand_levels op) \<le> precedence l" "snd (operand_levels op) \<le> precedence r"
    by simp_all
  show ?case
  proof (cases "is_comparison op")
    case True
    then have "binop_level op = 4"
      by (auto simp: binop_level_def is_comparison_def)
    then show ?thesis
      using E_Binary.prems levels True binary_comparison [OF True] by (intro descend) (simp_all add: operand_levels_def)
  next
    case False
    note op = binop_chain [OF False]
    have le: "binop_level op \<le> precedence l" "binop_level op + 1 \<le> precedence r"
      using levels op(1) by (auto simp: operand_levels_def Let_def)
    have "joins E (binop_level op) l"
      using levels(1) le(1) op(1) binop_level_le(2) [of op] unfolding good_def by blast
    moreover have "reads E (binop_level op + 1) r"
      using goodD [OF levels(2) _ le(2)] by simp
    ultimately have "joins E (binop_level op) (E_Binary l op r)"
      using op by (intro joins_binary) simp_all
    then show ?thesis
      using E_Binary.prems op(1) joins_reads [OF op(1)] by (intro descend) simp_all
  qed
next
  case (E_Case ws el)
  have "\<forall>(c, v)\<in>set ws. good E c \<and> good E v"
    using E_Case by (fastforce simp: list_all_iff)
  moreover have "\<forall>e. el = Some e \<longrightarrow> good E e"
    using E_Case by auto
  ultimately show ?case
    using E_Case.prems by (intro descend) (simp_all add: reads_case)
next
  case (E_Function name args dist)
  have "args = [E_Wildcard] \<or> (\<forall>x\<in>set args. well_levelled E x \<and> good E x)"
    using E_Function by (auto simp: list_all_iff)
  then show ?case
    using E_Function.prems reads_function [OF E_Function.prems] by (intro descend) simp_all
next
  case (E_InList e list negated)
  then have "\<forall>x\<in>set list. well_levelled E x \<and> good E x \<and> 5 \<le> precedence x"
    by (auto simp: list_all_iff)
  then show ?case
    using E_InList by (intro descend) (simp_all add: reads_in_list)
qed (auto intro!: descend reads_column reads_literal reads_paren reads_extract reads_cast reads_unary reads_not reads_isnull
    reads_like reads_between)

text \<open>C38. The precedence levels are those of the documented grammar: the tokens of any expression whose operands respect
  the levels (OR, AND, NOT, comparison, additive, multiplicative, unary, primary, left-associative chains) are read
  back as exactly that expression, and reading ends in front of the first token that cannot continue it. Expressions
  with a subquery or a date value are not covered, and names of calls, fields and types are in upper case.\<close>

theorem parse_expr_roundtrip:
  assumes "well_levelled E e" "eof_closed rest" "stops E 1 (hd rest)"
  shows "parse_expr E (expr_tokens e @ rest) = (Inr e, rest)"
  by (rule nested [OF well_levelled_good [OF assms(1)] assms(2,3)])

text \<open>\<open>NOT a + b * 2 = c OR d\<close>\<close>

definition sample_expr :: expr where
  "sample_expr =
     E_Binary (E_Not (E_Binary (E_Binary (E_Column (us ''a'')) Add_Op (E_Binary (E_Column (us ''b'')) Mul_Op (E_Literal (V_Int 2))))
       Eq_Op (E_Column (us ''c'')))) Or_Op (E_Column (us ''d''))"

theorem parse_expr_roundtrip_witness:
  "well_levelled plain_env sample_expr \<and> parse_expr plain_env (expr_tokens sample_expr @ [Tok_EOF]) = (Inr sample_expr, [Tok_EOF])"
proof -
  have "well_levelled plain_env sample_expr"
    by (simp add: sample_expr_def operand_levels_def binop_level_def is_comparison_def)
  then show ?thesis
    by (auto intro: parse_expr_roundtrip simp: eof_closed_def)
qed

end
