(* ===== verification/Spec2Isabelle.thy ===== *)
theory Spec2Isabelle
  imports Engine_Table Filter_Kernels Leapfrog Buffer_Pool Lexer Wal_Durability Result_Cache Datetime Sql_Roundtrip
begin

text \<open>
  A verification library for turboGP, a relational database engine in Rust (\<^verbatim>\<open>src/src\<close>).

  \<^bold>\<open>The program.\<close> A statement enters \<^verbatim>\<open>engine/mod.rs\<close> as text, is cut into tokens
  (\<^verbatim>\<open>sql/lexer.rs\<close>), and runs against the tables of a catalog (\<^verbatim>\<open>catalog/mod.rs\<close>,
  \<^verbatim>\<open>datasource/table.rs\<close>). Transactions work on a clone of the catalog
  (\<^verbatim>\<open>txn/mod.rs\<close>) or on row versions (\<^verbatim>\<open>txn/mvcc.rs\<close>). Scans compute row bitmaps with
  vector kernels (\<^verbatim>\<open>exec/bitmap.rs\<close>); multiway joins intersect sorted key streams
  (\<^verbatim>\<open>kernel/leapfrog.rs\<close>). Pages (\<^verbatim>\<open>storage/page.rs\<close>) live in a buffer pool
  (\<^verbatim>\<open>storage/buffer_pool.rs\<close>), and a write-ahead log (\<^verbatim>\<open>storage/recovery.rs\<close>) makes
  acknowledged statements survive a crash.

  \<^bold>\<open>Conventions.\<close> \<open>Prelude\<close>: machine integers are words; a Rust panic is the left value of
  \<open>panic + 'a\<close>; a \<open>HashMap\<close> is an association list with the laws of the locale \<open>map_interface\<close>, which
  \<open>hm\<close> interprets. \<open>Io_Monad\<close>: a call that may fail returns an error or a value together with the state it
  reached; the outcomes of the coming system calls are part of the modelled disk, so every error branch can be
  taken. \<open>Utf8_Text\<close>: a Rust \<open>String\<close> as its UTF-8 bytes, with the splitting, number and hexadecimal
  functions the log format uses and their round trips.

  \<^bold>\<open>Theories and what they show.\<close>

  \<^item> \<open>Mvcc\<close>, \<open>Mvcc_Isolation\<close> (\<^verbatim>\<open>txn/mvcc.rs\<close>): the manager as the record \<open>mvcc_txn_manager\<close>, one
    definition per method. The locale \<open>version_reader\<close> is the contract of a visibility test against
    \<open>VACUUM\<close>. \<open>db_step\<close> interleaves the public operations; by rule induction: repeatable reads,
    no dirty reads, rollback without trace, \<open>VACUUM\<close> invisible to readers, the manager invariant in every
    reachable state; further first committer wins on rows whose last version is live, what an update that is
    not refused does, and the lost writes after an aborted update.
  \<^item> \<open>Engine_Table\<close> (\<^verbatim>\<open>types/null_bitmap.rs\<close>, \<^verbatim>\<open>datasource/table.rs\<close>, \<^verbatim>\<open>catalog/mod.rs\<close>,
    \<^verbatim>\<open>txn/mod.rs\<close>, \<open>vacuum_table\<close> of \<^verbatim>\<open>txn/mvcc.rs\<close>): the engine's tables. \<open>VACUUM\<close> of a table keeps
    exactly the visible rows that have a version (rows without one are removed); a snapshot transaction
    round-trips; what happens to autocommitted rows.
  \<^item> \<open>Bitmap\<close>, \<open>Filter_Kernels\<close> (\<^verbatim>\<open>exec/bitmap.rs\<close>): every kernel, vector and scalar, equals the row-wise
    comparison and stays in bounds; the locales \<open>lanes64\<close> and \<open>lanes32\<close> prove the unrolled loops once for all
    comparisons. The bitmap refines a list of bools, with the exceptions of \<open>or\<close> on different lengths and of
    \<open>count_ones_range\<close> within an aligned byte stated.
  \<^item> \<open>Leapfrog\<close> (\<^verbatim>\<open>kernel/leapfrog.rs\<close>): the join ends on sorted inputs with the common keys, over the
    interface \<open>sorted_iterator\<close>. Its loops are \<open>partial_function (option)\<close>, so that returning is part of
    the theorem.
  \<^item> \<open>Crc32c\<close>, \<open>Crc_Order\<close>, \<open>Page\<close> (\<^verbatim>\<open>storage/page.rs\<close>): the hardware checksum equals the bitwise one; every
    single-bit error of a page is repaired, since the CRC register has an order above the page size; on an arbitrary
    page a repair makes checksum and parity match, and an error means that no single flip would.
  \<^item> \<open>Buffer_Pool\<close> (\<^verbatim>\<open>storage/buffer_pool.rs\<close>): over the interface \<open>page_store\<close>, interpreted on the table
    files, the pool refines a map from page ids to pages under evictions and I/O errors, for clients that go on after
    an error, except after a read that fails once its victim has been dropped, which is shown to lose an update;
    fetching makes progress; flushing is durable.
  \<^item> \<open>Lexer\<close> (\<^verbatim>\<open>sql/lexer.rs\<close>): the tokenizer ends on every input, yields well-formed tokens, and inverts
    printing.
  \<^item> \<open>Wal\<close>, \<open>Sample_Codec\<close>, \<open>Wal_Durability\<close> (\<^verbatim>\<open>storage/recovery.rs\<close>): log lines round-trip; in every history
    (\<open>log_history\<close>) of appends, commits, syncs, group commits, truncations, crashes and restarts, in which calls may
    fail, the acknowledged records are read back; the error paths in which acknowledged records are lost.

  \<^item> \<open>Sql_Ast\<close> (\<^verbatim>\<open>sql/ast.rs\<close>), \<open>Token_Parser\<close>, \<open>Sql_Parser\<close>, \<open>Sql_Roundtrip\<close> (\<^verbatim>\<open>sql/parser.rs\<close>): the syntax tree; the
    cursor over the tokens with the relation \<open>parser_rel\<close>, whose rules show of every parser that it ends without a panic
    and consumes tokens; expressions, SELECT and set operations; expressions are read back from their tokens according
    to the documented precedence levels; which joins can be parsed.
  \<^item> \<open>Statement_Kind\<close> (\<^verbatim>\<open>engine/dispatch.rs\<close>), \<open>Result_Cache\<close> (\<^verbatim>\<open>engine/mod.rs\<close>): classification of a
    statement by its first tokens; the cache of results, its size bound, what a lookup returns after an insertion,
    and that its key ignores the case of letters in literals.
  \<^item> \<open>Datetime\<close> (\<^verbatim>\<open>types/datetime.rs\<close>): dates, times, timestamps and intervals in cells; the arithmetic year
    extraction agrees with the calendar on every date; interval addition; round trips.

  \<^bold>\<open>Parameters.\<close> Code outside the repository is an argument of the definitions: base64, JSON and xxh3 of the
  log format (\<open>codec\<close>, with the laws \<open>codec_ok\<close> and the instance \<open>sample_codec\<close>), the replication sink and the
  Raft handle (\<open>peers\<close>), the byte image of a page header (\<open>header_bytes\<close>; alignment
  of slices is not modelled), Unicode tables (\<open>unicode\<close>,
  \<open>text_env\<close>), the calendar of the \<open>time\<close> package (\<open>calendar\<close>, with \<open>calendar_ok\<close> and the instance \<open>gregorian\<close>).

  \<^bold>\<open>Bounds and fuel.\<close> The CLOCK sweep of the pool runs at most twice the number of frames, as in the code.
  The loops and recursive calls of the parsers end because each round consumes a token; a round that consumes none is
  the value \<open>Diverges\<close>, which is shown not to occur. All other loops are structural, have a measure, or are shown to
  return.

  \<^bold>\<open>Not modelled.\<close> The parsers of MERGE, PIVOT, DDL and DML, the planner and expression evaluators (floating point arithmetic and formatting
  throughout), Parquet and CSV loading, Raft and the network servers (packages, sockets, threads).
\<close>

end
